(* ===== verification/Prelude.thy ===== *)
theory Prelude
  imports Main "HOL-Library.Word"
begin

unbundle bit_operations_syntax

text \<open>
  Shared ground of the development: the C integer types of the kernel as machine words, the
  alignment macros of \<^verbatim>\<open>mm/pmm.h\<close>, and the generic facts on words and lists the components
  use. Unsigned C types (\<^verbatim>\<open>uint64_t\<close>, \<^verbatim>\<open>size_t\<close>, \<^verbatim>\<open>uintptr_t\<close>, pointers) are \<open>64 word\<close>, so every
  \<open>+\<close> and \<open>-\<close> of the model wraps as the code's does; the signed \<^verbatim>\<open>int\<close> of the code, whose
  overflow is undefined, is \<open>int\<close>.
\<close>

type_synonym u8 = "8 word"
type_synonym u16 = "16 word"
type_synonym u32 = "32 word"
type_synonym u64 = "64 word"

named_theorems unat_simps \<open>reading word arithmetic as natural-number arithmetic\<close>

abbreviation PAGE_SIZE :: u64 where
  "PAGE_SIZE \<equiv> 4096"

definition ALIGN_UP :: "u64 \<Rightarrow> u64 \<Rightarrow> u64" where
  "ALIGN_UP addr align = (addr + align - 1) AND NOT (align - 1)"

definition ALIGN_DOWN :: "u64 \<Rightarrow> u64 \<Rightarrow> u64" where
  "ALIGN_DOWN addr align = addr AND NOT (align - 1)"

definition pa2pgidx :: "u64 \<Rightarrow> u64" where
  "pa2pgidx pa = pa div PAGE_SIZE"

definition pgidx2pa :: "u64 \<Rightarrow> u64" where
  "pgidx2pa pgidx = pgidx * PAGE_SIZE"

text \<open>The conversions between \<^verbatim>\<open>int\<close> and \<^verbatim>\<open>uint64_t\<close>.\<close>

definition to_int :: "u64 \<Rightarrow> int" where
  "to_int w = sint (ucast w :: u32)"

definition to_u64 :: "int \<Rightarrow> u64" where
  "to_u64 i = word_of_int i"

subsection \<open>Words read as natural numbers\<close>

lemma to_u64_small: "0 \<le> c \<Longrightarrow> c < 2 ^ 63 \<Longrightarrow> unat (to_u64 c) = nat c"
  by (simp add: to_u64_def unat_eq_nat_uint uint_word_of_int)

lemma to_int_small: "unat w < 2 ^ 31 \<Longrightarrow> to_int w = int (unat w)"
proof -
  assume a: "unat w < 2 ^ 31"
  then have "int (unat w) < 2 ^ 31" by (metis of_nat_less_iff of_nat_numeral of_nat_power)
  then have u: "0 \<le> uint w" "uint w < 2 ^ 31" by (simp_all only: uint_nat)
  have "take_bit 32 (uint w) = uint w" by (rule take_bit_int_eq_self) (use u in simp_all)
  then have "uint (ucast w :: 32 word) = uint w" by (simp only: unsigned_ucast_eq) simp
  then have "sint (ucast w :: 32 word) = signed_take_bit 31 (uint w)" by (simp only: sint_uint) simp
  also have "\<dots> = uint w" using u by (intro signed_take_bit_int_eq_self) linarith+
  finally show ?thesis by (simp only: uint_nat to_int_def)
qed

lemma unat_add_no_overflow [unat_simps]:
  fixes a b :: u64
  assumes "unat a + unat b < 2 ^ 64"
  shows "unat (a + b) = unat a + unat b"
  using assms by (simp add: unat_word_ariths)

lemma unat_mult_no_overflow [unat_simps]:
  fixes a b :: u64
  assumes "unat a * unat b < 2 ^ 64"
  shows "unat (a * b) = unat a * unat b"
  using assms by (simp add: unat_word_ariths)

lemma unat_sub_le [unat_simps]:
  fixes a b :: "'a :: len word"
  assumes "b \<le> a"
  shows "unat (a - b) = unat a - unat b"
  using assms by (rule unat_sub)

lemma unat_lt_2p64: "unat (a :: u64) < 18446744073709551616"
  using unsigned_less [where 'a = nat, of a] by simp

lemma unat_Suc_less:
  fixes i n :: u64
  assumes "i < n"
  shows "unat (i + 1) = Suc (unat i)"
proof -
  from assms have "unat i + 1 < 2 ^ 64"
    using unsigned_less [where 'a = nat, of n] by (simp add: word_less_nat_alt)
  then show ?thesis by (simp add: unat_simps)
qed

text \<open>The measure of every counting loop \<^verbatim>\<open>for (i = ..; i < n; i++)\<close> over \<^verbatim>\<open>size_t\<close>.\<close>

lemma loop_measure_decreases:
  fixes i n :: u64
  assumes "i < n"
  shows "unat (n - (i + 1)) < unat (n - i)"
proof -
  from assms have le: "i + 1 \<le> n" "i \<le> n"
    using unat_Suc_less [OF assms] by (simp_all add: word_less_nat_alt word_le_nat_alt)
  with assms show ?thesis
    by (simp add: unat_sub unat_Suc_less [OF assms] word_less_nat_alt diff_less_mono2)
qed

text \<open>The measure of the loops \<^verbatim>\<open>while (n--)\<close>, and one step of the address range they walk.\<close>

lemma count_down_decreases [simp]:
  fixes n :: "'a :: len word"
  assumes "n \<noteq> 0"
  shows "unat (n - 1) < unat n"
proof -
  have "0 < unat n" using assms by (simp add: unat_gt_0)
  then show ?thesis using assms by (simp add: unat_minus_one)
qed

lemma offset_step:
  fixes x p n :: u64
  assumes "n \<noteq> 0"
  shows "x - p < n \<longleftrightarrow> x = p \<or> x - (p + 1) < n - 1"
proof (cases "x = p")
  case True
  then show ?thesis using assms by (simp add: word_neq_0_conv)
next
  case False
  then have "x - p \<noteq> 0" by simp
  then have "unat (x - p - 1) = unat (x - p) - 1" "0 < unat (x - p)"
    by (simp_all add: unat_minus_one unat_gt_0)
  moreover have "unat (n - 1) = unat n - 1" "0 < unat n"
    using assms by (simp_all add: unat_minus_one unat_gt_0)
  moreover have "x - (p + 1) = x - p - 1" by simp
  ultimately have "x - p < n \<longleftrightarrow> x - (p + 1) < n - 1" by (simp only: word_less_nat_alt) linarith
  with False show ?thesis by simp
qed

lemma div_decreases:
  fixes v b :: u64
  assumes "v \<noteq> 0" and "\<not> b < 2"
  shows "unat (v div b) < unat v"
proof -
  from assms have "0 < unat v" "1 < unat b" by (simp_all add: unat_gt_0 word_less_nat_alt)
  then show ?thesis by (simp add: unat_div)
qed

text \<open>Stepping the lower end of a range.\<close>

lemma word_le_step:
  fixes i k n :: u64
  assumes "i < n"
  shows "i \<le> k \<longleftrightarrow> k = i \<or> i + 1 \<le> k"
  using unat_Suc_less [OF assms] by (auto simp: word_le_nat_alt word_unat_eq_iff)

lemma unat_less_2p52_mult:
  fixes i n :: u64
  assumes "i < n" and "unat n \<le> 2 ^ 52"
  shows "unat i * 4096 < 2 ^ 64"
  using assms by (simp add: word_less_nat_alt)

lemma ceil_div8:
  fixes m :: nat
  assumes "m mod 8 \<noteq> 0"
  shows "(m + 7) div 8 = m div 8 + 1"
proof -
  have "(m + 7) div 8 = m div 8 + (m mod 8 + 7) div 8" by (simp add: div_add1_eq [of m 7 8])
  also have "(m mod 8 + 7) div 8 = 1"
    using assms by (intro div_nat_eqI) (auto simp: Suc_le_eq intro: order_less_trans [of _ 15])
  finally show ?thesis by simp
qed

lemma all_ones_u8: "bit (255 :: u8) k \<longleftrightarrow> k < 8"
proof -
  have "(255 :: u8) = mask 8" by (simp add: mask_eq_exp_minus_1)
  then show ?thesis by (simp only: bit_mask_iff) simp
qed

subsection \<open>Alignment\<close>

lemma and_not_mask_eq:
  fixes a :: "'a :: len word"
  shows "a AND NOT (mask n) = push_bit n (drop_bit n a)"
  by (rule bit_word_eqI) (auto simp: bit_simps)

lemma unat_and_not_mask:
  fixes a :: "'a :: len word"
  shows "unat (a AND NOT (mask n)) = unat a - unat a mod 2 ^ n"
proof -
  have "unat (a AND NOT (mask n)) = take_bit LENGTH('a) (unat a div 2 ^ n * 2 ^ n)"
    unfolding and_not_mask_eq
    by (simp only: unsigned_push_bit_eq unat_drop_bit_eq) (simp add: drop_bit_eq_div push_bit_eq_mult)
  also have "\<dots> = unat a div 2 ^ n * 2 ^ n"
  proof (rule take_bit_nat_eq_self)
    have "unat a div 2 ^ n * 2 ^ n \<le> unat a" by (simp add: div_times_less_eq_dividend)
    then show "unat a div 2 ^ n * 2 ^ n < 2 ^ LENGTH('a)"
      using unsigned_less [where 'a = nat, of a] by linarith
  qed
  finally show ?thesis by (simp add: minus_mod_eq_div_mult)
qed

lemma page_mask: "(PAGE_SIZE - 1 :: u64) = mask 12" "(8 - 1 :: u64) = mask 3"
  by (simp_all add: mask_eq_exp_minus_1)

lemma unat_ALIGN_DOWN_page: "unat (ALIGN_DOWN a PAGE_SIZE) = unat a - unat a mod 4096"
  unfolding ALIGN_DOWN_def page_mask using unat_and_not_mask [of a 12] by simp

lemma unat_ALIGN_UP_page:
  assumes "unat a + 4095 < 2 ^ 64"
  shows "unat (ALIGN_UP a PAGE_SIZE) = (unat a + 4095) - (unat a + 4095) mod 4096"
proof -
  have eq: "a + PAGE_SIZE - 1 = a + 4095" by simp
  have "unat (a + 4095) = unat a + 4095"
    using assms by (simp add: unat_simps)
  with unat_and_not_mask [of "a + 4095" 12] show ?thesis
    unfolding ALIGN_UP_def eq page_mask by simp
qed

end
