(* ===== verification/KList.thy ===== *)
theory KList
  imports Prelude
begin

text \<open>
  The kernel's circular doubly linked list, \<^verbatim>\<open>lib/list.h\<close>. The nodes of every list (heap block
  headers, VMAs, the process list, the ready queue) are addresses; the two link fields are two
  maps from addresses to addresses, so that aliasing between the nodes of an update is visible.
  \<open>dll L h xs\<close> says that the head \<open>h\<close> carries exactly the nodes \<open>xs\<close>, in order; each operation of
  the header is shown to be the corresponding operation on \<open>xs\<close> and to leave every other list
  alone. The locale \<open>node_queue\<close> is the first-in first-out contract the scheduler relies on.
\<close>

record links =
  l_next :: "u64 \<Rightarrow> u64"
  l_prev :: "u64 \<Rightarrow> u64"

definition list_init :: "u64 \<Rightarrow> 'a links_scheme \<Rightarrow> 'a links_scheme" where
  "list_init node L = L\<lparr>l_next := (l_next L)(node := node), l_prev := (l_prev L)(node := node)\<rparr>"

text \<open>The four assignments of \<^verbatim>\<open>__list_add\<close>, in the source's order.\<close>

definition list_add_between :: "u64 \<Rightarrow> u64 \<Rightarrow> u64 \<Rightarrow> 'a links_scheme \<Rightarrow> 'a links_scheme" where
  "list_add_between new_node prv nxt L =
     (let L1 = L\<lparr>l_prev := (l_prev L)(nxt := new_node)\<rparr>;
          L2 = L1\<lparr>l_next := (l_next L1)(new_node := nxt)\<rparr>;
          L3 = L2\<lparr>l_prev := (l_prev L2)(new_node := prv)\<rparr>
      in L3\<lparr>l_next := (l_next L3)(prv := new_node)\<rparr>)"

definition list_add_after :: "u64 \<Rightarrow> u64 \<Rightarrow> 'a links_scheme \<Rightarrow> 'a links_scheme" where
  "list_add_after new_node head L = list_add_between new_node head (l_next L head) L"

definition list_add_before :: "u64 \<Rightarrow> u64 \<Rightarrow> 'a links_scheme \<Rightarrow> 'a links_scheme" where
  "list_add_before new_node head L = list_add_between new_node (l_prev L head) head L"

definition list_del :: "u64 \<Rightarrow> 'a links_scheme \<Rightarrow> 'a links_scheme" where
  "list_del node L =
     (let L1 = L\<lparr>l_prev := (l_prev L)(l_next L node := l_prev L node)\<rparr>;
          L2 = L1\<lparr>l_next := (l_next L1)(l_prev L1 node := l_next L1 node)\<rparr>;
          L3 = L2\<lparr>l_next := (l_next L2)(node := node)\<rparr>
      in L3\<lparr>l_prev := (l_prev L3)(node := node)\<rparr>)"

subsection \<open>Lists on the node heap\<close>

primrec chain :: "'a links_scheme \<Rightarrow> u64 \<Rightarrow> u64 list \<Rightarrow> u64 \<Rightarrow> bool" where
  "chain L a [] b \<longleftrightarrow> l_next L a = b \<and> l_prev L b = a"
| "chain L a (x # xs) b \<longleftrightarrow> l_next L a = x \<and> l_prev L x = a \<and> chain L x xs b"

definition dll :: "'a links_scheme \<Rightarrow> u64 \<Rightarrow> u64 list \<Rightarrow> bool" where
  "dll L h xs \<longleftrightarrow> distinct (h # xs) \<and> chain L h xs h"

lemma chain_append [simp]:
  "chain L a (xs @ y # ys) b \<longleftrightarrow> chain L a xs y \<and> chain L y ys b"
  by (induction xs arbitrary: a) auto

lemma chain_next_other:
  "u \<notin> insert a (set xs) \<Longrightarrow> chain (L\<lparr>l_next := (l_next L)(u := v)\<rparr>) a xs b = chain L a xs b"
  by (induction xs arbitrary: a) auto

lemma chain_prev_other:
  "u \<notin> insert b (set xs) \<Longrightarrow> chain (L\<lparr>l_prev := (l_prev L)(u := v)\<rparr>) a xs b = chain L a xs b"
  by (induction xs arbitrary: a) auto

text \<open>A chain only reads the forward links of its sources and the backward links of its targets.\<close>

lemma chain_cong:
  assumes "\<And>u. u \<in> insert a (set xs) \<Longrightarrow> l_next L u = l_next L' u"
    and "\<And>u. u \<in> insert b (set xs) \<Longrightarrow> l_prev L u = l_prev L' u"
  shows "chain L a xs b = chain L' a xs b"
  using assms by (induction xs arbitrary: a) auto

lemma chain_last:
  "chain L a xs b \<Longrightarrow> l_prev L b = last (a # xs)"
  by (induction xs arbitrary: a) auto

lemma chain_first:
  "chain L a xs b \<Longrightarrow> l_next L a = hd (xs @ [b])"
  by (cases xs) auto

lemma dll_empty_iff: "dll L h xs \<Longrightarrow> l_next L h = h \<longleftrightarrow> xs = []"
  by (cases xs) (auto simp: dll_def)

lemma dll_next: "dll L h (xs @ y # ys) \<Longrightarrow> l_next L y = hd (ys @ [h])"
  by (auto simp: dll_def dest: chain_first)

lemma dll_prev: "dll L h (xs @ y # ys) \<Longrightarrow> l_prev L y = last (h # xs)"
  by (auto simp: dll_def dest: chain_last)

lemma dll_last: "dll L h xs \<Longrightarrow> l_prev L h = last (h # xs)"
  by (auto simp: dll_def dest: chain_last)

text \<open>The list a head carries is determined by the links.\<close>

lemma chain_unique:
  assumes "chain L a xs h" and "chain L a ys h" and "h \<notin> set xs" and "h \<notin> set ys"
  shows "xs = ys"
  using assms
proof (induction xs arbitrary: a ys)
  case Nil
  then show ?case by (cases ys) auto
next
  case (Cons x xs)
  then show ?case by (cases ys) auto
qed

lemma dll_unique: "dll L h xs \<Longrightarrow> dll L h ys \<Longrightarrow> xs = ys"
  by (rule chain_unique) (auto simp: dll_def)

subsection \<open>Each operation as an operation on the carried list\<close>

lemma list_init_dll: "dll (list_init h L) h []"
  by (simp add: dll_def list_init_def)

lemma list_add_between_links:
  assumes "new_node \<noteq> prv" and "new_node \<noteq> nxt"
  shows "l_next (list_add_between new_node prv nxt L) = (l_next L)(new_node := nxt, prv := new_node)"
    and "l_prev (list_add_between new_node prv nxt L) = (l_prev L)(nxt := new_node, new_node := prv)"
  using assms by (auto simp: list_add_between_def Let_def fun_upd_twist)

lemma list_add_between_dll:
  assumes d: "dll L h (xs @ ys)" and new: "new_node \<notin> set (h # xs @ ys)"
    and p: "p = last (h # xs)" and n: "n = hd (ys @ [h])"
  shows "dll (list_add_between new_node p n L) h (xs @ new_node # ys)"
proof -
  let ?L = "list_add_between new_node p n L"
  have pn: "p \<in> set (h # xs)" "n \<in> set (h # ys)"
    using last_in_set [of "h # xs"] hd_in_set [of "ys @ [h]"] by (auto simp: p n)
  with new have ne: "new_node \<noteq> p" "new_node \<noteq> n" by auto
  note links = list_add_between_links [OF ne, of L]
  have front: "chain ?L h xs new_node"
  proof (cases xs rule: rev_cases)
    case Nil
    with p ne links show ?thesis by simp
  next
    case (snoc xs' x)
    then have "p = x" and "chain L h xs' x" using p d by (auto simp: dll_def)
    moreover have "chain ?L h xs' x = chain L h xs' x"
    proof (rule chain_cong)
      have "p \<notin> set (h # xs')" "n \<notin> set xs" using \<open>p = x\<close> snoc d pn by (auto simp: dll_def)
      then show "\<And>u. u \<in> insert h (set xs') \<Longrightarrow> l_next ?L u = l_next L u"
        and "\<And>u. u \<in> insert x (set xs') \<Longrightarrow> l_prev ?L u = l_prev L u"
        using new snoc by (auto simp: links)
    qed
    ultimately show ?thesis using snoc ne links by auto
  qed
  have bk: "chain ?L new_node ys h"
  proof (cases ys)
    case Nil
    with n ne new links show ?thesis by simp
  next
    case (Cons y ys')
    then have "n = y" and "chain L y ys' h" using n d by (auto simp: dll_def)
    moreover have "chain ?L y ys' h = chain L y ys' h"
    proof (rule chain_cong)
      have "n \<notin> set (h # ys')" "p \<notin> set ys" using \<open>n = y\<close> Cons d pn by (auto simp: dll_def)
      then show "\<And>u. u \<in> insert y (set ys') \<Longrightarrow> l_next ?L u = l_next L u"
        and "\<And>u. u \<in> insert h (set ys') \<Longrightarrow> l_prev ?L u = l_prev L u"
        using new Cons by (auto simp: links)
    qed
    ultimately show ?thesis using Cons ne links by auto
  qed
  show ?thesis using front bk d new by (auto simp: dll_def)
qed

lemma list_add_before_dll:
  assumes "dll L h xs" and "new_node \<notin> set (h # xs)"
  shows "dll (list_add_before new_node h L) h (xs @ [new_node])"
  unfolding list_add_before_def
  using assms by (intro list_add_between_dll [where ys = "[]", simplified]) (auto simp: dll_last)

lemma list_add_after_head_dll:
  assumes "dll L h xs" and "new_node \<notin> set (h # xs)"
  shows "dll (list_add_after new_node h L) h (new_node # xs)"
  unfolding list_add_after_def
  using assms
  by (intro list_add_between_dll [where xs = "[]", simplified]) (auto simp: dll_def dest: chain_first)

lemma list_add_after_node_dll:
  assumes "dll L h (xs @ y # ys)" and "new_node \<notin> set (h # xs @ y # ys)"
  shows "dll (list_add_after new_node y L) h (xs @ y # new_node # ys)"
  unfolding list_add_after_def
  using assms list_add_between_dll [where xs = "xs @ [y]" and ys = ys and L = L and h = h]
  by (auto simp: dll_next)

lemma list_del_links:
  assumes "l_next L x \<noteq> x" and "l_prev L x \<noteq> x"
  shows "l_next (list_del x L) = (l_next L)(l_prev L x := l_next L x, x := x)"
    and "l_prev (list_del x L) = (l_prev L)(l_next L x := l_prev L x, x := x)"
  using assms by (auto simp: list_del_def Let_def)

lemma list_del_dll:
  assumes d: "dll L h (xs @ x # ys)"
  shows "dll (list_del x L) h (xs @ ys)"
    and "l_next (list_del x L) x = x" and "l_prev (list_del x L) x = x"
proof -
  let ?L = "list_del x L"
  let ?p = "last (h # xs)" and ?n = "hd (ys @ [h])"
  have pn: "?p \<in> set (h # xs)" "?n \<in> set (h # ys)"
    using last_in_set [of "h # xs"] hd_in_set [of "ys @ [h]"] by auto
  have np: "l_next L x = ?n" "l_prev L x = ?p"
    using dll_next [OF d] dll_prev [OF d] by auto
  have ne: "?n \<noteq> x" "?p \<noteq> x" using pn d unfolding dll_def by auto
  have links: "l_next ?L = (l_next L)(?p := ?n, x := x)" "l_prev ?L = (l_prev L)(?n := ?p, x := x)"
    using list_del_links [of L x] ne unfolding np by auto
  show "l_next ?L x = x" "l_prev ?L x = x" by (simp_all add: links)
  have "chain ?L h (xs @ ys) h"
  proof (cases ys)
    case Nil
    show ?thesis
    proof (cases xs rule: rev_cases)
      case Nil
      with \<open>ys = []\<close> ne show ?thesis by (auto simp: links)
    next
      case (snoc xs' p)
      have "chain ?L h xs' p = chain L h xs' p"
        using snoc Nil d by (intro chain_cong) (auto simp: links dll_def)
      with snoc Nil d ne show ?thesis by (auto simp: links dll_def)
    qed
  next
    case (Cons n ys')
    have bk: "chain ?L n ys' h = chain L n ys' h"
    proof (rule chain_cong)
      have "?n = n" "?p \<notin> set ys" "h \<noteq> n" "n \<notin> set ys'" "x \<notin> set (h # ys)"
        using Cons d pn(1) by (auto simp: dll_def)
      then show "\<And>u. u \<in> insert n (set ys') \<Longrightarrow> l_next ?L u = l_next L u"
        and "\<And>u. u \<in> insert h (set ys') \<Longrightarrow> l_prev ?L u = l_prev L u"
        unfolding links using Cons by auto
    qed
    show ?thesis
    proof (cases xs rule: rev_cases)
      case Nil
      with Cons d ne bk show ?thesis by (auto simp: links dll_def)
    next
      case (snoc xs' p)
      have "chain ?L h xs' p = chain L h xs' p"
        using snoc Cons d by (intro chain_cong) (auto simp: links dll_def)
      with snoc Cons d ne bk show ?thesis by (auto simp: links dll_def)
    qed
  qed
  with d show "dll ?L h (xs @ ys)" by (auto simp: dll_def)
qed

subsection \<open>Other lists are left alone\<close>

lemma dll_cong:
  assumes "\<And>u. u \<in> set (h # xs) \<Longrightarrow> l_next L u = l_next L' u \<and> l_prev L u = l_prev L' u"
  shows "dll L h xs = dll L' h xs"
  unfolding dll_def using chain_cong [of h xs L L' h] assms by auto

lemma list_add_between_frame:
  assumes "dll L k zs" and "new_node \<notin> set (k # zs)" and "p \<notin> set (k # zs)" and "n \<notin> set (k # zs)"
  shows "dll (list_add_between new_node p n L) k zs"
proof -
  have "dll (list_add_between new_node p n L) k zs = dll L k zs"
    using assms(2-4) by (intro dll_cong) (auto simp: list_add_between_def Let_def)
  with assms(1) show ?thesis by simp
qed

lemma list_add_before_frame:
  assumes "dll L h xs" and "dll L k zs" and "set (k # zs) \<inter> set (new_node # h # xs) = {}"
  shows "dll (list_add_before new_node h L) k zs"
  unfolding list_add_before_def
  using assms last_in_set [of "h # xs"]
  by (intro list_add_between_frame) (auto simp: dll_last split: if_splits)

lemma list_del_other:
  assumes "u \<noteq> x" and "u \<noteq> l_next L x" and "u \<noteq> l_prev L x"
  shows "l_next (list_del x L) u = l_next L u" and "l_prev (list_del x L) u = l_prev L u"
  using assms by (auto simp: list_del_def Let_def)

lemma list_del_frame:
  assumes d: "dll L h (xs @ x # ys)" and k: "dll L k zs"
    and dis: "set (k # zs) \<inter> set (h # xs @ x # ys) = {}"
  shows "dll (list_del x L) k zs"
proof -
  have in1: "l_next L x \<in> set (h # ys)" and in2: "l_prev L x \<in> set (h # xs)"
    using dll_next [OF d] dll_prev [OF d] hd_in_set [of "ys @ [h]"] last_in_set [of "h # xs"] by auto
  have "\<And>u. u \<in> set (k # zs) \<Longrightarrow> u \<noteq> x \<and> u \<noteq> l_next L x \<and> u \<noteq> l_prev L x"
    using in1 in2 dis by auto
  then have "dll (list_del x L) k zs = dll L k zs"
    by (intro dll_cong) (simp add: list_del_other)
  with k show ?thesis by simp
qed

subsection \<open>The queue contract\<close>

text \<open>
  What the scheduler uses of a list: test for emptiness, look at the front, take the front away
  and append at the back. \<open>repr s xs\<close> relates the state to the queue's contents, \<open>fit n\<close> says that
  a node may be queued at all. Taking the front and appending it again, \<open>k\<close> times, rotates the
  queue by \<open>k\<close>: the round-robin law.
\<close>

locale node_queue =
  fixes enq :: "'n \<Rightarrow> 's \<Rightarrow> 's"
    and deq :: "'s \<Rightarrow> 's"
    and front :: "'s \<Rightarrow> 'n"
    and is_empty :: "'s \<Rightarrow> bool"
    and repr :: "'s \<Rightarrow> 'n list \<Rightarrow> bool"
    and fit :: "'n \<Rightarrow> bool"
  assumes repr_empty: "repr s xs \<Longrightarrow> is_empty s = (xs = [])"
    and repr_front: "repr s (x # xs) \<Longrightarrow> front s = x"
    and repr_deq: "repr s (x # xs) \<Longrightarrow> repr (deq s) xs"
    and repr_enq: "repr s xs \<Longrightarrow> n \<notin> set xs \<Longrightarrow> fit n \<Longrightarrow> repr (enq n s) (xs @ [n])"
    and repr_distinct: "repr s xs \<Longrightarrow> distinct xs"
    and repr_fit: "repr s xs \<Longrightarrow> x \<in> set xs \<Longrightarrow> fit x"
begin

lemma requeue_front:
  assumes "repr s (x # xs)"
  shows "repr (enq (front s) (deq s)) (xs @ [x])"
proof -
  from repr_distinct [OF assms] have "x \<notin> set xs" by simp
  moreover have "fit x" using repr_fit [OF assms] by simp
  ultimately show ?thesis
    using repr_enq [OF repr_deq [OF assms]] by (simp add: repr_front [OF assms])
qed

lemma rotation:
  assumes "repr s xs" and "xs \<noteq> []"
  shows "repr (((\<lambda>t. enq (front t) (deq t)) ^^ k) s) (rotate k xs)"
proof (induction k)
  case 0
  show ?case using assms by simp
next
  case (Suc k)
  from assms(2) obtain y ys where "rotate k xs = y # ys" by (cases "rotate k xs") auto
  with Suc have "repr (enq (front ((((\<lambda>t. enq (front t) (deq t)) ^^ k) s)))
      (deq (((\<lambda>t. enq (front t) (deq t)) ^^ k) s))) (ys @ [y])"
    by (intro requeue_front) simp
  then show ?case using \<open>rotate k xs = y # ys\<close> by (simp add: rotate1_def)
qed

text \<open>Every queued node comes to the front, after as many turns as there are nodes before it.\<close>

lemma front_after:
  assumes "repr s xs" and "i < length xs"
  shows "front (((\<lambda>t. enq (front t) (deq t)) ^^ i) s) = xs ! i"
proof -
  from assms(2) have "xs \<noteq> []" by auto
  from rotation [OF assms(1) this, of i] have r: "repr (((\<lambda>t. enq (front t) (deq t)) ^^ i) s) (rotate i xs)" .
  obtain y ys where y: "rotate i xs = y # ys" using \<open>xs \<noteq> []\<close> by (cases "rotate i xs") auto
  have "y = xs ! i"
    using y nth_rotate [of 0 xs i] assms(2) by (simp add: \<open>xs \<noteq> []\<close>)
  then show ?thesis using repr_front r y by auto
qed

end

interpretation kq: node_queue "\<lambda>n. list_add_before n h" "\<lambda>L. list_del (l_next L h) L"
  "\<lambda>L. l_next L h" "\<lambda>L. l_next L h = h" "\<lambda>L. dll L h" "\<lambda>n. n \<noteq> h"
  for h :: u64
proof unfold_locales
  fix L :: "'a links_scheme" and x xs
  assume d: "dll L h (x # xs)"
  then show nx: "l_next L h = x" by (simp add: dll_def)
  show "dll (list_del (l_next L h) L) h xs"
    using list_del_dll(1) [of L h "[]" x xs] d by (simp add: nx)
qed (auto simp: dll_empty_iff list_add_before_dll, auto simp: dll_def)

subsection \<open>Properties\<close>

definition example_links :: links where
  "example_links = list_add_before 3 1 (list_add_before 2 1
     (list_init 1 \<lparr>l_next = (\<lambda>_. 0), l_prev = (\<lambda>_. 0)\<rparr>))"

lemma example_links_dll: "dll example_links 1 [2, 3]"
  by (simp add: example_links_def dll_def list_add_before_def list_add_between_def list_init_def Let_def)



text \<open>
  Deleting a node that was just appended restores the links of every other node, not only the
  carried sequence.
\<close>

theorem klist_insert_delete_roundtrip:
  assumes "dll L h xs" and "n \<notin> set (h # xs)"
  shows "dll (list_del n (list_add_before n h L)) h xs \<and>
    (\<forall>u. u \<noteq> n \<longrightarrow> l_next (list_del n (list_add_before n h L)) u = l_next L u
       \<and> l_prev (list_del n (list_add_before n h L)) u = l_prev L u)"
proof -
  let ?p = "last (h # xs)" and ?L = "list_add_before n h L"
  have p: "l_prev L h = ?p" "l_next L ?p = h"
    using assms(1) dll_next [of L h "butlast xs" "last xs" "[]"]
    by (auto simp: dll_last dll_empty_iff)
  have ne: "n \<noteq> ?p" "n \<noteq> h" using assms(2) last_in_set [of xs] by auto
  have links: "l_next ?L = (l_next L)(n := h, ?p := n)" "l_prev ?L = (l_prev L)(h := n, n := ?p)"
    unfolding list_add_before_def p(1) using list_add_between_links [OF ne] by auto
  have "l_next ?L n = h" "l_prev ?L n = ?p" using ne by (simp_all add: links)
  then have "l_next (list_del n ?L) = (l_next L)(n := n)" "l_prev (list_del n ?L) = (l_prev L)(n := n)"
    using list_del_links [of ?L n] ne p unfolding links by auto
  moreover have "dll (list_del n ?L) h xs"
    using list_del_dll(1) [of ?L h xs n "[]"] list_add_before_dll [OF assms] by simp
  ultimately show ?thesis by simp
qed

theorem klist_insert_delete_roundtrip_witness:
  "dll (list_del 7 (list_add_before 7 1 example_links)) 1 [2, 3]"
  using klist_insert_delete_roundtrip [OF example_links_dll, of 7] by simp

text \<open>
  The ready queue is round robin. Taking the front of the queue and appending it again, as a
  time slice expires, brings every queued node to the front after exactly as many turns as there
  are nodes before it, and \<open>k\<close> turns rotate the queue by \<open>k\<close>.
\<close>

theorem ready_queue_round_robin:
  assumes "dll L h xs" and "i < length xs"
  defines "turn \<equiv> \<lambda>t. list_add_before (l_next t h) h (list_del (l_next t h) t)"
  shows "l_next ((turn ^^ i) L) h = xs ! i \<and> dll ((turn ^^ k) L) h (rotate k xs)"
proof -
  from assms(2) have "xs \<noteq> []" by auto
  then show ?thesis unfolding turn_def using kq.front_after kq.rotation assms(1,2) by blast
qed

theorem ready_queue_round_robin_witness:
  "l_next (((\<lambda>t. list_add_before (l_next t 1) 1 (list_del (l_next t 1) t)) ^^ 1) example_links) 1 = 3"
  using ready_queue_round_robin [OF example_links_dll, of 1 0] by simp

end
