(* ===== verification/Pmm.thy ===== *)
theory Pmm
  imports KList
begin

text \<open>
  The physical memory manager of \<^verbatim>\<open>mm/pmm.c\<close>: one bit per physical page frame (1 = in use), a
  next-fit cursor and a counter of free pages. The kernel's global variables form one record that
  grows by a layer per C file; this layer holds the variables of \<^verbatim>\<open>pmm.c\<close>. \<open>bitmap s i\<close> is the byte
  \<^verbatim>\<open>bitmap[i]\<close> behind the pointer \<open>bitmap_va\<close>. The abstraction is the set \<open>free_frames\<close>; the locale
  \<open>frame_allocator\<close> is what page tables, heap and kernel stacks rely on.
\<close>

record pmm = links +
  bitmap :: "u64 \<Rightarrow> u8"
  bitmap_va :: u64
  bitmap_size :: u64
  total_pages :: u64
  free_pages :: u64
  last_free_index :: u64

definition bit_set :: "u64 \<Rightarrow> 'a pmm_scheme \<Rightarrow> 'a pmm_scheme" where
  "bit_set b s = s\<lparr>bitmap := (bitmap s)(b div 8 := bitmap s (b div 8) OR push_bit (unat (b mod 8)) 1)\<rparr>"

definition bit_unset :: "u64 \<Rightarrow> 'a pmm_scheme \<Rightarrow> 'a pmm_scheme" where
  "bit_unset b s =
     s\<lparr>bitmap := (bitmap s)(b div 8 := bitmap s (b div 8) AND NOT (push_bit (unat (b mod 8)) 1))\<rparr>"

definition bit_test :: "'a pmm_scheme \<Rightarrow> u64 \<Rightarrow> bool" where
  "bit_test s b \<longleftrightarrow> bitmap s (b div 8) AND push_bit (unat (b mod 8)) 1 \<noteq> 0"

subsection \<open>Marking ranges\<close>

function pmm_set_free_loop :: "u64 \<Rightarrow> u64 \<Rightarrow> u64 \<Rightarrow> 'a pmm_scheme \<Rightarrow> 'a pmm_scheme" where
  "pmm_set_free_loop pgidx pgnum i s =
     (if i < pgnum
      then pmm_set_free_loop pgidx pgnum (i + 1)
        (if bit_test s (pgidx + i)
         then (bit_unset (pgidx + i) s)\<lparr>free_pages := free_pages s + 1\<rparr>
         else s)
      else s)"
  by pat_completeness auto
termination
  by (relation "measure (\<lambda>(pgidx, pgnum, i, s). unat (pgnum - i))") (auto simp: loop_measure_decreases)

definition pmm_set_free :: "u64 \<Rightarrow> u64 \<Rightarrow> 'a pmm_scheme \<Rightarrow> 'a pmm_scheme" where
  "pmm_set_free pa pgnum s =
     (let pgidx = pa2pgidx pa
      in if pgidx + pgnum \<ge> total_pages s then s else pmm_set_free_loop pgidx pgnum 0 s)"

function pmm_set_busy_loop :: "u64 \<Rightarrow> u64 \<Rightarrow> u64 \<Rightarrow> 'a pmm_scheme \<Rightarrow> 'a pmm_scheme" where
  "pmm_set_busy_loop pgidx pgnum i s =
     (if i < pgnum
      then pmm_set_busy_loop pgidx pgnum (i + 1)
        (if \<not> bit_test s (pgidx + i)
         then (bit_set (pgidx + i) s)\<lparr>free_pages := free_pages s - 1\<rparr>
         else s)
      else s)"
  by pat_completeness auto
termination
  by (relation "measure (\<lambda>(pgidx, pgnum, i, s). unat (pgnum - i))") (auto simp: loop_measure_decreases)

definition pmm_set_busy :: "u64 \<Rightarrow> u64 \<Rightarrow> 'a pmm_scheme \<Rightarrow> 'a pmm_scheme" where
  "pmm_set_busy pa pgnum s =
     (let pgidx = pa2pgidx pa
      in if pgidx + pgnum \<ge> total_pages s then s else pmm_set_busy_loop pgidx pgnum 0 s)"

subsection \<open>Allocating and freeing one page\<close>

text \<open>The two search loops of \<^verbatim>\<open>pmm_alloc_page\<close>: the first clear bit of a range.\<close>

function scan_free :: "'a pmm_scheme \<Rightarrow> u64 \<Rightarrow> u64 \<Rightarrow> u64 option" where
  "scan_free s i n =
     (if i < n then if \<not> bit_test s i then Some i else scan_free s (i + 1) n else None)"
  by pat_completeness auto
termination
  by (relation "measure (\<lambda>(s, i, n). unat (n - i))") (auto simp: loop_measure_decreases)

declare pmm_set_free_loop.simps [simp del] pmm_set_busy_loop.simps [simp del] scan_free.simps [simp del]

definition pmm_take :: "u64 \<Rightarrow> 'a pmm_scheme \<Rightarrow> u64 \<times> 'a pmm_scheme" where
  "pmm_take i s =
     (pgidx2pa i, (bit_set i s)\<lparr>free_pages := free_pages s - 1, last_free_index := i + 1\<rparr>)"

definition pmm_alloc_page :: "'a pmm_scheme \<Rightarrow> u64 \<times> 'a pmm_scheme" where
  "pmm_alloc_page s =
     (if free_pages s = 0 then (0, s)
      else case scan_free s (last_free_index s) (total_pages s) of
        Some i \<Rightarrow> pmm_take i s
      | None \<Rightarrow>
          (case scan_free s 0 (last_free_index s) of
             Some i \<Rightarrow> pmm_take i s
           | None \<Rightarrow> (0, s)))"

definition pmm_free_page :: "u64 \<Rightarrow> 'a pmm_scheme \<Rightarrow> 'a pmm_scheme" where
  "pmm_free_page pa s =
     (let pgidx = pa2pgidx pa
      in if pgidx \<ge> total_pages s then s
         else if \<not> bit_test s pgidx then s
         else let s1 = (bit_unset pgidx s)\<lparr>free_pages := free_pages s + 1\<rparr>
              in if pgidx < last_free_index s1 then s1\<lparr>last_free_index := pgidx\<rparr> else s1)"

subsection \<open>Initialisation from the boot loader's memory map\<close>

record limine_memmap_entry =
  me_base :: u64
  me_length :: u64
  me_type :: u64

abbreviation (input) LIMINE_MEMMAP_USABLE :: u64 where
  "LIMINE_MEMMAP_USABLE \<equiv> 0"

fun highest_pa :: "limine_memmap_entry list \<Rightarrow> u64 \<Rightarrow> u64" where
  "highest_pa [] h = h"
| "highest_pa (e # es) h =
     (let end_addr = me_base e + me_length e in highest_pa es (if end_addr > h then end_addr else h))"

definition bitmap_bytes :: "u64 \<Rightarrow> u64" where
  "bitmap_bytes npages = npages div 8 + (if npages mod 8 \<noteq> 0 then 1 else 0)"

definition bitmap_pages_for :: "u64 \<Rightarrow> u64" where
  "bitmap_pages_for bsize = ALIGN_UP bsize PAGE_SIZE div PAGE_SIZE"

text \<open>The search for a region that can hold the bitmap; 0 when there is none.\<close>

fun find_bitmap_pa :: "limine_memmap_entry list \<Rightarrow> u64 \<Rightarrow> u64" where
  "find_bitmap_pa [] bsize = 0"
| "find_bitmap_pa (e # es) bsize =
     (if me_type e = LIMINE_MEMMAP_USABLE \<and> me_length e \<ge> bsize
         \<and> me_length e \<ge> bitmap_pages_for bsize * PAGE_SIZE
      then me_base e else find_bitmap_pa es bsize)"

fun free_usable :: "limine_memmap_entry list \<Rightarrow> 'a pmm_scheme \<Rightarrow> 'a pmm_scheme" where
  "free_usable [] s = s"
| "free_usable (e # es) s =
     (if me_type e = LIMINE_MEMMAP_USABLE then
        (let start = ALIGN_UP (me_base e) PAGE_SIZE;
             end_addr = ALIGN_DOWN (me_base e + me_length e) PAGE_SIZE
         in if start \<ge> end_addr then free_usable es s
            else free_usable es (pmm_set_free start ((end_addr - start) div PAGE_SIZE) s))
      else free_usable es s)"

text \<open>\<open>None\<close> is the halt loop entered when no region can hold the bitmap.\<close>

definition pmm_init :: "u64 \<Rightarrow> limine_memmap_entry list \<Rightarrow> 'a pmm_scheme \<Rightarrow> 'a pmm_scheme option" where
  "pmm_init hhdm mmap s =
     (let npages = highest_pa mmap 0 div PAGE_SIZE;
          bsize = bitmap_bytes npages;
          bitmap_pa = find_bitmap_pa mmap bsize
      in if bitmap_pa = 0 then None
         else
           let s1 = s\<lparr>total_pages := npages, bitmap_size := bsize, bitmap_va := bitmap_pa + hhdm,
                     bitmap := (\<lambda>i. if i < bsize then 0xFF else bitmap s i)\<rparr>;
               s2 = free_usable mmap s1;
               s3 = pmm_set_busy bitmap_pa (bitmap_pages_for bsize) s2
           in Some (pmm_set_busy 0 1 s3))"

subsection \<open>The bit operations\<close>

lemma bit_test_iff: "bit_test s b \<longleftrightarrow> bit (bitmap s (b div 8)) (unat (b mod 8))"
  by (simp add: bit_test_def bit_iff_and_push_bit_not_eq_0)

lemma bit_index_less: "unat (b mod 8 :: u64) < 8"
  by (simp add: unat_mod)

lemma bit_position_eq_iff:
  fixes b c :: u64
  shows "b div 8 = c div 8 \<and> unat (b mod 8) = unat (c mod 8) \<longleftrightarrow> b = c"
proof
  assume h: "b div 8 = c div 8 \<and> unat (b mod 8) = unat (c mod 8)"
  then have "unat b div 8 = unat c div 8" using unat_div [of b 8] unat_div [of c 8] by simp
  moreover from h have "unat b mod 8 = unat c mod 8" by (simp add: unat_mod)
  ultimately have "unat b = unat c" by (metis div_mult_mod_eq)
  then show "b = c" by (rule unsigned_word_eqI)
qed simp

lemma bit_test_bit_set [simp]: "bit_test (bit_set b s) c \<longleftrightarrow> b = c \<or> bit_test s c"
  using bit_position_eq_iff [of b c] bit_index_less [of b]
  by (auto simp: bit_test_iff bit_set_def bit_simps)

lemma bit_test_bit_unset [simp]: "bit_test (bit_unset b s) c \<longleftrightarrow> b \<noteq> c \<and> bit_test s c"
  using bit_position_eq_iff [of b c] bit_index_less [of b] bit_index_less [of c]
  by (auto simp: bit_test_iff bit_unset_def bit_simps)

lemma bit_test_update [simp]:
  "bit_test (s\<lparr>free_pages := x\<rparr>) = bit_test s"
  "bit_test (s\<lparr>last_free_index := x\<rparr>) = bit_test s"
  by (simp_all add: bit_test_def fun_eq_iff)

lemma bit_ops_fields [simp]:
  "total_pages (bit_set b s) = total_pages s" "free_pages (bit_set b s) = free_pages s"
  "last_free_index (bit_set b s) = last_free_index s" "pmm.more (bit_set b s) = pmm.more s"
  "total_pages (bit_unset b s) = total_pages s" "free_pages (bit_unset b s) = free_pages s"
  "last_free_index (bit_unset b s) = last_free_index s" "pmm.more (bit_unset b s) = pmm.more s"
  by (simp_all add: bit_set_def bit_unset_def)

subsection \<open>The set of free frames and the invariant\<close>

definition free_frames :: "'a pmm_scheme \<Rightarrow> u64 set" where
  "free_frames s = {i. i < total_pages s \<and> \<not> bit_test s i}"

text \<open>
  The counter counts the free frames, the cursor stays inside the bitmap, every frame has an
  address below \<open>2 ^ 64\<close>, and frame 0 is never free (address 0 is the failure value).
\<close>

definition pmm_inv :: "'a pmm_scheme \<Rightarrow> bool" where
  "pmm_inv s \<longleftrightarrow> unat (free_pages s) = card (free_frames s)
     \<and> last_free_index s \<le> total_pages s \<and> unat (total_pages s) \<le> 2 ^ 52 \<and> 0 \<notin> free_frames s"

lemma finite_free_frames [simp]: "finite (free_frames s)"
  by (rule finite)

lemma card_frames_below: "card {i :: u64. i < n} \<le> unat n"
proof -
  have "card {i. i < n} \<le> card {..<unat n}"
    by (rule card_inj_on_le [where f = unat]) (auto simp: word_less_nat_alt intro: inj_onI unsigned_word_eqI)
  then show ?thesis by simp
qed

lemma card_free_frames_le: "card (free_frames s) \<le> unat (total_pages s)"
proof -
  have "card (free_frames s) \<le> card {i. i < total_pages s}"
    by (rule card_mono) (auto simp: free_frames_def)
  with card_frames_below show ?thesis by (rule le_trans [rotated])
qed

lemma card_free_frames_less:
  assumes "i < total_pages s" and "bit_test s i"
  shows "card (free_frames s) < unat (total_pages s)"
proof -
  have "card (insert i (free_frames s)) \<le> card {i. i < total_pages s}"
    by (rule card_mono) (use assms in \<open>auto simp: free_frames_def\<close>)
  moreover have "i \<notin> free_frames s" using assms by (simp add: free_frames_def)
  ultimately show ?thesis using card_frames_below [of "total_pages s"] by simp
qed

lemma free_frames_updates [simp]:
  "free_frames (s\<lparr>free_pages := x\<rparr>) = free_frames s"
  "free_frames (s\<lparr>last_free_index := y\<rparr>) = free_frames s"
  "free_frames (bit_set b s) = free_frames s - {b}"
  "b < total_pages s \<Longrightarrow> free_frames (bit_unset b s) = insert b (free_frames s)"
  by (auto simp: free_frames_def)

subsection \<open>The search loop\<close>

lemma scan_free_Some:
  assumes "scan_free s i n = Some j"
  shows "i \<le> j \<and> j < n \<and> \<not> bit_test s j \<and> (\<forall>k. i \<le> k \<and> k < j \<longrightarrow> bit_test s k)"
  using assms
proof (induction s i n rule: scan_free.induct)
  case (1 s i n)
  show ?case
  proof (cases "i < n \<and> bit_test s i")
    case True
    with "1.prems" have "scan_free s (i + 1) n = Some j" by (simp add: scan_free.simps [of s i])
    with "1.IH" True have ih: "i + 1 \<le> j \<and> j < n \<and> \<not> bit_test s j
        \<and> (\<forall>k. i + 1 \<le> k \<and> k < j \<longrightarrow> bit_test s k)" by blast
    then show ?thesis using True by (auto simp: word_le_step [of i n])
  next
    case False
    with "1.prems" show ?thesis by (auto simp: scan_free.simps [of s i] split: if_splits)
  qed
qed

lemma scan_free_None: "scan_free s i n = None \<longleftrightarrow> (\<forall>k. i \<le> k \<and> k < n \<longrightarrow> bit_test s k)"
proof (induction s i n rule: scan_free.induct)
  case (1 s i n)
  show ?case
  proof (cases "i < n \<and> bit_test s i")
    case True
    with "1.IH" show ?thesis by (auto simp: scan_free.simps [of s i] word_le_step [of i n])
  next
    case False
    then show ?thesis by (auto simp: scan_free.simps [of s i])
  qed
qed

subsection \<open>Frame numbers and addresses\<close>

lemma unat_pgidx2pa:
  assumes "i < n" and "unat n \<le> 2 ^ 52"
  shows "unat (pgidx2pa i) = unat i * 4096"
  using unat_less_2p52_mult [OF assms] by (simp add: pgidx2pa_def unat_simps)

lemma pa2pgidx_pgidx2pa [simp]:
  assumes "i < n" and "unat n \<le> 2 ^ 52"
  shows "pa2pgidx (pgidx2pa i) = i"
proof (rule unsigned_word_eqI)
  show "unat (pa2pgidx (pgidx2pa i)) = unat i"
    using unat_pgidx2pa [OF assms] by (simp add: pa2pgidx_def unat_div)
qed

lemma pgidx2pa_eq_0_iff:
  assumes "i < n" and "unat n \<le> 2 ^ 52"
  shows "pgidx2pa i = 0 \<longleftrightarrow> i = 0"
  using unat_pgidx2pa [OF assms] by (auto simp: pgidx2pa_def) (metis unat_eq_zero mult_eq_0_iff zero_neq_numeral)

lemma pgidx2pa_inj:
  assumes "i < n" and "j < n" and "unat n \<le> 2 ^ 52"
  shows "pgidx2pa i = pgidx2pa j \<longleftrightarrow> i = j"
  using pa2pgidx_pgidx2pa [OF assms(1,3)] pa2pgidx_pgidx2pa [OF assms(2,3)] by metis

subsection \<open>Allocation and release\<close>

text \<open>
  Next fit: the frame taken is the first free one at or after the cursor and, when there is none,
  the first free one at all.
\<close>

definition next_fit :: "'a pmm_scheme \<Rightarrow> u64 \<Rightarrow> bool" where
  "next_fit s i \<longleftrightarrow> i \<in> free_frames s \<and>
     (if \<exists>k \<in> free_frames s. last_free_index s \<le> k
      then last_free_index s \<le> i \<and> (\<forall>k \<in> free_frames s. last_free_index s \<le> k \<longrightarrow> i \<le> k)
      else \<forall>k \<in> free_frames s. i \<le> k)"

lemma next_fit_unique: "next_fit s i \<Longrightarrow> next_fit s j \<Longrightarrow> i = j"
  by (auto simp: next_fit_def split: if_splits intro: order_antisym)

lemma free_pages_zero_iff: "pmm_inv s \<Longrightarrow> free_pages s = 0 \<longleftrightarrow> free_frames s = {}"
  by (auto simp: pmm_inv_def) (metis card_eq_0_iff finite_free_frames unat_eq_zero unsigned_0)+

lemma pmm_alloc_page_fail:
  "pmm_inv s \<Longrightarrow> free_frames s = {} \<Longrightarrow> pmm_alloc_page s = (0, s)"
  by (simp add: pmm_alloc_page_def free_pages_zero_iff)

lemma pmm_alloc_page_take:
  assumes inv: "pmm_inv s" and ne: "free_frames s \<noteq> {}"
  shows "\<exists>i. next_fit s i \<and> pmm_alloc_page s = pmm_take i s"
proof (cases "scan_free s (last_free_index s) (total_pages s)")
  case (Some i)
  from scan_free_Some [OF Some] have "next_fit s i"
    unfolding next_fit_def free_frames_def by (auto simp: not_less [symmetric])
  then show ?thesis using Some inv ne
    by (auto simp: pmm_alloc_page_def free_pages_zero_iff)
next
  case None
  then have busy: "\<forall>k \<in> free_frames s. \<not> last_free_index s \<le> k"
    unfolding scan_free_None free_frames_def by blast
  have "scan_free s 0 (last_free_index s) \<noteq> None"
    using ne busy by (auto simp: scan_free_None free_frames_def not_le)
  then obtain i where i: "scan_free s 0 (last_free_index s) = Some i" by blast
  from scan_free_Some [OF i] inv busy have "next_fit s i"
    unfolding next_fit_def free_frames_def pmm_inv_def by (auto simp: not_less [symmetric])
  then show ?thesis using None i inv ne
    by (auto simp: pmm_alloc_page_def free_pages_zero_iff)
qed

lemma pmm_take_simps [simp]:
  "fst (pmm_take i s) = pgidx2pa i"
  "free_frames (snd (pmm_take i s)) = free_frames s - {i}"
  "total_pages (snd (pmm_take i s)) = total_pages s"
  "free_pages (snd (pmm_take i s)) = free_pages s - 1"
  "last_free_index (snd (pmm_take i s)) = i + 1"
  "pmm.more (snd (pmm_take i s)) = pmm.more s"
  by (simp_all add: pmm_take_def)

lemma free_framesD:
  assumes "pmm_inv s" and "i \<in> free_frames s"
  shows "i < total_pages s" and "i \<noteq> 0" and "pgidx2pa i \<noteq> 0"
    and "unat (pgidx2pa i) = unat i * 4096"
proof -
  from assms show "i < total_pages s" "i \<noteq> 0" by (auto simp: pmm_inv_def free_frames_def)
  moreover have "unat (total_pages s) \<le> 2 ^ 52" using assms by (simp add: pmm_inv_def)
  ultimately show "pgidx2pa i \<noteq> 0" "unat (pgidx2pa i) = unat i * 4096"
    using pgidx2pa_eq_0_iff unat_pgidx2pa by auto
qed

lemma pmm_take_inv:
  assumes inv: "pmm_inv s" and i: "i \<in> free_frames s"
  shows "pmm_inv (snd (pmm_take i s))"
proof -
  from i have pos: "card (free_frames s) > 0" using card_gt_0_iff by force
  with inv have "1 \<le> free_pages s" by (simp add: pmm_inv_def word_le_nat_alt)
  then have "unat (free_pages s - 1) = unat (free_pages s) - 1" by (simp add: unat_sub)
  moreover have "i + 1 \<le> total_pages s" using free_framesD(1) [OF inv i] by (rule inc_le)
  ultimately show ?thesis using inv i by (simp add: pmm_inv_def)
qed

lemma pmm_alloc_page_inv:
  assumes "pmm_inv s"
  shows "pmm_inv (snd (pmm_alloc_page s))"
proof (cases "free_frames s = {}")
  case True
  with assms show ?thesis by (simp add: pmm_alloc_page_fail)
next
  case False
  with assms obtain i where "next_fit s i" "pmm_alloc_page s = pmm_take i s"
    using pmm_alloc_page_take by blast
  with assms show ?thesis by (simp add: next_fit_def pmm_take_inv)
qed

lemma pmm_free_page_fields [simp]:
  "total_pages (pmm_free_page pa s) = total_pages s" "pmm.more (pmm_free_page pa s) = pmm.more s"
  by (simp_all add: pmm_free_page_def Let_def)

lemma pmm_alloc_page_fields [simp]:
  "total_pages (snd (pmm_alloc_page s)) = total_pages s" "pmm.more (snd (pmm_alloc_page s)) = pmm.more s"
  by (simp_all add: pmm_alloc_page_def split: option.split)

lemma free_frames_pmm_free_page:
  "free_frames (pmm_free_page pa s) =
     (if pa2pgidx pa < total_pages s then insert (pa2pgidx pa) (free_frames s) else free_frames s)"
  by (auto simp: pmm_free_page_def Let_def not_le not_less free_frames_def)

lemma pmm_free_page_inv:
  assumes inv: "pmm_inv s" and nz: "pa2pgidx pa \<noteq> 0"
  shows "pmm_inv (pmm_free_page pa s)"
proof (cases "pa2pgidx pa < total_pages s \<and> bit_test s (pa2pgidx pa)")
  case True
  let ?i = "pa2pgidx pa"
  have "card (free_frames s) < unat (total_pages s)" using card_free_frames_less True by blast
  then have "free_pages s < total_pages s" using inv by (simp add: pmm_inv_def word_less_nat_alt)
  then have "unat (free_pages s + 1) = unat (free_pages s) + 1" using unat_Suc_less by simp
  moreover have "?i \<notin> free_frames s" using True by (simp add: free_frames_def)
  ultimately show ?thesis using inv True nz
    by (auto simp: pmm_free_page_def Let_def pmm_inv_def)
next
  case False
  then have "pmm_free_page pa s = s" by (auto simp: pmm_free_page_def Let_def not_le)
  with inv show ?thesis by simp
qed

subsection \<open>The allocator's contract\<close>

text \<open>
  What the page tables, the kernel heap and the kernel stacks rely on: \<open>alloc\<close> hands out the
  address of a frame that was free and fails with 0 only when no frame is free; \<open>release\<close> makes a
  frame free again.
\<close>

locale frame_allocator =
  fixes alloc :: "'s \<Rightarrow> u64 \<times> 's"
    and release :: "u64 \<Rightarrow> 's \<Rightarrow> 's"
    and avail :: "'s \<Rightarrow> u64 set"
    and frames :: "'s \<Rightarrow> u64"
    and inv :: "'s \<Rightarrow> bool"
  assumes alloc_none: "inv s \<Longrightarrow> avail s = {} \<Longrightarrow> alloc s = (0, s)"
    and alloc_some: "inv s \<Longrightarrow> avail s \<noteq> {} \<Longrightarrow>
      \<exists>i \<in> avail s. fst (alloc s) = pgidx2pa i \<and> avail (snd (alloc s)) = avail s - {i}"
    and alloc_inv: "inv s \<Longrightarrow> inv (snd (alloc s))"
    and alloc_frames: "frames (snd (alloc s)) = frames s"
    and avail_frames: "inv s \<Longrightarrow> i \<in> avail s \<Longrightarrow> i < frames s \<and> i \<noteq> 0 \<and> unat (frames s) \<le> 2 ^ 52"
    and release_avail: "inv s \<Longrightarrow> pa2pgidx pa < frames s \<Longrightarrow>
      avail (release pa s) = insert (pa2pgidx pa) (avail s)"
    and release_inv: "inv s \<Longrightarrow> pa2pgidx pa \<noteq> 0 \<Longrightarrow> inv (release pa s)"
begin

lemma alloc_fresh:
  assumes "inv s" and "fst (alloc s) \<noteq> 0"
  shows "pa2pgidx (fst (alloc s)) \<in> avail s"
    and "avail (snd (alloc s)) = avail s - {pa2pgidx (fst (alloc s))}"
    and "unat (fst (alloc s)) = unat (pa2pgidx (fst (alloc s))) * 4096"
proof -
  have "avail s \<noteq> {}" using alloc_none [OF assms(1)] assms(2) by force
  from alloc_some [OF assms(1) this] obtain i where
    i: "i \<in> avail s" "fst (alloc s) = pgidx2pa i" "avail (snd (alloc s)) = avail s - {i}" by blast
  from avail_frames [OF assms(1) i(1)] have b: "i < frames s" "unat (frames s) \<le> 2 ^ 52" by auto
  have "pa2pgidx (pgidx2pa i) = i" using pa2pgidx_pgidx2pa b by blast
  with i unat_pgidx2pa [OF b] show "pa2pgidx (fst (alloc s)) \<in> avail s"
    "avail (snd (alloc s)) = avail s - {pa2pgidx (fst (alloc s))}"
    "unat (fst (alloc s)) = unat (pa2pgidx (fst (alloc s))) * 4096" by auto
qed

lemma alloc_zero_iff:
  assumes "inv s"
  shows "fst (alloc s) = 0 \<longleftrightarrow> avail s = {}"
proof (cases "avail s = {}")
  case True
  then show ?thesis using alloc_none [OF assms] by simp
next
  case False
  from alloc_some [OF assms False] obtain i where i: "i \<in> avail s" "fst (alloc s) = pgidx2pa i" by blast
  then show ?thesis using False avail_frames [OF assms i(1)] pgidx2pa_eq_0_iff by metis
qed

lemma alloc_release:
  assumes "inv s" and "fst (alloc s) \<noteq> 0"
  shows "avail (release (fst (alloc s)) (snd (alloc s))) = avail s"
proof -
  note f = alloc_fresh [OF assms]
  have "pa2pgidx (fst (alloc s)) < frames (snd (alloc s))"
    using avail_frames [OF assms(1) f(1)] by (simp add: alloc_frames)
  from release_avail [OF alloc_inv [OF assms(1)] this] show ?thesis using f(1,2) by auto
qed

lemma allocs_remaining:
  assumes "inv s"
  shows "inv (((\<lambda>t. snd (alloc t)) ^^ n) s) \<and> card (avail (((\<lambda>t. snd (alloc t)) ^^ n) s)) = card (avail s) - n"
proof (induction n)
  case 0
  show ?case using assms by simp
next
  case (Suc n)
  let ?t = "((\<lambda>t. snd (alloc t)) ^^ n) s"
  from Suc have inv: "inv ?t" by simp
  have "card (avail (snd (alloc ?t))) = card (avail ?t) - 1"
  proof (cases "avail ?t = {}")
    case True
    then show ?thesis using alloc_none [OF inv] by simp
  next
    case False
    then show ?thesis
      using alloc_fresh(1,2) [OF inv] alloc_zero_iff [OF inv] by (simp add: finite)
  qed
  with Suc alloc_inv [OF inv] show ?case by simp
qed

end

interpretation pm: frame_allocator pmm_alloc_page pmm_free_page free_frames total_pages pmm_inv
proof unfold_locales
  fix s :: "'a pmm_scheme" and i
  assume inv: "pmm_inv s"
  show "free_frames s \<noteq> {} \<Longrightarrow> \<exists>i\<in>free_frames s. fst (pmm_alloc_page s) = pgidx2pa i \<and>
      free_frames (snd (pmm_alloc_page s)) = free_frames s - {i}"
    using pmm_alloc_page_take [OF inv] by (auto simp: next_fit_def)
  show "i \<in> free_frames s \<Longrightarrow> i < total_pages s \<and> i \<noteq> 0 \<and> unat (total_pages s) \<le> 2 ^ 52"
    using inv free_framesD by (auto simp: pmm_inv_def)
qed (simp_all add: pmm_alloc_page_fail pmm_alloc_page_inv free_frames_pmm_free_page pmm_free_page_inv)

subsection \<open>Marking ranges of frames\<close>

definition page_range :: "u64 \<Rightarrow> u64 \<Rightarrow> u64 set" where
  "page_range pgidx pgnum = {p. unat pgidx \<le> unat p \<and> unat p < unat pgidx + unat pgnum}"

text \<open>The part of the invariant that already holds while the bitmap is being built.\<close>

definition pmm_count :: "'a pmm_scheme \<Rightarrow> bool" where
  "pmm_count s \<longleftrightarrow> unat (free_pages s) = card (free_frames s)"

lemma mark_free_step:
  assumes cnt: "pmm_count s" and p: "p < total_pages s"
  defines "s' \<equiv> if bit_test s p then (bit_unset p s)\<lparr>free_pages := free_pages s + 1\<rparr> else s"
  shows "free_frames s' = insert p (free_frames s)" and "pmm_count s'"
    and "total_pages s' = total_pages s" and "last_free_index s' = last_free_index s"
    and "pmm.more s' = pmm.more s"
proof -
  show f: "free_frames s' = insert p (free_frames s)" using p by (auto simp: s'_def free_frames_def)
  show "pmm_count s'"
  proof (cases "bit_test s p")
    case True
    then have "card (free_frames s) < unat (total_pages s)" "p \<notin> free_frames s"
      using card_free_frames_less [OF p] by (auto simp: free_frames_def)
    moreover from this cnt have "unat (free_pages s + 1) = Suc (unat (free_pages s))"
      by (intro unat_Suc_less [of _ "total_pages s"]) (simp add: pmm_count_def word_less_nat_alt)
    ultimately show ?thesis using cnt True f by (simp add: pmm_count_def s'_def)
  next
    case False
    then show ?thesis using cnt by (simp add: s'_def)
  qed
qed (simp_all add: s'_def)

lemma mark_busy_step:
  assumes cnt: "pmm_count s" and p: "p < total_pages s"
  defines "s' \<equiv> if \<not> bit_test s p then (bit_set p s)\<lparr>free_pages := free_pages s - 1\<rparr> else s"
  shows "free_frames s' = free_frames s - {p}" and "pmm_count s'"
    and "total_pages s' = total_pages s" and "last_free_index s' = last_free_index s"
    and "pmm.more s' = pmm.more s"
proof -
  show f: "free_frames s' = free_frames s - {p}" by (auto simp: s'_def free_frames_def)
  show "pmm_count s'"
  proof (cases "bit_test s p")
    case False
    then have "p \<in> free_frames s" using p by (simp add: free_frames_def)
    then have "0 < card (free_frames s)" using card_gt_0_iff by force
    then have "1 \<le> free_pages s" using cnt by (simp add: pmm_count_def word_le_nat_alt)
    then have "unat (free_pages s - 1) = unat (free_pages s) - 1" by (simp add: unat_sub)
    then show ?thesis using cnt False \<open>p \<in> free_frames s\<close> f by (simp add: pmm_count_def s'_def)
  next
    case True
    then show ?thesis using cnt by (simp add: s'_def)
  qed
qed (simp_all add: s'_def)

lemma range_head:
  fixes pgidx i pgnum :: u64
  assumes "i < pgnum" and "unat pgidx + unat pgnum < unat t"
  shows "pgidx + i < t" and "unat (pgidx + i) = unat pgidx + unat i"
    and "{p. unat pgidx + unat i \<le> unat p \<and> unat p < unat pgidx + unat pgnum}
       = insert (pgidx + i) {p. unat pgidx + unat (i + 1) \<le> unat p \<and> unat p < unat pgidx + unat pgnum}"
proof -
  from assms have lt: "unat i < unat pgnum" by (simp add: word_less_nat_alt)
  with assms have u: "unat pgidx + unat i < 2 ^ 64" using unat_lt_2p64 [of t] by simp
  then show e: "unat (pgidx + i) = unat pgidx + unat i" by (simp add: unat_simps)
  with lt assms show "pgidx + i < t" by (simp add: word_less_nat_alt)
  show "{p. unat pgidx + unat i \<le> unat p \<and> unat p < unat pgidx + unat pgnum}
      = insert (pgidx + i) {p. unat pgidx + unat (i + 1) \<le> unat p \<and> unat p < unat pgidx + unat pgnum}"
    using e lt unat_Suc_less [OF assms(1)] by (auto simp: word_unat_eq_iff)
qed

lemma pmm_set_free_loop_spec:
  fixes i :: u64 and s :: "'a pmm_scheme"
  assumes "pmm_count s" and "unat pgidx + unat pgnum < unat (total_pages s)"
  defines "s' \<equiv> pmm_set_free_loop pgidx pgnum i s"
  shows "free_frames s' = free_frames s \<union> {p. unat pgidx + unat i \<le> unat p \<and> unat p < unat pgidx + unat pgnum}
    \<and> pmm_count s' \<and> total_pages s' = total_pages s \<and> last_free_index s' = last_free_index s
    \<and> pmm.more s' = pmm.more s"
  using assms(1,2) unfolding s'_def
proof (induction pgidx pgnum i s rule: pmm_set_free_loop.induct)
  case (1 pgidx pgnum i s)
  show ?case
  proof (cases "i < pgnum")
    case True
    note h = range_head [OF True "1.prems"(2)]
    note m = mark_free_step [OF "1.prems"(1) h(1)]
    show ?thesis
      using "1.IH" [OF True] m "1.prems"(2) True h(3)
      by (simp add: pmm_set_free_loop.simps [of pgidx pgnum i s])
  next
    case False
    then show ?thesis using "1.prems"
      by (auto simp: pmm_set_free_loop.simps [of pgidx pgnum i s] word_less_nat_alt)
  qed
qed

lemma pmm_set_busy_loop_spec:
  fixes i :: u64 and s :: "'a pmm_scheme"
  assumes "pmm_count s" and "unat pgidx + unat pgnum < unat (total_pages s)"
  defines "s' \<equiv> pmm_set_busy_loop pgidx pgnum i s"
  shows "free_frames s' = free_frames s - {p. unat pgidx + unat i \<le> unat p \<and> unat p < unat pgidx + unat pgnum}
    \<and> pmm_count s' \<and> total_pages s' = total_pages s \<and> last_free_index s' = last_free_index s
    \<and> pmm.more s' = pmm.more s"
  using assms(1,2) unfolding s'_def
proof (induction pgidx pgnum i s rule: pmm_set_busy_loop.induct)
  case (1 pgidx pgnum i s)
  show ?case
  proof (cases "i < pgnum")
    case True
    note h = range_head [OF True "1.prems"(2)]
    note m = mark_busy_step [OF "1.prems"(1) h(1)]
    show ?thesis
      using "1.IH" [OF True] m "1.prems"(2) True h(3)
      by (auto simp: pmm_set_busy_loop.simps [of pgidx pgnum i s])
  next
    case False
    then show ?thesis using "1.prems"
      by (auto simp: pmm_set_busy_loop.simps [of pgidx pgnum i s] word_less_nat_alt)
  qed
qed

lemma guard_no_wrap:
  fixes a b t :: u64
  assumes "unat a + unat b < 2 ^ 64"
  shows "a + b \<ge> t \<longleftrightarrow> unat t \<le> unat a + unat b"
  using assms by (simp add: word_le_nat_alt unat_simps)

lemma pmm_set_free_spec:
  assumes "pmm_count s" and "unat (pa2pgidx pa) + unat pgnum < 2 ^ 64"
  shows "free_frames (pmm_set_free pa pgnum s) = free_frames s \<union>
      (if unat (pa2pgidx pa) + unat pgnum < unat (total_pages s) then page_range (pa2pgidx pa) pgnum else {})"
    and "pmm_count (pmm_set_free pa pgnum s)"
    and "total_pages (pmm_set_free pa pgnum s) = total_pages s"
    and "last_free_index (pmm_set_free pa pgnum s) = last_free_index s"
    and "pmm.more (pmm_set_free pa pgnum s) = pmm.more s"
  using pmm_set_free_loop_spec [OF assms(1), of "pa2pgidx pa" pgnum 0] assms
  by (auto simp: pmm_set_free_def Let_def guard_no_wrap page_range_def not_le)

lemma pmm_set_busy_spec:
  assumes "pmm_count s" and "unat (pa2pgidx pa) + unat pgnum < 2 ^ 64"
  shows "free_frames (pmm_set_busy pa pgnum s) = free_frames s -
      (if unat (pa2pgidx pa) + unat pgnum < unat (total_pages s) then page_range (pa2pgidx pa) pgnum else {})"
    and "pmm_count (pmm_set_busy pa pgnum s)"
    and "total_pages (pmm_set_busy pa pgnum s) = total_pages s"
    and "last_free_index (pmm_set_busy pa pgnum s) = last_free_index s"
    and "pmm.more (pmm_set_busy pa pgnum s) = pmm.more s"
  using pmm_set_busy_loop_spec [OF assms(1), of "pa2pgidx pa" pgnum 0] assms
  by (auto simp: pmm_set_busy_def Let_def guard_no_wrap page_range_def not_le)

subsection \<open>Initialisation\<close>

text \<open>
  The frames lying wholly inside a memory map entry, and the condition the boot loader's map
  meets: regions end below \<open>2 ^ 63\<close>.
\<close>

definition entry_frames :: "limine_memmap_entry \<Rightarrow> u64 set" where
  "entry_frames e = {p. unat (me_base e) \<le> unat p * 4096
     \<and> (unat p + 1) * 4096 \<le> unat (me_base e) + unat (me_length e)}"

definition entry_end :: "limine_memmap_entry \<Rightarrow> nat" where
  "entry_end e = unat (me_base e) + unat (me_length e)"

definition memmap_ok :: "limine_memmap_entry list \<Rightarrow> bool" where
  "memmap_ok mmap \<longleftrightarrow> (\<forall>e \<in> set mmap. entry_end e < 2 ^ 63)"

lemma unat_entry_end: "entry_end e < 2 ^ 63 \<Longrightarrow> unat (me_base e + me_length e) = entry_end e"
  by (simp add: entry_end_def unat_simps)

lemma entry_range:
  assumes "entry_end e < 2 ^ 63"
  defines "start \<equiv> ALIGN_UP (me_base e) PAGE_SIZE" and "stop \<equiv> ALIGN_DOWN (me_base e + me_length e) PAGE_SIZE"
  shows "start \<ge> stop \<Longrightarrow> entry_frames e = {}"
    and "\<not> start \<ge> stop \<Longrightarrow> page_range (pa2pgidx start) ((stop - start) div PAGE_SIZE) = entry_frames e"
    and "\<not> start \<ge> stop \<Longrightarrow> unat (pa2pgidx start) + unat ((stop - start) div PAGE_SIZE) = entry_end e div 4096"
proof -
  have b: "unat (me_base e) + 4095 < 2 ^ 64" using assms(1) by (simp add: entry_end_def)
  have st: "unat start = (unat (me_base e) + 4095) div 4096 * 4096"
    using unat_ALIGN_UP_page [OF b] by (simp add: start_def minus_mod_eq_div_mult)
  have en: "unat stop = entry_end e div 4096 * 4096"
    unfolding stop_def unat_ALIGN_DOWN_page unat_entry_end [OF assms(1)] by (simp add: minus_mod_eq_div_mult)
  have fr: "p \<in> entry_frames e \<longleftrightarrow> (unat (me_base e) + 4095) div 4096 \<le> unat p \<and> unat p < entry_end e div 4096" for p
    unfolding entry_frames_def entry_end_def by (simp, linarith)
  show "start \<ge> stop \<Longrightarrow> entry_frames e = {}"
    using fr by (auto simp: word_le_nat_alt st en)
  assume "\<not> start \<ge> stop"
  then have lt: "start < stop" by simp
  have n: "unat ((stop - start) div PAGE_SIZE) = entry_end e div 4096 - (unat (me_base e) + 4095) div 4096"
    using lt by (simp add: unat_div unat_sub st en diff_mult_distrib [symmetric])
  have i: "unat (pa2pgidx start) = (unat (me_base e) + 4095) div 4096"
    by (simp add: pa2pgidx_def unat_div st)
  have le: "(unat (me_base e) + 4095) div 4096 \<le> entry_end e div 4096"
    using lt by (simp add: word_less_nat_alt st en)
  show "page_range (pa2pgidx start) ((stop - start) div PAGE_SIZE) = entry_frames e"
    using fr le by (auto simp: page_range_def n i)
  show "unat (pa2pgidx start) + unat ((stop - start) div PAGE_SIZE) = entry_end e div 4096"
    using le by (simp add: n i)
qed

text \<open>Only regions that end strictly below the last frame are freed: the guard of \<^verbatim>\<open>pmm_set_free\<close>.\<close>

definition freed_frames :: "limine_memmap_entry list \<Rightarrow> u64 \<Rightarrow> u64 set" where
  "freed_frames mmap npages = (\<Union>e \<in> {e \<in> set mmap. me_type e = LIMINE_MEMMAP_USABLE
     \<and> entry_end e div 4096 < unat npages}. entry_frames e)"

lemma freed_frames_Cons:
  "freed_frames (e # es) npages = freed_frames es npages \<union>
     (if me_type e = LIMINE_MEMMAP_USABLE \<and> entry_end e div 4096 < unat npages then entry_frames e else {})"
  by (auto simp: freed_frames_def)

lemma free_usable_spec:
  assumes "pmm_count s" and "memmap_ok mmap"
  shows "free_frames (free_usable mmap s) = free_frames s \<union> freed_frames mmap (total_pages s)
    \<and> pmm_count (free_usable mmap s) \<and> total_pages (free_usable mmap s) = total_pages s
    \<and> last_free_index (free_usable mmap s) = last_free_index s
    \<and> pmm.more (free_usable mmap s) = pmm.more s"
  using assms
proof (induction mmap arbitrary: s)
  case Nil
  then show ?case by (simp add: freed_frames_def)
next
  case (Cons e es)
  from Cons.prems have e: "entry_end e < 2 ^ 63" and es: "memmap_ok es" by (auto simp: memmap_ok_def)
  let ?start = "ALIGN_UP (me_base e) PAGE_SIZE" and ?stop = "ALIGN_DOWN (me_base e + me_length e) PAGE_SIZE"
  note r = entry_range [OF e]
  show ?case
  proof (cases "me_type e = LIMINE_MEMMAP_USABLE \<and> \<not> ?start \<ge> ?stop")
    case True
    let ?t = "pmm_set_free ?start ((?stop - ?start) div PAGE_SIZE) s"
    have "entry_end e div 4096 < 2 ^ 64" using e by simp
    then have nw: "unat (pa2pgidx ?start) + unat ((?stop - ?start) div PAGE_SIZE) < 2 ^ 64"
      using r(3) True by simp
    note f = pmm_set_free_spec [OF Cons.prems(1) nw]
    have "free_usable (e # es) s = free_usable es ?t" using True by (simp add: Let_def)
    then show ?thesis
      using Cons.IH [OF f(2) es] f True r(2,3) by (auto simp: freed_frames_Cons)
  next
    case False
    then have "free_usable (e # es) s = free_usable es s" by (auto simp: Let_def)
    then show ?thesis using Cons.IH [OF Cons.prems(1) es] False r(1) by (auto simp: freed_frames_Cons)
  qed
qed

lemma unat_if_max: "unat (if a > h then a else h) = max (unat a) (unat (h :: u64))"
  by (simp add: word_less_nat_alt)

lemma highest_pa_max:
  assumes "memmap_ok mmap"
  shows "unat (highest_pa mmap h) = fold (\<lambda>e m. max (entry_end e) m) mmap (unat h)"
  using assms
proof (induction mmap arbitrary: h)
  case (Cons e es)
  then have "entry_end e < 2 ^ 63" "memmap_ok es" by (auto simp: memmap_ok_def)
  with Cons.IH [of "if me_base e + me_length e > h then me_base e + me_length e else h"] show ?case
    by (simp only: highest_pa.simps Let_def unat_if_max unat_entry_end fold.simps comp_def)
qed simp

lemma fold_max_ge: "m \<le> fold (\<lambda>e m. max (f e) m) xs (m :: nat)"
  by (induction xs arbitrary: m) (simp, simp, meson max.boundedE order_trans)

lemma fold_max_elem: "x \<in> set xs \<Longrightarrow> f x \<le> fold (\<lambda>e m. max (f e) m) xs (m :: nat)"
proof (induction xs arbitrary: m)
  case (Cons y ys)
  show ?case
  proof (cases "x = y")
    case True
    then show ?thesis using fold_max_ge [of "max (f y) m" f ys] by simp
  next
    case False
    then show ?thesis using Cons by simp
  qed
qed simp

lemma fold_max_less: "\<forall>x \<in> set xs. f x < b \<Longrightarrow> m < b \<Longrightarrow> fold (\<lambda>e m. max (f e) m) xs (m :: nat) < b"
  by (induction xs arbitrary: m) auto

lemma highest_pa_bound:
  assumes "memmap_ok mmap"
  shows "unat (highest_pa mmap 0) < 2 ^ 63" and "e \<in> set mmap \<Longrightarrow> entry_end e \<le> unat (highest_pa mmap 0)"
proof -
  have "\<forall>e \<in> set mmap. entry_end e < 2 ^ 63" using assms by (simp add: memmap_ok_def)
  then have "fold (\<lambda>e m. max (entry_end e) m) mmap 0 < 2 ^ 63" by (rule fold_max_less) simp
  then show "unat (highest_pa mmap 0) < 2 ^ 63" by (simp only: highest_pa_max [OF assms] unat_0)
  show "e \<in> set mmap \<Longrightarrow> entry_end e \<le> unat (highest_pa mmap 0)"
    unfolding highest_pa_max [OF assms] by (rule fold_max_elem)
qed

lemma unat_bitmap_bytes:
  assumes "unat n \<le> 2 ^ 52"
  shows "unat (bitmap_bytes n) = (unat n + 7) div 8"
proof (cases "n mod 8 = 0")
  case True
  then have "unat n mod 8 = 0" using unat_mod [of n 8] by simp
  then have "(unat n + 7) div 8 = unat n div 8" by (simp add: div_add1_eq)
  then show ?thesis using True by (simp add: bitmap_bytes_def unat_div)
next
  case False
  then have "unat (n mod 8) \<noteq> 0" by (simp only: unat_eq_0 not_False_eq_True)
  then have "unat n mod 8 \<noteq> 0" by (simp add: unat_mod)
  then have "(unat n + 7) div 8 = unat n div 8 + 1" by (rule ceil_div8)
  moreover have "unat (n div 8 + 1) = unat (n div 8) + 1"
    using assms unat_add_no_overflow [of "n div 8" 1] by (simp add: unat_div)
  ultimately show ?thesis using False by (simp add: bitmap_bytes_def unat_div)
qed

lemma fresh_bitmap_busy:
  assumes "unat n \<le> 2 ^ 52" and "i < n"
  shows "i div 8 < bitmap_bytes n"
proof -
  have "unat i div 8 < (unat n + 7) div 8" using assms(2) by (simp add: word_less_nat_alt)
  then show ?thesis by (simp add: word_less_nat_alt unat_div unat_bitmap_bytes [OF assms(1)])
qed

text \<open>\<open>pmm_init\<close> up to the point where the usable regions are freed: nothing is free yet.\<close>

lemma pmm_init_start:
  fixes s :: "'a pmm_scheme" and v :: u64
  assumes "free_pages s = 0" and "unat n \<le> 2 ^ 52"
  defines "s1 \<equiv> s\<lparr>total_pages := n, bitmap_size := bitmap_bytes n, bitmap_va := v,
      bitmap := (\<lambda>i. if i < bitmap_bytes n then 0xFF else bitmap s i)\<rparr>"
  shows "free_frames s1 = {}" and "pmm_count s1"
proof -
  have "bit_test s1 i" if "i < n" for i
  proof -
    have "bit (255 :: u8) (unat (i mod 8))" unfolding all_ones_u8 by (rule bit_index_less)
    then show ?thesis
      using fresh_bitmap_busy [OF assms(2) that] by (simp add: bit_test_iff s1_def)
  qed
  then show "free_frames s1 = {}" by (auto simp: free_frames_def s1_def)
  then show "pmm_count s1" using assms(1) by (simp add: pmm_count_def s1_def)
qed

lemma find_bitmap_pa_entry:
  assumes "find_bitmap_pa mmap bsize \<noteq> 0"
  shows "\<exists>e \<in> set mmap. me_type e = LIMINE_MEMMAP_USABLE \<and> find_bitmap_pa mmap bsize = me_base e
    \<and> bitmap_pages_for bsize * PAGE_SIZE \<le> me_length e"
  using assms by (induction mmap) (auto split: if_splits)

lemma unat_bitmap_pages:
  assumes "unat n \<le> 2 ^ 52"
  shows "unat (bitmap_pages_for (bitmap_bytes n)) = ((unat n + 7) div 8 + 4095) div 4096"
    and "unat (bitmap_pages_for (bitmap_bytes n) * PAGE_SIZE) = ((unat n + 7) div 8 + 4095) div 4096 * 4096"
proof -
  have "(unat n + 7) div 8 \<le> 2 ^ 50" using assms by simp
  then have b: "unat (bitmap_bytes n) + 4095 < 2 ^ 64" by (simp add: unat_bitmap_bytes [OF assms])
  show u: "unat (bitmap_pages_for (bitmap_bytes n)) = ((unat n + 7) div 8 + 4095) div 4096"
    unfolding bitmap_pages_for_def unat_div unat_ALIGN_UP_page [OF b] unat_bitmap_bytes [OF assms]
    by (simp add: minus_mod_eq_div_mult)
  have "((unat n + 7) div 8 + 4095) div 4096 * 4096 < 2 ^ 64"
    using b unfolding unat_bitmap_bytes [OF assms] by linarith
  then show "unat (bitmap_pages_for (bitmap_bytes n) * PAGE_SIZE) = ((unat n + 7) div 8 + 4095) div 4096 * 4096"
    by (subst unat_mult_no_overflow) (simp_all add: u)
qed

lemma pmm_init_spec:
  fixes s :: "'a pmm_scheme"
  assumes ok: "memmap_ok mmap" and z: "free_pages s = 0" "last_free_index s = 0"
    and init: "pmm_init hhdm mmap s = Some s'"
  defines "n \<equiv> highest_pa mmap 0 div PAGE_SIZE"
  defines "b \<equiv> find_bitmap_pa mmap (bitmap_bytes n)" and "k \<equiv> bitmap_pages_for (bitmap_bytes n)"
  shows "pmm_inv s'" and "total_pages s' = n"
    and "free_frames s' = freed_frames mmap n
      - (if unat (pa2pgidx b) + unat k < unat n then page_range (pa2pgidx b) k else {}) - {0}"
    and "b \<noteq> 0"
proof -
  have n: "unat n \<le> 2 ^ 52"
    using highest_pa_bound(1) [OF ok] by (simp add: n_def unat_div)
  let ?s1 = "s\<lparr>total_pages := n, bitmap_size := bitmap_bytes n, bitmap_va := b + hhdm,
      bitmap := (\<lambda>i. if i < bitmap_bytes n then 0xFF else bitmap s i)\<rparr>"
  let ?s2 = "free_usable mmap ?s1" and ?s3 = "pmm_set_busy b k (free_usable mmap ?s1)"
  from init show b0: "b \<noteq> 0" by (auto simp: pmm_init_def Let_def n_def b_def)
  have s': "s' = pmm_set_busy 0 1 ?s3"
    using init b0 by (simp add: pmm_init_def Let_def n_def [symmetric] b_def [symmetric] k_def [symmetric])
  note s1 = pmm_init_start [OF z(1) n, of "b + hhdm"]
  note s2 = free_usable_spec [OF s1(2) ok, unfolded s1(1)]
  have "unat (pa2pgidx b) < 2 ^ 63" "unat k < 2 ^ 63"
    using unat_lt_2p64 [of b] n by (simp_all add: pa2pgidx_def unat_div k_def unat_bitmap_pages [OF n])
  then have nw: "unat (pa2pgidx b) + unat k < 2 ^ 64" by simp
  note s3 = pmm_set_busy_spec [OF _ nw, of ?s2]
  have z0: "unat (pa2pgidx 0) + unat (1 :: u64) < 2 ^ 64" by (simp add: pa2pgidx_def)
  note s4 = pmm_set_busy_spec [OF _ z0, of ?s3]
  have zero: "page_range (pa2pgidx 0) 1 = {0}"
    by (auto simp: page_range_def pa2pgidx_def unat_eq_0)
  have small: "\<not> 1 < unat n \<Longrightarrow> freed_frames mmap n = {}"
    by (auto simp: freed_frames_def entry_frames_def entry_end_def)
  have fields: "total_pages ?s3 = n" "last_free_index ?s3 = 0" "pmm_count ?s3"
    using s2 s3 z(2) by auto
  show tp: "total_pages s' = n" using s4 s' fields by simp
  show ff: "free_frames s' = freed_frames mmap n
      - (if unat (pa2pgidx b) + unat k < unat n then page_range (pa2pgidx b) k else {}) - {0}"
    using s2 s3 s4 s' fields zero small by (auto simp: pa2pgidx_def split: if_splits)
  show "pmm_inv s'"
    using s4 s' fields tp ff n by (auto simp: pmm_inv_def pmm_count_def)
qed

subsection \<open>An initialised machine\<close>

text \<open>
  The zero-initialised globals of the kernel image and a small memory map (four usable pages from
  address \<open>0x1000\<close>, a reserved page at \<open>0x8000\<close>), on which the properties are instantiated.
\<close>

definition boot_pmm :: pmm where
  "boot_pmm = \<lparr>l_next = (\<lambda>_. 0), l_prev = (\<lambda>_. 0), bitmap = (\<lambda>_. 0), bitmap_va = 0, bitmap_size = 0,
     total_pages = 0, free_pages = 0, last_free_index = 0\<rparr>"

definition example_mmap :: "limine_memmap_entry list" where
  "example_mmap = [\<lparr>me_base = 0x1000, me_length = 0x4000, me_type = 0\<rparr>,
     \<lparr>me_base = 0x8000, me_length = 0x1000, me_type = 1\<rparr>]"

definition example_pmm :: pmm where
  "example_pmm = the (pmm_init 0xFFFF800000000000 example_mmap boot_pmm)"

lemma example_init: "pmm_init 0xFFFF800000000000 example_mmap boot_pmm = Some example_pmm"
  unfolding example_pmm_def
  by (simp add: pmm_init_def Let_def example_mmap_def bitmap_bytes_def bitmap_pages_for_def ALIGN_UP_def)

lemma example_ok: "memmap_ok example_mmap"
  by (simp add: memmap_ok_def example_mmap_def entry_end_def)

lemma example_inv: "pmm_inv example_pmm"
  by (rule pmm_init_spec(1) [OF example_ok _ _ example_init]) (simp_all add: boot_pmm_def)

lemma example_alloc: "fst (pmm_alloc_page example_pmm) = 0x2000"
  unfolding example_pmm_def by code_simp

subsection \<open>Properties\<close>

text \<open>
  C6: \<open>pmm_alloc_page\<close> is next fit and complete. When a frame is free it returns the nonzero address
  of the first free frame at or after the cursor (or of the first free frame at all when none
  follows the cursor), takes exactly that frame out of the free set, moves the cursor behind it
  and keeps the invariant; it returns 0, changing nothing, exactly when no frame is free.
\<close>

theorem pmm_alloc_next_fit:
  assumes "pmm_inv s"
  shows "if free_frames s = {} then pmm_alloc_page s = (0, s)
    else \<exists>i s'. next_fit s i \<and> pmm_alloc_page s = (pgidx2pa i, s') \<and> pgidx2pa i \<noteq> 0
      \<and> free_frames s' = free_frames s - {i} \<and> last_free_index s' = i + 1
      \<and> total_pages s' = total_pages s \<and> pmm_inv s' \<and> pmm.more s' = pmm.more s"
proof (cases "free_frames s = {}")
  case True
  then show ?thesis using pmm_alloc_page_fail [OF assms] by simp
next
  case False
  obtain i where i: "next_fit s i" "pmm_alloc_page s = pmm_take i s"
    using pmm_alloc_page_take [OF assms False] by blast
  then have "i \<in> free_frames s" by (simp add: next_fit_def)
  then have "pgidx2pa i \<noteq> 0" "pmm_inv (snd (pmm_take i s))"
    using free_framesD(3) [OF assms] pmm_take_inv [OF assms] by auto
  with i False show ?thesis
    by (auto intro!: exI [of _ i] exI [of _ "snd (pmm_take i s)"] simp: prod_eq_iff)
qed

theorem pmm_alloc_next_fit_witness:
  "pmm_inv example_pmm \<and> free_frames example_pmm \<noteq> {} \<and>
   (\<exists>i s'. next_fit example_pmm i \<and> pmm_alloc_page example_pmm = (pgidx2pa i, s') \<and> pgidx2pa i \<noteq> 0
      \<and> free_frames s' = free_frames example_pmm - {i} \<and> last_free_index s' = i + 1
      \<and> total_pages s' = total_pages example_pmm \<and> pmm_inv s' \<and> pmm.more s' = pmm.more example_pmm)"
proof -
  have "free_frames example_pmm \<noteq> {}"
    using pm.alloc_zero_iff [OF example_inv] example_alloc by simp
  then show ?thesis using pmm_alloc_next_fit [OF example_inv] example_inv by simp
qed

text \<open>
  C32: \<open>pmm_free_page\<close> on every branch. An address beyond the last frame or of a frame that is
  already free (a double free) changes nothing; otherwise exactly that frame becomes free, the
  cursor is pulled back to it if it lies before, and the invariant is kept for every frame but 0.
\<close>

theorem pmm_free_page_branches:
  assumes "pmm_inv s" and "pa2pgidx pa \<noteq> 0"
  shows "pmm_inv (pmm_free_page pa s) \<and>
    (if pa2pgidx pa \<ge> total_pages s \<or> pa2pgidx pa \<in> free_frames s then pmm_free_page pa s = s
     else free_frames (pmm_free_page pa s) = insert (pa2pgidx pa) (free_frames s)
       \<and> last_free_index (pmm_free_page pa s) = min (last_free_index s) (pa2pgidx pa)
       \<and> free_pages (pmm_free_page pa s) = free_pages s + 1)"
proof (cases "pa2pgidx pa \<ge> total_pages s \<or> pa2pgidx pa \<in> free_frames s")
  case True
  then have "pmm_free_page pa s = s" by (auto simp: pmm_free_page_def Let_def free_frames_def)
  with True assms(1) show ?thesis by simp
next
  case False
  then have b: "pa2pgidx pa < total_pages s" "bit_test s (pa2pgidx pa)"
    by (auto simp: free_frames_def)
  then have "last_free_index (pmm_free_page pa s) = min (last_free_index s) (pa2pgidx pa)"
    and "free_pages (pmm_free_page pa s) = free_pages s + 1"
    by (simp_all add: pmm_free_page_def Let_def min_def not_less not_le [symmetric])
  with False b(1) show ?thesis
    using pmm_free_page_inv [OF assms] free_frames_pmm_free_page [of pa s] by simp
qed

theorem pmm_free_page_branches_witness:
  "pmm_inv example_pmm \<and> pa2pgidx 0x1000 \<noteq> 0 \<and>
   (pmm_inv (pmm_free_page 0x1000 example_pmm) \<and>
    (if pa2pgidx 0x1000 \<ge> total_pages example_pmm \<or> pa2pgidx 0x1000 \<in> free_frames example_pmm
     then pmm_free_page 0x1000 example_pmm = example_pmm
     else free_frames (pmm_free_page 0x1000 example_pmm) = insert (pa2pgidx 0x1000) (free_frames example_pmm)
       \<and> last_free_index (pmm_free_page 0x1000 example_pmm) = min (last_free_index example_pmm) (pa2pgidx 0x1000)
       \<and> free_pages (pmm_free_page 0x1000 example_pmm) = free_pages example_pmm + 1))"
proof -
  have "pa2pgidx 0x1000 \<noteq> 0" by (simp add: pa2pgidx_def)
  then show ?thesis using pmm_free_page_branches [OF example_inv] example_inv by blast
qed

text \<open>
  Freeing the page that was just allocated restores the free set, and as many successive
  allocations as there are free frames all succeed, taking one frame each.
\<close>

theorem pmm_alloc_free_roundtrip:
  assumes "pmm_inv s"
  shows "(fst (pmm_alloc_page s) \<noteq> 0 \<longrightarrow>
      free_frames (pmm_free_page (fst (pmm_alloc_page s)) (snd (pmm_alloc_page s))) = free_frames s)
    \<and> (n < card (free_frames s) \<longrightarrow> fst (pmm_alloc_page (((\<lambda>t. snd (pmm_alloc_page t)) ^^ n) s)) \<noteq> 0)
    \<and> card (free_frames (((\<lambda>t. snd (pmm_alloc_page t)) ^^ n) s)) = card (free_frames s) - n"
proof -
  let ?t = "((\<lambda>t. snd (pmm_alloc_page t)) ^^ n) s"
  from pm.allocs_remaining [OF assms, of n] have "pmm_inv ?t" "card (free_frames ?t) = card (free_frames s) - n"
    by auto
  moreover from this have "n < card (free_frames s) \<longrightarrow> fst (pmm_alloc_page ?t) \<noteq> 0"
    by (auto simp: pm.alloc_zero_iff)
  ultimately show ?thesis using pm.alloc_release [OF assms] by blast
qed

theorem pmm_alloc_free_roundtrip_witness:
  "pmm_inv example_pmm \<and>
   free_frames (pmm_free_page (fst (pmm_alloc_page example_pmm)) (snd (pmm_alloc_page example_pmm)))
     = free_frames example_pmm"
  using pmm_alloc_free_roundtrip [OF example_inv, of 0] example_inv example_alloc by simp

text \<open>
  C7: after \<open>pmm_init\<close> on a memory map whose regions end below \<open>2 ^ 63\<close>, the allocator invariant
  holds and a frame is free exactly when it lies wholly in a usable region that ends strictly
  below the last frame, is not one of the frames reserved for the bitmap, and is not frame 0.
\<close>

theorem pmm_init_correct:
  assumes "memmap_ok mmap" and "free_pages s = 0" and "last_free_index s = 0"
    and "pmm_init hhdm mmap s = Some s'"
  shows "let n = highest_pa mmap 0 div PAGE_SIZE; b = find_bitmap_pa mmap (bitmap_bytes n);
      k = bitmap_pages_for (bitmap_bytes n)
    in pmm_inv s' \<and> total_pages s' = n \<and> b \<noteq> 0 \<and>
      free_frames s' = freed_frames mmap n
        - (if unat (pa2pgidx b) + unat k < unat n then page_range (pa2pgidx b) k else {}) - {0}"
  unfolding Let_def using pmm_init_spec [OF assms] by blast

theorem pmm_init_correct_witness:
  "pmm_init 0xFFFF800000000000 example_mmap boot_pmm = Some example_pmm \<and> pmm_inv example_pmm
   \<and> total_pages example_pmm = 9"
  using pmm_init_correct [OF example_ok _ _ example_init] example_init
  by (simp add: Let_def boot_pmm_def example_mmap_def)

text \<open>
  C31: the storage of the bitmap is never handed out. On a map whose usable regions are page
  aligned and do not overlap (as the boot protocol guarantees), no frame that is free after
  \<open>pmm_init\<close> shares a byte with the bitmap.
\<close>

theorem pmm_init_bitmap_reserved:
  assumes ok: "memmap_ok mmap" and z: "free_pages s = 0" "last_free_index s = 0"
    and init: "pmm_init hhdm mmap s = Some s'"
    and al: "\<forall>e \<in> set mmap. me_type e = LIMINE_MEMMAP_USABLE \<longrightarrow> unat (me_base e) mod 4096 = 0"
    and dis: "\<forall>e \<in> set mmap. \<forall>f \<in> set mmap. me_type e = LIMINE_MEMMAP_USABLE \<and> me_type f = LIMINE_MEMMAP_USABLE
      \<and> e \<noteq> f \<longrightarrow> entry_end e \<le> unat (me_base f) \<or> entry_end f \<le> unat (me_base e)"
    and p: "p \<in> free_frames s'"
  shows "let n = highest_pa mmap 0 div PAGE_SIZE; b = find_bitmap_pa mmap (bitmap_bytes n)
    in (unat p + 1) * 4096 \<le> unat b \<or> unat b + unat (bitmap_bytes n) \<le> unat p * 4096"
proof -
  define n where "n = highest_pa mmap 0 div PAGE_SIZE"
  define b where "b = find_bitmap_pa mmap (bitmap_bytes n)"
  define k where "k = ((unat n + 7) div 8 + 4095) div 4096"
  have n: "unat n \<le> 2 ^ 52" using highest_pa_bound(1) [OF ok] by (simp add: n_def unat_div)
  note spec = pmm_init_spec [OF ok z init, folded n_def, folded b_def]
  obtain e where e: "e \<in> set mmap" "me_type e = LIMINE_MEMMAP_USABLE" "b = me_base e"
      "unat b + k * 4096 \<le> entry_end e"
    using find_bitmap_pa_entry [of mmap "bitmap_bytes n"] spec(4) unat_bitmap_pages(2) [OF n]
    by (auto simp: b_def k_def entry_end_def word_le_nat_alt)
  from p spec(3) obtain f where f: "f \<in> set mmap" "me_type f = LIMINE_MEMMAP_USABLE"
      "entry_end f div 4096 < unat n" "p \<in> entry_frames f" by (auto simp: freed_frames_def)
  have idx: "unat (pa2pgidx b) * 4096 = unat b" using al e by (auto simp: pa2pgidx_def unat_div)
  have sz: "unat (bitmap_bytes n) \<le> k * 4096" unfolding unat_bitmap_bytes [OF n] k_def by linarith
  show ?thesis unfolding Let_def n_def [symmetric] b_def [symmetric]
  proof (cases "e = f")
    case True
    then have "(unat (pa2pgidx b) + k) * 4096 \<le> entry_end f" using e(4) idx by simp
    then have "unat (pa2pgidx b) + k \<le> entry_end f div 4096"
      by (simp add: less_eq_div_iff_mult_less_eq)
    with f(3) have "unat (pa2pgidx b) + k < unat n" by simp
    then have "\<not> (unat (pa2pgidx b) \<le> unat p \<and> unat p < unat (pa2pgidx b) + k)"
      using p spec(3) unat_bitmap_pages(1) [OF n] by (auto simp: k_def page_range_def)
    then consider "unat p + 1 \<le> unat (pa2pgidx b)" | "unat (pa2pgidx b) + k \<le> unat p" by linarith
    then show "(unat p + 1) * 4096 \<le> unat b \<or> unat b + unat (bitmap_bytes n) \<le> unat p * 4096"
    proof cases
      case 1
      then have "(unat p + 1) * 4096 \<le> unat b" 
        using mult_le_mono1 [of _ _ 4096] idx by metis
      then show ?thesis ..
    next
      case 2
      then have "unat b + k * 4096 \<le> unat p * 4096"
        using mult_le_mono1 [of _ _ 4096] idx by (metis add_mult_distrib)
      then have "unat b + unat (bitmap_bytes n) \<le> unat p * 4096" using sz by simp
      then show ?thesis ..
    qed
  next
    case False
    with dis e f have "entry_end e \<le> unat (me_base f) \<or> entry_end f \<le> unat b" by blast
    then show "(unat p + 1) * 4096 \<le> unat b \<or> unat b + unat (bitmap_bytes n) \<le> unat p * 4096"
      using e(4) sz f(4) unfolding entry_frames_def entry_end_def by auto
  qed
qed

theorem pmm_init_bitmap_reserved_witness:
  "2 \<in> free_frames example_pmm \<and> unat (0x1000 :: u64) + unat (bitmap_bytes 9) \<le> unat (2 :: u64) * 4096"
proof -
  have p: "2 \<in> free_frames example_pmm"
    using pm.alloc_fresh(1) [OF example_inv] example_alloc by (simp add: pa2pgidx_def)
  show ?thesis
    using pmm_init_bitmap_reserved [OF example_ok _ _ example_init _ _ p] p
    by (auto simp: boot_pmm_def example_mmap_def entry_end_def Let_def bitmap_bytes_def
        bitmap_pages_for_def ALIGN_UP_def)
qed

end
