(* ===== verification/KString.thy ===== *)
theory KString
  imports Prelude "HOL-Library.Signed_Division"
begin

text \<open>
  The kernel's string and memory routines, \<^verbatim>\<open>lib/string.c\<close>, over a flat byte memory: pointers are
  addresses, \<^verbatim>\<open>*p\<close> is \<open>m p\<close>, and the loops are the source's. A loop that stops only at a terminating
  zero byte may run forever on other memories, so it is a \<open>partial_function (option)\<close>; its
  termination on a C string is part of each theorem. \<open>cstr m p s\<close> says that the bytes \<open>s\<close> and a
  terminating zero lie at \<open>p\<close>.
\<close>

type_synonym mem = "u64 \<Rightarrow> u8"

subsection \<open>Memory blocks\<close>

function memset :: "mem \<Rightarrow> u64 \<Rightarrow> u8 \<Rightarrow> u64 \<Rightarrow> mem" where
  "memset m p v n = (if n = 0 then m else memset (m(p := v)) (p + 1) v (n - 1))"
  by pat_completeness auto
termination
  by (relation "measure (\<lambda>(m, p, v, n). unat n)") simp_all

function memcpy :: "mem \<Rightarrow> u64 \<Rightarrow> u64 \<Rightarrow> u64 \<Rightarrow> mem" where
  "memcpy m d s n = (if n = 0 then m else memcpy (m(d := m s)) (d + 1) (s + 1) (n - 1))"
  by pat_completeness auto
termination
  by (relation "measure (\<lambda>(m, d, s, n). unat n)") simp_all

function memcmp :: "mem \<Rightarrow> u64 \<Rightarrow> u64 \<Rightarrow> u64 \<Rightarrow> int" where
  "memcmp m x y n =
     (if n = 0 then 0
      else if m x \<noteq> m y then uint (m x) - uint (m y)
      else memcmp m (x + 1) (y + 1) (n - 1))"
  by pat_completeness auto
termination
  by (relation "measure (\<lambda>(m, x, y, n). unat n)") simp_all

declare memset.simps [simp del] memcpy.simps [simp del] memcmp.simps [simp del]

subsection \<open>Zero-terminated strings\<close>

partial_function (option) strlen_loop :: "mem \<Rightarrow> u64 \<Rightarrow> u64 \<Rightarrow> u64 option" where
  "strlen_loop m s n = (if m (s + n) \<noteq> 0 then strlen_loop m s (n + 1) else Some n)"

definition strlen :: "mem \<Rightarrow> u64 \<Rightarrow> u64 option" where
  "strlen m s = strlen_loop m s 0"

partial_function (option) strcmp :: "mem \<Rightarrow> u64 \<Rightarrow> u64 \<Rightarrow> int option" where
  "strcmp m a b =
     (if m a \<noteq> 0 \<and> m a = m b then strcmp m (a + 1) (b + 1) else Some (uint (m a) - uint (m b)))"

text \<open>
  \<^verbatim>\<open>while (n-- && *a && *a == *b)\<close>: the counter is decremented by the test itself, also when the test
  fails, and wraps below zero. \<^verbatim>\<open>(int)n < 0\<close> afterwards is bit 31 of the counter.
\<close>

function strncmp_loop :: "mem \<Rightarrow> u64 \<Rightarrow> u64 \<Rightarrow> u64 \<Rightarrow> u64 \<times> u64 \<times> u64" where
  "strncmp_loop m a b n =
     (if n \<noteq> 0 \<and> m a \<noteq> 0 \<and> m a = m b then strncmp_loop m (a + 1) (b + 1) (n - 1)
      else (a, b, n - 1))"
  by pat_completeness auto
termination
  by (relation "measure (\<lambda>(m, a, b, n). unat n)") simp_all

declare strncmp_loop.simps [simp del]

definition strncmp :: "mem \<Rightarrow> u64 \<Rightarrow> u64 \<Rightarrow> u64 \<Rightarrow> int" where
  "strncmp m a b n =
     (case strncmp_loop m a b n of (a', b', n') \<Rightarrow>
        if bit n' 31 then 0 else uint (m a') - uint (m b'))"

partial_function (option) strcpy :: "mem \<Rightarrow> u64 \<Rightarrow> u64 \<Rightarrow> mem option" where
  "strcpy m dst src =
     (let m' = m(dst := m src) in if m src \<noteq> 0 then strcpy m' (dst + 1) (src + 1) else Some m')"

text \<open>
  \<^verbatim>\<open>strncpy\<close>: the first loop copies until the count is used up or the zero byte has been copied
  (that last copy does not decrement the count), the second pads with the count that is left.
\<close>

function strncpy_copy :: "mem \<Rightarrow> u64 \<Rightarrow> u64 \<Rightarrow> u64 \<Rightarrow> mem \<times> u64 \<times> u64" where
  "strncpy_copy m dst src n =
     (if n \<noteq> 0 then
        (let m' = m(dst := m src)
         in if m src \<noteq> 0 then strncpy_copy m' (dst + 1) (src + 1) (n - 1) else (m', dst + 1, n))
      else (m, dst, n))"
  by pat_completeness auto
termination
  by (relation "measure (\<lambda>(m, d, s, n). unat n)") simp_all

declare strncpy_copy.simps [simp del]

definition strncpy :: "mem \<Rightarrow> u64 \<Rightarrow> u64 \<Rightarrow> u64 \<Rightarrow> mem" where
  "strncpy m dst src n = (case strncpy_copy m dst src n of (m', d', n') \<Rightarrow> memset m' d' 0 n')"

subsection \<open>Integer to text\<close>

definition digits :: "nat \<Rightarrow> u8" where
  "digits k = (if k < 10 then of_nat (48 + k) else of_nat (55 + k))"

text \<open>
  The digits of a value, least significant first, as the conversion loop stores them in \<^verbatim>\<open>temp\<close>. The
  base has been checked to be at least 2 before the loop.
\<close>

function itoa_digits :: "u64 \<Rightarrow> u64 \<Rightarrow> u8 list" where
  "itoa_digits base v =
     (if v = 0 \<or> base < 2 then [] else digits (unat (v mod base)) # itoa_digits base (v div base))"
  by pat_completeness auto
termination
  by (relation "measure (\<lambda>(base, v). unat v)") (simp_all add: div_decreases)

declare itoa_digits.simps [simp del]

fun write_bytes :: "mem \<Rightarrow> u64 \<Rightarrow> u8 list \<Rightarrow> mem" where
  "write_bytes m p [] = m"
| "write_bytes m p (c # cs) = write_bytes (m(p := c)) (p + 1) cs"

definition itoa_uint64 :: "mem \<Rightarrow> u64 \<Rightarrow> u64 \<Rightarrow> u64 \<Rightarrow> mem" where
  "itoa_uint64 m value buffer base =
     (if base < 2 \<or> base > 16 then m(buffer := 0)
      else if value = 0 then write_bytes m buffer [48, 0]
      else write_bytes m buffer (rev (itoa_digits base value) @ [0]))"

text \<open>
  The signed conversion. C's \<^verbatim>\<open>/\<close> and \<^verbatim>\<open>%\<close> truncate, so a negative value in a base other than 10 makes a
  negative remainder and \<^verbatim>\<open>digits[rem]\<close> reads in front of the table; \<^verbatim>\<open>-value\<close> overflows for the least
  \<^verbatim>\<open>int\<close>. Both are undefined in C: the result is \<open>None\<close>.
\<close>

lemma sdiv_decreases:
  fixes v base :: int
  assumes "v \<noteq> 0" and "\<not> base < 2"
  shows "\<bar>v sdiv base\<bar> < \<bar>v\<bar>"
proof -
  have "0 \<le> \<bar>v\<bar> div base" using assms by (simp add: pos_imp_zdiv_nonneg_iff)
  moreover have "\<bar>v\<bar> div base < \<bar>v\<bar>" using assms by (intro int_div_less_self) auto
  ultimately show ?thesis using assms by (simp add: signed_divide_int_def abs_mult abs_sgn_eq)
qed

function itoa_loop :: "int \<Rightarrow> int \<Rightarrow> u8 list option" where
  "itoa_loop base v =
     (if v = 0 \<or> base < 2 then Some []
      else if v smod base < 0 then None
      else map_option (\<lambda>ds. digits (nat (v smod base)) # ds) (itoa_loop base (v sdiv base)))"
  by pat_completeness auto
termination
  by (relation "measure (\<lambda>(base, v). nat \<bar>v\<bar>)") (auto dest: sdiv_decreases)

declare itoa_loop.simps [simp del]

definition itoa :: "mem \<Rightarrow> int \<Rightarrow> u64 \<Rightarrow> int \<Rightarrow> mem option" where
  "itoa m value buffer base =
     (if base < 2 \<or> base > 16 then Some (m(buffer := 0))
      else
        let is_negative = (value < 0 \<and> base = 10)
        in if is_negative \<and> value = - (2 ^ 31) then None
           else
             let v = (if is_negative then - value else value)
             in if v = 0 then Some (write_bytes m buffer [48, 0])
                else (case itoa_loop base v of
                        None \<Rightarrow> None
                      | Some ds \<Rightarrow>
                          let temp = (if is_negative then ds @ [45] else ds)
                          in Some (write_bytes m buffer (rev temp @ [0]))))"

subsection \<open>Tokens\<close>

partial_function (option) is_delim :: "mem \<Rightarrow> u8 \<Rightarrow> u64 \<Rightarrow> bool option" where
  "is_delim m c d =
     (if m d \<noteq> 0 then (if c = m d then Some True else is_delim m c (d + 1)) else Some False)"

partial_function (option) skip_delims :: "mem \<Rightarrow> u64 \<Rightarrow> u64 \<Rightarrow> u64 option" where
  "skip_delims m delim str =
     (if m str \<noteq> 0 then
        Option.bind (is_delim m (m str) delim)
          (\<lambda>b. if \<not> b then Some str else skip_delims m delim (str + 1))
      else Some str)"

text \<open>The scan for the end of the token returns the memory and the new \<^verbatim>\<open>*saveptr\<close>.\<close>

partial_function (option) scan_token :: "mem \<Rightarrow> u64 \<Rightarrow> u64 \<Rightarrow> (mem \<times> u64) option" where
  "scan_token m delim str =
     (if m str \<noteq> 0 then
        Option.bind (is_delim m (m str) delim)
          (\<lambda>b. if b then Some (m(str := 0), str + 1) else scan_token m delim (str + 1))
      else Some (m, str))"

text \<open>
  \<open>strtok_r m str delim save\<close> returns the memory, the token (0 for \<^verbatim>\<open>NULL\<close>) and the new \<^verbatim>\<open>*saveptr\<close>.
\<close>

definition strtok_r :: "mem \<Rightarrow> u64 \<Rightarrow> u64 \<Rightarrow> u64 \<Rightarrow> (mem \<times> u64 \<times> u64) option" where
  "strtok_r m str delim save =
     Option.bind (skip_delims m delim (if str = 0 then save else str))
       (\<lambda>str. if m str = 0 then Some (m, 0, str)
              else map_option (\<lambda>(m', save'). (m', str, save')) (scan_token m delim str))"

subsection \<open>What the memory blocks contain\<close>

lemma memset_eq: "memset m p v n = (\<lambda>x. if x - p < n then v else m x)"
proof (induction m p v n rule: memset.induct)
  case (1 m p v n)
  show ?case
  proof (cases "n = 0")
    case True
    then show ?thesis by (simp add: memset.simps)
  next
    case False
    have "memset m p v n = memset (m(p := v)) (p + 1) v (n - 1)"
      using False by (subst memset.simps) simp
    also have "\<dots> = (\<lambda>x. if x - (p + 1) < n - 1 then v else (m(p := v)) x)"
      by (rule "1.IH" [OF False])
    finally show ?thesis using offset_step [OF False] by (auto simp: fun_eq_iff)
  qed
qed

text \<open>
  A forward copy is right unless the destination starts inside the source, behind its first byte.
\<close>

lemma memcpy_eq:
  assumes "d = s \<or> n \<le> d - s"
  shows "memcpy m d s n = (\<lambda>x. if x - d < n then m (s + (x - d)) else m x)"
  using assms
proof (induction m d s n rule: memcpy.induct)
  case (1 m d s n)
  show ?case
  proof (cases "n = 0")
    case True
    then show ?thesis by (simp add: memcpy.simps)
  next
    case False
    have "d + 1 = s + 1 \<or> n - 1 \<le> (d + 1) - (s + 1)"
      using "1.prems" False by (auto simp: word_le_nat_alt unat_minus_one)
    from "1.IH" [OF False this] have "memcpy (m(d := m s)) (d + 1) (s + 1) (n - 1) =
        (\<lambda>x. if x - (d + 1) < n - 1 then (m(d := m s)) (s + 1 + (x - (d + 1))) else (m(d := m s)) x)" .
    moreover have "memcpy m d s n = memcpy (m(d := m s)) (d + 1) (s + 1) (n - 1)"
      using False by (subst memcpy.simps) simp
    ultimately have eq: "memcpy m d s n =
        (\<lambda>x. if x - (d + 1) < n - 1 then (m(d := m s)) (s + 1 + (x - (d + 1))) else (m(d := m s)) x)"
      by (rule trans [rotated])
    have keep: "s + 1 + (x - (d + 1)) = d \<Longrightarrow> x - (d + 1) < n - 1 \<Longrightarrow> d = s" for x
    proof -
      assume e: "s + 1 + (x - (d + 1)) = d" and l: "x - (d + 1) < n - 1"
      define y where "y = x - (d + 1)"
      from e have "d - s = y + 1" by (simp add: y_def algebra_simps)
      moreover have "unat (y + 1) < unat n"
        using l unat_Suc_less [of y "n - 1"] False
        by (simp add: y_def [symmetric] word_less_nat_alt unat_minus_one)
      ultimately have "d - s < n" by (simp add: word_less_nat_alt)
      with "1.prems" show "d = s" by auto
    qed
    have "(if x - (d + 1) < n - 1 then (m(d := m s)) (s + 1 + (x - (d + 1))) else (m(d := m s)) x)
        = (if x - d < n then m (s + (x - d)) else m x)" for x
      using offset_step [OF False, of x d] keep [of x] by (auto simp: algebra_simps)
    with eq show ?thesis by (simp add: fun_eq_iff)
  qed
qed

lemma memcmp_zero_iff: "memcmp m x y n = 0 \<longleftrightarrow> (\<forall>i < n. m (x + i) = m (y + i))"
proof (induction m x y n rule: memcmp.induct)
  case (1 m x y n)
  show ?case
  proof (cases "n = 0")
    case True
    then show ?thesis by (simp add: memcmp.simps)
  next
    case False
    have step: "i < n \<longleftrightarrow> i = 0 \<or> i - 1 < n - 1" for i
      using offset_step [OF False, of i 0] by simp
    have "(\<forall>i < n - 1. m (x + 1 + i) = m (y + 1 + i)) \<longleftrightarrow> (\<forall>i. i - 1 < n - 1 \<longrightarrow> m (x + i) = m (y + i))"
    proof safe
      fix i assume h: "\<forall>i < n - 1. m (x + 1 + i) = m (y + 1 + i)" "i - 1 < n - 1"
      from h(1) [rule_format, OF h(2)] show "m (x + i) = m (y + i)" by simp
    next
      fix i assume h: "\<forall>i. i - 1 < n - 1 \<longrightarrow> m (x + i) = m (y + i)" "i < n - 1"
      from h(1) [rule_format, of "1 + i"] h(2) show "m (x + 1 + i) = m (y + 1 + i)"
        by (simp add: add.assoc)
    qed
    then have IH: "memcmp m (x + 1) (y + 1) (n - 1) = 0 \<longleftrightarrow> (\<forall>i. i - 1 < n - 1 \<longrightarrow> m (x + i) = m (y + i))"
      if "m x = m y" using "1.IH" [OF False] that by simp
    show ?thesis
    proof (cases "m x = m y")
      case True
      then have "memcmp m x y n = memcmp m (x + 1) (y + 1) (n - 1)"
        using False by (subst memcmp.simps) simp
      moreover have "(\<forall>i < n. m (x + i) = m (y + i)) \<longleftrightarrow> (\<forall>i. i - 1 < n - 1 \<longrightarrow> m (x + i) = m (y + i))"
        using True by (metis step add.right_neutral)
      ultimately show ?thesis using IH [OF True] by argo
    next
      case diff: False
      then have "\<not> (\<forall>i < n. m (x + i) = m (y + i))"
        using False step [of 0] by (metis add.right_neutral)
      moreover have "memcmp m x y n \<noteq> 0"
        using False diff by (simp add: memcmp.simps [of m x y n] word_uint_eq_iff)
      ultimately show ?thesis by blast
    qed
  qed
qed

subsection \<open>C strings\<close>

primrec cstr :: "mem \<Rightarrow> u64 \<Rightarrow> u8 list \<Rightarrow> bool" where
  "cstr m p [] \<longleftrightarrow> m p = 0"
| "cstr m p (c # cs) \<longleftrightarrow> m p = c \<and> c \<noteq> 0 \<and> cstr m (p + 1) cs"

lemma cstr_unique: "cstr m p s \<Longrightarrow> cstr m p t \<Longrightarrow> s = t"
proof (induction s arbitrary: p t)
  case Nil
  then show ?case by (cases t) auto
next
  case (Cons c cs)
  then show ?case by (cases t) auto
qed

lemma cstr_nonzero: "cstr m p s \<Longrightarrow> 0 \<notin> set s"
  by (induction s arbitrary: p) auto

lemma cstr_write_other:
  assumes "cstr m p s" and "\<forall>i \<le> length s. q \<noteq> p + of_nat i"
  shows "cstr (m(q := v)) p s"
  using assms
proof (induction s arbitrary: p)
  case Nil
  then show ?case by auto
next
  case (Cons c cs)
  have "q \<noteq> p" using Cons.prems(2) [rule_format, of 0] by simp
  moreover have "\<forall>i \<le> length cs. q \<noteq> p + 1 + of_nat i"
    using Cons.prems(2) [rule_format, of "Suc _"] by (simp add: add.assoc)
  ultimately show ?case using Cons by auto
qed

lemma strlen_loop_cstr:
  "cstr m (p + n) s \<Longrightarrow> strlen_loop m p n = Some (n + of_nat (length s))"
proof (induction s arbitrary: n)
  case Nil
  then show ?case by (simp add: strlen_loop.simps)
next
  case (Cons c cs)
  then have "strlen_loop m p (n + 1) = Some (n + 1 + of_nat (length cs))" by (simp add: add.assoc)
  with Cons.prems show ?case by (simp add: strlen_loop.simps [of m p n] add.assoc)
qed

lemma strlen_cstr: "cstr m p s \<Longrightarrow> strlen m p = Some (of_nat (length s))"
  using strlen_loop_cstr [of m p 0 s] by (simp add: strlen_def)

text \<open>The comparison the code computes: the difference of the first bytes that differ.\<close>

fun bytes_diff :: "u8 list \<Rightarrow> u8 list \<Rightarrow> int" where
  "bytes_diff [] [] = 0"
| "bytes_diff [] (d # ds) = - uint d"
| "bytes_diff (c # cs) [] = uint c"
| "bytes_diff (c # cs) (d # ds) = (if c = d then bytes_diff cs ds else uint c - uint d)"

lemma bytes_diff_zero_iff: "0 \<notin> set s \<Longrightarrow> 0 \<notin> set t \<Longrightarrow> bytes_diff s t = 0 \<longleftrightarrow> s = t"
proof (induction s t rule: bytes_diff.induct)
  case (4 c cs d ds)
  then show ?case by (cases "c = d") (simp_all add: word_uint_eq_iff)
qed (auto simp: word_uint_eq_iff)

lemma strcmp_cstr: "cstr m a s \<Longrightarrow> cstr m b t \<Longrightarrow> strcmp m a b = Some (bytes_diff s t)"
proof (induction s t arbitrary: a b rule: bytes_diff.induct)
  case (4 c cs d ds)
  then show ?case by (auto simp: strcmp.simps [of m a b])
qed (auto simp: strcmp.simps)

lemma strcmp_equal: "cstr m a s \<Longrightarrow> cstr m b t \<Longrightarrow> strcmp m a b = Some 0 \<longleftrightarrow> s = t"
  by (simp add: strcmp_cstr bytes_diff_zero_iff cstr_nonzero)

subsection \<open>Numbers as text\<close>

lemma itoa_loop_nonneg:
  assumes "0 \<le> v" "v < 2 ^ 31" "2 \<le> base" "base \<le> 16"
  shows "itoa_loop base v = Some (itoa_digits (word_of_int base) (word_of_int v))"
  using assms
proof (induction base v rule: itoa_loop.induct)
  case (1 base v)
  show ?case
  proof (cases "v = 0")
    case True
    then show ?thesis by (simp add: itoa_loop.simps itoa_digits.simps)
  next
    case False
    have m: "v smod base = v mod base" "v sdiv base = v div base"
      using "1.prems" False by (simp_all add: signed_modulo_int_def signed_divide_int_def sgn_if)
    have nn: "\<not> v mod base < 0" "0 \<le> v mod base" "0 \<le> v div base"
      using "1.prems" by (simp_all add: pos_imp_zdiv_nonneg_iff not_less)
    have lt: "v div base < 2 ^ 31" using "1.prems"
      by (smt (verit) int_div_less_self div_by_0 zdiv_mono2 div_by_1)
    have IH: "itoa_loop base (v div base) = Some (itoa_digits (word_of_int base) (word_of_int (v div base)))"
      using "1.IH" "1.prems" False m nn lt by simp
    have u: "uint (word_of_int v :: u64) = v" "uint (word_of_int base :: u64) = base"
      using "1.prems" by (simp_all add: uint_word_of_int)
    have w: "word_of_int v div word_of_int base = (word_of_int (v div base) :: u64)"
        "word_of_int v mod word_of_int base = (word_of_int (v mod base) :: u64)"
      by (simp_all add: word_div_def word_mod_def u)
    have nz: "word_of_int v \<noteq> (0 :: u64)" "\<not> word_of_int base < (2 :: u64)"
      using False u "1.prems" by (simp_all add: word_less_def word_uint_eq_iff)
    have um: "unat (word_of_int (v mod base) :: u64) = nat (v mod base)"
    proof -
      have "v mod base < 16" using "1.prems" by (smt (verit) pos_mod_bound)
      then show ?thesis using nn by (simp add: unat_eq_nat_uint uint_word_of_int)
    qed
    have pos: "\<not> base < 2" "\<not> v smod base < 0" using "1.prems" nn m by linarith+
    show ?thesis
      using False pos nz by (simp add: itoa_loop.simps [of base v] m IH
          itoa_digits.simps [of "word_of_int base" "word_of_int v"] w um)
  qed
qed

text \<open>The number a list of digits, least significant first, stands for.\<close>

definition digit_val :: "u8 \<Rightarrow> nat" where
  "digit_val c = (if c < 58 then unat c - 48 else unat c - 55)"

fun text_val :: "nat \<Rightarrow> u8 list \<Rightarrow> nat" where
  "text_val base [] = 0"
| "text_val base (c # cs) = digit_val c + base * text_val base cs"

lemma digit_val_digits: "k < 16 \<Longrightarrow> digit_val (digits k) = k"
proof -
  assume "k < 16"
  then have "k \<in> set [0..<16]" by simp
  moreover have "\<forall>k \<in> set [0..<16]. digit_val (digits k) = k" by code_simp
  ultimately show ?thesis by blast
qed

lemma digits_printable: "k < 16 \<Longrightarrow> digits k \<noteq> 0 \<and> digits k \<noteq> 45"
proof -
  assume "k < 16"
  then have "k \<in> set [0..<16]" by simp
  moreover have "\<forall>k \<in> set [0..<16]. digits k \<noteq> 0 \<and> digits k \<noteq> 45" by code_simp
  ultimately show ?thesis by blast
qed

lemma itoa_digits_val:
  assumes "2 \<le> base" "base \<le> 16"
  shows "text_val (unat base) (itoa_digits base v) = unat v"
  using assms
proof (induction base v rule: itoa_digits.induct)
  case (1 base v)
  show ?case
  proof (cases "v = 0")
    case True
    then show ?thesis by (simp add: itoa_digits.simps)
  next
    case False
    have b: "\<not> base < 2" using "1.prems" by (simp add: not_less)
    have le: "unat base \<le> 16" "2 \<le> unat base" using "1.prems" by (simp_all add: word_le_nat_alt)
    then have "unat v mod unat base < 16"
      by (meson mod_less_divisor order_less_le_trans zero_less_numeral less_le_trans)
    then have d: "digit_val (digits (unat (v mod base))) = unat v mod unat base"
      by (simp add: digit_val_digits unat_mod_distrib)
    have "text_val (unat base) (itoa_digits base (v div base)) = unat v div unat base"
      using "1.IH" False b "1.prems" by (simp add: unat_div_distrib)
    then show ?thesis using False b by (simp add: itoa_digits.simps [of base v] d)
  qed
qed

lemma itoa_digits_length:
  assumes "2 \<le> base" "unat v < 2 ^ k"
  shows "length (itoa_digits base v) \<le> k"
  using assms
proof (induction base v arbitrary: k rule: itoa_digits.induct)
  case (1 base v)
  show ?case
  proof (cases "v = 0")
    case True
    then show ?thesis by (simp add: itoa_digits.simps)
  next
    case False
    have b: "\<not> base < 2" using "1.prems" by (simp add: not_less)
    obtain j where k: "k = Suc j" using False "1.prems"(2) by (cases k) (auto simp: unat_eq_0)
    have "unat v div unat base \<le> unat v div 2"
      using "1.prems"(1) by (intro div_le_mono2) (simp_all add: word_le_nat_alt)
    also have "\<dots> < 2 ^ j" using "1.prems"(2) k by (simp add: less_mult_imp_div_less mult.commute)
    finally have "length (itoa_digits base (v div base)) \<le> j"
      using "1.IH" False b "1.prems"(1) by (simp add: unat_div_distrib)
    then show ?thesis using False b k by (simp add: itoa_digits.simps [of base v])
  qed
qed

lemma itoa_digits_printable:
  assumes "2 \<le> base" "base \<le> 16"
  shows "0 \<notin> set (itoa_digits base v) \<and> 45 \<notin> set (itoa_digits base v)"
  using assms
proof (induction base v rule: itoa_digits.induct)
  case (1 base v)
  show ?case
  proof (cases "v = 0 \<or> base < 2")
    case True
    then show ?thesis by (simp add: itoa_digits.simps)
  next
    case False
    have "unat v mod unat base < unat base"
      using "1.prems" by (intro mod_less_divisor) (simp add: word_le_nat_alt)
    moreover have "unat base \<le> 16" using "1.prems" by (simp add: word_le_nat_alt)
    ultimately have "unat (v mod base) < 16" by (simp add: unat_mod_distrib)
    from digits_printable [OF this] have "0 \<noteq> digits (unat (v mod base))" "45 \<noteq> digits (unat (v mod base))"
      by metis+
    moreover have "itoa_digits base v = digits (unat (v mod base)) # itoa_digits base (v div base)"
      using False by (subst itoa_digits.simps) simp
    ultimately show ?thesis using "1.IH" [OF False] "1.prems" by simp
  qed
qed

text \<open>Writing bytes that do not wrap onto themselves.\<close>

lemma write_bytes_eq:
  assumes "length bs \<le> 2 ^ 64"
  shows "write_bytes m p bs = (\<lambda>x. if unat (x - p) < length bs then bs ! unat (x - p) else m x)"
  using assms
proof (induction bs arbitrary: m p)
  case Nil
  then show ?case by simp
next
  case (Cons b bs)
  have IH: "write_bytes (m(p := b)) (p + 1) bs =
      (\<lambda>x. if unat (x - (p + 1)) < length bs then bs ! unat (x - (p + 1)) else (m(p := b)) x)"
    using Cons by simp
  have "(if unat (x - (p + 1)) < length bs then bs ! unat (x - (p + 1)) else (m(p := b)) x) =
        (if unat (x - p) < length (b # bs) then (b # bs) ! unat (x - p) else m x)" for x
  proof (cases "x = p")
    case True
    have "unat (- 1 :: u64) = 2 ^ 64 - 1" by (simp add: unsigned_minus_1_eq_mask mask_eq_exp_minus_1)
    then show ?thesis using True Cons.prems by simp
  next
    case False
    then have "x - p \<noteq> 0" by simp
    then have "unat (x - p) = Suc (unat (x - p - 1))" using unat_minus_one [of "x - p"] by (simp add: unat_gt_0)
    then have "unat (x - p) = Suc (unat (x - (p + 1)))" by (simp add: algebra_simps)
    then show ?thesis using False by simp
  qed
  then show ?case by (simp add: IH fun_eq_iff)
qed

lemma cstr_nth:
  "cstr m p s \<longleftrightarrow> (\<forall>i < length s. m (p + of_nat i) = s ! i \<and> s ! i \<noteq> 0) \<and> m (p + of_nat (length s)) = 0"
proof (induction s arbitrary: p)
  case Nil
  then show ?case by simp
next
  case (Cons c cs)
  show ?case by (simp add: Cons.IH All_less_Suc2 add.assoc)
qed

lemma cstr_write_bytes:
  assumes "0 \<notin> set s" and "length s < 2 ^ 64"
  shows "cstr (write_bytes m p (s @ [0])) p s"
proof -
  have "unat (of_nat i :: u64) = i" if "i \<le> length s" for i
    using that assms(2) by (simp add: unat_of_nat)
  then show ?thesis
    using assms nth_mem by (fastforce simp: cstr_nth write_bytes_eq nth_append)
qed

lemma itoa_digits_nonzero: "2 \<le> base \<Longrightarrow> base \<le> 16 \<Longrightarrow> 0 \<notin> set (itoa_digits base v)"
  using itoa_digits_printable by blast

lemma itoa_uint64_text:
  assumes "2 \<le> base" "base \<le> 16" "v \<noteq> 0"
  shows "cstr (itoa_uint64 m v buf base) buf (rev (itoa_digits base v))"
proof -
  have "length (itoa_digits base v) < 2 ^ 64"
    using itoa_digits_length [of base v 64] assms(1) unat_lt_2p64 [of v] by simp
  then show ?thesis
    using assms by (simp add: itoa_uint64_def leD cstr_write_bytes itoa_digits_nonzero)
qed

lemma itoa_loop_negative:
  assumes "v < 0" "2 \<le> base"
  shows "itoa_loop base v = None"
  using assms
proof (induction base v rule: itoa_loop.induct)
  case (1 base v)
  show ?case
  proof (cases "v smod base < 0")
    case True
    then show ?thesis using "1.prems" by (simp add: itoa_loop.simps)
  next
    case False
    have "v smod base = - (- v mod base)" "v sdiv base = - (- v div base)"
      using "1.prems" by (simp_all add: signed_modulo_int_def signed_divide_int_def)
    moreover have "0 \<le> - v mod base" using "1.prems" by simp
    ultimately have "- v mod base = 0" using False by linarith
    then have "- v = base * (- v div base)" by (metis add_0_right mult_div_mod_eq)
    then have "0 < - v div base" using "1.prems" by (smt (verit) mult_nonneg_nonpos)
    then have "v sdiv base < 0" using \<open>v sdiv base = _\<close> by linarith
    then have "itoa_loop base (v sdiv base) = None" using "1.IH" "1.prems" False by simp
    then show ?thesis using "1.prems" False by (simp add: itoa_loop.simps [of base v])
  qed
qed

text \<open>Reading a number back: an optional minus sign and digits, most significant first.\<close>

fun parse_text :: "nat \<Rightarrow> u8 list \<Rightarrow> int" where
  "parse_text base [] = 0"
| "parse_text base (c # cs) =
     (if c = 45 then - int (text_val base (rev cs)) else int (text_val base (rev (c # cs))))"

lemma parse_text_plain: "s \<noteq> [] \<Longrightarrow> 45 \<notin> set s \<Longrightarrow> parse_text base s = int (text_val base (rev s))"
  by (cases s) auto

lemma itoa_digits_nonempty: "v \<noteq> 0 \<Longrightarrow> 2 \<le> base \<Longrightarrow> itoa_digits base v \<noteq> []"
  by (subst itoa_digits.simps) (simp add: leD)

lemma digit_val_48 [simp]: "digit_val 48 = 0"
  by (simp add: digit_val_def)

lemma itoa_uint64_parse:
  assumes "2 \<le> base" "base \<le> 16"
  shows "\<exists>s. cstr (itoa_uint64 m v buf base) buf s \<and> text_val (unat base) (rev s) = unat v \<and> length s \<le> 64"
proof (cases "v = 0")
  case True
  have "cstr (write_bytes m buf ([48] @ [0])) buf [48]" by (rule cstr_write_bytes) simp_all
  then have "cstr (itoa_uint64 m v buf base) buf [48]"
    using assms True by (simp add: itoa_uint64_def leD)
  then show ?thesis using True by (intro exI [of _ "[48]"]) simp
next
  case False
  have "length (itoa_digits base v) \<le> 64"
    using itoa_digits_length [of base v 64] assms(1) unat_lt_2p64 [of v] by simp
  then show ?thesis
    using itoa_uint64_text [OF assms False] itoa_digits_val [OF assms]
    by (intro exI [of _ "rev (itoa_digits base v)"]) simp
qed

lemma itoa_parse:
  assumes "2 \<le> base" "base \<le> 16" and "- (2 ^ 31) < v" "v < 2 ^ 31" and "0 \<le> v \<or> base = 10"
  shows "\<exists>m' s. itoa m v buf base = Some m' \<and> cstr m' buf s \<and> parse_text (nat base) s = v \<and> length s \<le> 32"
proof (cases "v = 0")
  case True
  have "cstr (write_bytes m buf ([48] @ [0])) buf [48]" by (rule cstr_write_bytes) simp_all
  then show ?thesis using assms True by (auto simp: itoa_def intro!: exI [of _ "[48]"])
next
  case False
  define b :: u64 where "b = word_of_int base"
  define w :: u64 where "w = word_of_int \<bar>v\<bar>"
  define ds where "ds = itoa_digits b w"
  have ub: "uint b = base" "uint w = \<bar>v\<bar>" using assms by (simp_all add: b_def w_def uint_word_of_int)
  have b: "2 \<le> b" "b \<le> 16" "w \<noteq> 0" "unat b = nat base" "unat w = nat \<bar>v\<bar>"
    using assms False ub by (simp_all add: word_le_def word_uint_eq_iff unat_eq_nat_uint)
  have loop: "itoa_loop base \<bar>v\<bar> = Some ds"
    using itoa_loop_nonneg [of "\<bar>v\<bar>" base] assms by (simp add: ds_def b_def w_def)
  have len: "length ds \<le> 31" unfolding ds_def
    using b(1,5) assms(3,4) by (intro itoa_digits_length) simp_all
  have val: "text_val (nat base) ds = nat \<bar>v\<bar>"
    using itoa_digits_val [OF b(1,2), of w] b by (simp add: ds_def)
  have pr: "0 \<notin> set ds" "45 \<notin> set ds" "ds \<noteq> []"
    using itoa_digits_printable [OF b(1,2)] itoa_digits_nonempty [OF b(3,1)] by (auto simp: ds_def)
  define s where "s = (if v < 0 then 45 # rev ds else rev ds)"
  have "cstr (write_bytes m buf (s @ [0])) buf s"
    using pr len by (intro cstr_write_bytes) (auto simp: s_def)
  moreover have "itoa m v buf base = Some (write_bytes m buf (s @ [0]))"
    using assms False loop by (auto simp: itoa_def s_def Let_def)
  moreover have "parse_text (nat base) s = v"
    using val pr by (auto simp: s_def parse_text_plain)
  moreover have "length s \<le> 32" using len by (simp add: s_def)
  ultimately show ?thesis by blast
qed

subsection \<open>Copies and bounded comparison\<close>

lemma cstr_length:
  assumes "cstr m p s"
  shows "length s < 2 ^ 64"
proof (rule ccontr)
  assume "\<not> length s < 2 ^ 64"
  then obtain k where k: "length s = 2 ^ 64 + k" by (metis le_Suc_ex not_less)
  have "of_nat (2 ^ 64 + k) = (of_nat k :: u64)"
    by (simp add: word_of_nat_eq_iff take_bit_eq_mod)
  moreover have "m (p + of_nat (length s)) = 0" using assms cstr_nth by blast
  ultimately have "m (p + of_nat k) = 0" unfolding k by metis
  moreover have "k < length s" using k by simp
  ultimately show False using assms by (metis cstr_nth)
qed

lemma write_bytes_append: "write_bytes m p (xs @ ys) = write_bytes (write_bytes m p xs) (p + of_nat (length xs)) ys"
  by (induction xs arbitrary: m p) (simp_all add: add.assoc)

definition apart :: "u64 \<Rightarrow> nat \<Rightarrow> u64 \<Rightarrow> nat \<Rightarrow> bool" where
  "apart p a q b \<longleftrightarrow> (\<forall>i < a. \<forall>j < b. p + of_nat i \<noteq> q + of_nat j)"

lemma apart_Suc:
  "apart p (Suc a) q (Suc b) \<Longrightarrow> p \<noteq> q \<and> apart (p + 1) a (q + 1) b \<and> (\<forall>j < b. p \<noteq> q + 1 + of_nat j)"
  unfolding apart_def All_less_Suc2 by (simp add: add.assoc)

lemma strcpy_cstr:
  assumes "cstr m src s" and "apart dst (Suc (length s)) src (Suc (length s))"
  shows "strcpy m dst src = Some (write_bytes m dst (s @ [0]))"
  using assms
proof (induction s arbitrary: m dst src)
  case Nil
  then show ?case by (simp add: strcpy.simps fun_upd_def)
next
  case (Cons c cs)
  note ap = apart_Suc [OF Cons.prems(2)]
  have "cstr (m(dst := c)) (src + 1) cs"
    using Cons.prems(1) ap by (intro cstr_write_other) (auto simp: le_imp_less_Suc)
  then have "strcpy (m(dst := c)) (dst + 1) (src + 1) = Some (write_bytes (m(dst := c)) (dst + 1) (cs @ [0]))"
    using ap by (intro Cons.IH) (simp_all del: fun_upd_apply)
  with Cons.prems(1) show ?case by (simp add: strcpy.simps [of m dst src])
qed

lemma memset_write_bytes: "memset m p v n = write_bytes m p (replicate (unat n) v)"
proof (induction m p v n rule: memset.induct)
  case (1 m p v n)
  show ?case
  proof (cases "n = 0")
    case True
    then show ?thesis by (simp add: memset.simps)
  next
    case False
    then have "unat n = Suc (unat (n - 1))" using unat_minus_one [of n] by (simp add: unat_gt_0)
    moreover have "memset m p v n = memset (m(p := v)) (p + 1) v (n - 1)"
      using False by (subst memset.simps) simp
    ultimately show ?thesis using "1.IH" [OF False] by (simp del: fun_upd_apply)
  qed
qed

text \<open>What \<^verbatim>\<open>strncpy\<close> writes: a source of \<open>n\<close> bytes or more is cut off, a shorter one is padded.\<close>

definition strncpy_bytes :: "u8 list \<Rightarrow> nat \<Rightarrow> u8 list" where
  "strncpy_bytes s n = (if n \<le> length s then take n s else s @ replicate (Suc n - length s) 0)"

lemma strncpy_cstr:
  assumes "cstr m src s" and "apart dst (Suc (length s)) src (Suc (length s))"
  shows "strncpy m dst src n = write_bytes m dst (strncpy_bytes s (unat n))"
  using assms
proof (induction s arbitrary: m dst src n)
  case Nil
  then show ?case
    by (auto simp: strncpy_def strncpy_copy.simps strncpy_bytes_def memset_write_bytes unat_eq_0 fun_upd_def)
next
  case (Cons c cs)
  show ?case
  proof (cases "n = 0")
    case True
    then show ?thesis by (simp add: strncpy_def strncpy_copy.simps strncpy_bytes_def memset.simps)
  next
    case False
    note ap = apart_Suc [OF Cons.prems(2)]
    have "cstr (m(dst := c)) (src + 1) cs"
      using Cons.prems(1) ap by (intro cstr_write_other) (auto simp: le_imp_less_Suc)
    then have "strncpy (m(dst := c)) (dst + 1) (src + 1) (n - 1) =
        write_bytes (m(dst := c)) (dst + 1) (strncpy_bytes cs (unat (n - 1)))"
      using ap by (intro Cons.IH) (simp_all del: fun_upd_apply)
    moreover have "strncpy m dst src n = strncpy (m(dst := c)) (dst + 1) (src + 1) (n - 1)"
      using False Cons.prems(1) by (simp add: strncpy_def strncpy_copy.simps [of m dst src n])
    moreover have "strncpy_bytes (c # cs) (unat n) = c # strncpy_bytes cs (unat (n - 1))"
      using False unat_minus_one [OF False] unat_gt_0 [of n] by (cases "unat n") (simp_all add: strncpy_bytes_def)
    ultimately show ?thesis by simp
  qed
qed

lemma strncmp_zero: "strncmp m a b 0 = 0"
  by (simp add: strncmp_def strncmp_loop.simps)

lemma strncmp_stop:
  assumes "n \<noteq> 0" "n \<le> 2 ^ 31" "m a = 0 \<or> m a \<noteq> m b"
  shows "strncmp m a b n = uint (m a) - uint (m b)"
proof -
  have "unat (n - 1) < 2 ^ 31"
    using assms unat_minus_one [of n] unat_gt_0 [of n] by (simp add: word_le_nat_alt)
  then have "\<not> bit (unat (n - 1)) 31" by (simp add: bit_iff_odd)
  then have "\<not> bit (n - 1) 31" by (simp add: bit_unsigned_iff)
  moreover have "strncmp_loop m a b n = (a, b, n - 1)"
    using assms(3) by (subst strncmp_loop.simps) auto
  ultimately show ?thesis by (simp add: strncmp_def)
qed

lemma strncmp_cstr:
  assumes "cstr m a s" "cstr m b t" "n \<le> 2 ^ 31"
  shows "strncmp m a b n = bytes_diff (take (unat n) s) (take (unat n) t)"
  using assms
proof (induction s t arbitrary: a b n rule: bytes_diff.induct)
  case (4 c cs d ds)
  show ?case
  proof (cases "n \<noteq> 0 \<and> c = d")
    case True
    have u: "unat n = Suc (unat (n - 1))" using True unat_minus_one [of n] by (simp add: unat_gt_0)
    have "n - 1 \<le> 2 ^ 31" using "4.prems"(3) u by (simp add: word_le_nat_alt)
    then have "strncmp m (a + 1) (b + 1) (n - 1) = bytes_diff (take (unat (n - 1)) cs) (take (unat (n - 1)) ds)"
      using True "4.prems" by (intro "4.IH") simp_all
    moreover have "strncmp m a b n = strncmp m (a + 1) (b + 1) (n - 1)"
      using True "4.prems" by (simp add: strncmp_def strncmp_loop.simps [of m a b n])
    ultimately show ?thesis using True by (simp add: u)
  next
    case False
    then show ?thesis
      using "4.prems" by (auto simp: strncmp_zero strncmp_stop unat_eq_0 take_Cons' diff_Suc split: nat.splits)
  qed
next
  case 1
  then show ?case by (cases "n = 0") (simp_all add: strncmp_zero strncmp_stop)
qed (auto simp: strncmp_zero strncmp_stop take_Cons' unat_eq_0)

subsection \<open>Splitting a string at its delimiters\<close>

lemma is_delim_cstr: "cstr m d ds \<Longrightarrow> is_delim m c d = Some (c \<in> set ds)"
  by (induction ds arbitrary: d) (auto simp: is_delim.simps)

lemma cstr_append: "cstr m p (xs @ ys) \<Longrightarrow> cstr m (p + of_nat (length xs)) ys"
  by (induction xs arbitrary: p) (auto simp: add.assoc [symmetric])

lemma of_nat_eq_u64: "i < 2 ^ 64 \<Longrightarrow> j < 2 ^ 64 \<Longrightarrow> (of_nat i :: u64) = of_nat j \<longleftrightarrow> i = j"
  by (simp add: word_of_nat_eq_iff take_bit_nat_eq_self)

lemma cstr_cut:
  assumes "cstr m p (xs @ y # zs)"
  defines "e \<equiv> p + of_nat (length xs)"
  shows "cstr (m(e := 0)) p xs" and "cstr (m(e := 0)) (e + 1) zs"
proof -
  have len: "length xs + length zs + 1 < 2 ^ 64" using cstr_length [OF assms(1)] by simp
  have ne: "e \<noteq> p + of_nat i" if "i < 2 ^ 64" "i \<noteq> length xs" for i
    using that len of_nat_eq_u64 [of "length xs" i] by (simp add: e_def)
  have nth: "m (p + of_nat i) = (xs @ y # zs) ! i \<and> (xs @ y # zs) ! i \<noteq> 0" if "i < length (xs @ y # zs)" for i
    using assms(1) that unfolding cstr_nth by blast
  have "m (p + of_nat i) = xs ! i \<and> xs ! i \<noteq> 0 \<and> e \<noteq> p + of_nat i" if "i < length xs" for i
    using nth [of i] ne [of i] that len by (simp add: nth_append)
  then show "cstr (m(e := 0)) p xs" by (simp add: cstr_nth e_def) metis
  have "cstr m (e + 1) zs" using cstr_append [OF assms(1)] by (simp add: e_def)
  moreover have "e \<noteq> e + 1 + of_nat i" if "i \<le> length zs" for i
  proof -
    have "e \<noteq> p + of_nat (length xs + 1 + i)" using that len by (intro ne) simp_all
    then show ?thesis by (simp add: e_def algebra_simps)
  qed
  ultimately show "cstr (m(e := 0)) (e + 1) zs" by (intro cstr_write_other) simp_all
qed

lemma skip_delims_cstr:
  assumes "cstr m delim ds" "cstr m p s"
  shows "skip_delims m delim p = Some (p + of_nat (length (takeWhile (\<lambda>c. c \<in> set ds) s)))"
  using assms(2)
proof (induction s arbitrary: p)
  case Nil
  then show ?case by (simp add: skip_delims.simps)
next
  case (Cons c cs)
  then show ?case
    by (simp add: skip_delims.simps [of m delim p] is_delim_cstr [OF assms(1)] add.assoc)
qed

lemma scan_token_cstr:
  assumes "cstr m delim ds" "cstr m p s"
  shows "scan_token m delim p =
    (let tok = takeWhile (\<lambda>c. c \<notin> set ds) s; e = p + of_nat (length tok)
     in Some (if tok = s then (m, e) else (m(e := 0), e + 1)))"
  using assms(2)
proof (induction s arbitrary: p)
  case Nil
  then show ?case by (simp add: scan_token.simps)
next
  case (Cons c cs)
  then show ?case
    by (simp add: scan_token.simps [of m delim p] is_delim_cstr [OF assms(1)] Let_def add.assoc)
qed

text \<open>One call cuts the first token off the string at \<open>p\<close> and saves where the rest starts.\<close>

lemma strtok_r_cstr:
  assumes "cstr m delim ds" "cstr m p s" "str = p \<and> p \<noteq> 0 \<or> str = 0 \<and> save = p"
  shows "strtok_r m str delim save =
    (let rest = dropWhile (\<lambda>c. c \<in> set ds) s;
         a = p + of_nat (length s - length rest);
         tok = takeWhile (\<lambda>c. c \<notin> set ds) rest;
         e = a + of_nat (length tok)
     in if rest = [] then Some (m, 0, a)
        else if tok = rest then Some (m, a, e) else Some (m(e := 0), a, e + 1))"
proof -
  define pre where "pre = takeWhile (\<lambda>c. c \<in> set ds) s"
  define rest where "rest = dropWhile (\<lambda>c. c \<in> set ds) s"
  have s: "s = pre @ rest" by (simp add: pre_def rest_def)
  then have len: "length s - length rest = length pre" and nil: "rest = [] \<Longrightarrow> length pre = length s" by simp_all
  have c: "cstr m (p + of_nat (length pre)) rest" using assms(2) cstr_append s by metis
  have src: "(if str = 0 then save else str) = p" using assms(3) by auto
  have z: "m (p + of_nat (length pre)) = 0 \<longleftrightarrow> rest = []" using c by (cases rest) auto
  show ?thesis
    unfolding strtok_r_def src
    using skip_delims_cstr [OF assms(1,2)] scan_token_cstr [OF assms(1) c]
    by (simp add: pre_def [symmetric] rest_def [symmetric] len z nil Let_def)
qed

function tokens :: "u8 set \<Rightarrow> u8 list \<Rightarrow> u8 list list" where
  "tokens D s =
     (case dropWhile (\<lambda>c. c \<in> D) s of
        [] \<Rightarrow> []
      | c # cs \<Rightarrow> takeWhile (\<lambda>c. c \<notin> D) (c # cs) # tokens D (dropWhile (\<lambda>c. c \<notin> D) cs))"
  by pat_completeness auto
termination
proof (relation "measure (\<lambda>(D, s). length s)"; clarsimp)
  fix D :: "u8 set" and s c cs
  assume "dropWhile (\<lambda>c. c \<in> D) s = c # cs"
  then have "Suc (length cs) \<le> length s" by (metis length_Cons length_dropWhile_le)
  then show "length (dropWhile (\<lambda>c. c \<notin> D) cs) < length s"
    using length_dropWhile_le [of "\<lambda>c. c \<notin> D" cs] by linarith
qed

declare tokens.simps [simp del]

text \<open>
  The loop of the callers: the first call with the string, the following ones with \<^verbatim>\<open>NULL\<close>, until no
  token is left.
\<close>

partial_function (option) tokenize :: "mem \<Rightarrow> u64 \<Rightarrow> u64 \<Rightarrow> u64 \<Rightarrow> (mem \<times> u64 list) option" where
  "tokenize m str delim save =
     Option.bind (strtok_r m str delim save)
       (\<lambda>(m', token, save').
          if token = 0 then Some (m', [])
          else Option.bind (tokenize m' 0 delim save') (\<lambda>(m'', ts). Some (m'', token # ts)))"

lemma tokens_Nil: "tokens D [] = []"
  by (simp add: tokens.simps)

lemma tokens_delim: "y \<in> D \<Longrightarrow> tokens D (y # zs) = tokens D zs"
  by (simp add: tokens.simps)

lemma tokens_step:
  assumes "dropWhile (\<lambda>c. c \<in> D) s = rest" "rest \<noteq> []" "tok = takeWhile (\<lambda>c. c \<notin> D) rest"
  shows "tokens D s = tok # tokens D (drop (Suc (length tok)) rest)"
proof -
  obtain c cs where r: "rest = c # cs" using assms(2) by (cases rest) auto
  then have c: "c \<notin> D" using assms(1) by (metis hd_dropWhile list.distinct(1) list.sel(1))
  have dw: "dropWhile (\<lambda>c. c \<notin> D) cs = drop (length tok) rest"
    using r c assms(3) by (simp add: dropWhile_eq_drop)
  have "tokens D (drop (length tok) rest) = tokens D (drop (Suc (length tok)) rest)"
  proof (cases "drop (length tok) rest")
    case Nil
    then show ?thesis by simp
  next
    case (Cons y zs)
    then have "y \<in> D" using dw hd_dropWhile [of "\<lambda>c. c \<notin> D" cs] by simp
    moreover have "drop (Suc (length tok)) rest = zs" using Cons by (metis drop_Suc list.sel(3) tl_drop)
    ultimately show ?thesis using Cons by (simp add: tokens_delim)
  qed
  then show ?thesis using assms(1,3) r dw by (simp add: tokens.simps [of D s])
qed

lemma cstr_frame:
  "cstr m p s \<Longrightarrow> (\<And>i. i \<le> length s \<Longrightarrow> m' (p + of_nat i) = m (p + of_nat i)) \<Longrightarrow> cstr m' p s"
  unfolding cstr_nth by simp

text \<open>The state after one call, in the form the loop needs.\<close>

lemma strtok_r_next:
  assumes "cstr m delim ds" "cstr m p s" "str = p \<and> p \<noteq> 0 \<or> str = 0 \<and> save = p"
    and "dropWhile (\<lambda>c. c \<in> set ds) s \<noteq> []"
  shows "\<exists>m1 i k tok s'. strtok_r m str delim save = Some (m1, p + of_nat i, p + of_nat k)
     \<and> tokens (set ds) s = tok # tokens (set ds) s' \<and> cstr m1 (p + of_nat i) tok \<and> cstr m1 (p + of_nat k) s'
     \<and> i + length tok < k + (if s' = [] then 1 else 0) \<and> k + length s' \<le> length s \<and> i < k
     \<and> (\<forall>x. m1 x \<noteq> m x \<longrightarrow> (\<exists>j < length s. x = p + of_nat j))"
proof -
  define rest where "rest = dropWhile (\<lambda>c. c \<in> set ds) s"
  define tok where "tok = takeWhile (\<lambda>c. c \<notin> set ds) rest"
  define pre where "pre = takeWhile (\<lambda>c. c \<in> set ds) s"
  have s: "s = pre @ rest" by (simp add: pre_def rest_def)
  then have len: "length s - length rest = length pre" by simp
  have tk: "tok \<noteq> []"
    using assms(4) hd_dropWhile [OF assms(4)] unfolding tok_def rest_def
    by (cases "dropWhile (\<lambda>c. c \<in> set ds) s") simp_all
  have c: "cstr m (p + of_nat (length pre)) rest" using assms(2) cstr_append s by metis
  have tks: "tokens (set ds) s = tok # tokens (set ds) (drop (Suc (length tok)) rest)"
    using tokens_step [OF rest_def [symmetric] _ tok_def] assms(4) rest_def by simp
  note step = strtok_r_cstr [OF assms(1-3), unfolded Let_def, folded rest_def, folded tok_def, unfolded len]
  show ?thesis
  proof (cases "tok = rest")
    case True
    have "cstr m (p + of_nat (length pre + length tok)) []"
      using assms(2) cstr_append [of m p "pre @ rest" "[]"] s True by simp
    then show ?thesis
      using step True assms(4) c tks tk s
      by (intro exI [of _ m] exI [of _ "length pre"] exI [of _ "length pre + length tok"] exI [of _ tok] exI [of _ "[]"])
        (simp add: rest_def [symmetric] add.assoc)
  next
    case False
    then obtain y zs where r: "rest = tok @ y # zs"
      by (metis tok_def append_Nil2 takeWhile_dropWhile_id neq_Nil_conv)
    define e where "e = p + of_nat (length pre) + of_nat (length tok)"
    have cut: "cstr (m(e := 0)) (p + of_nat (length pre)) tok" "cstr (m(e := 0)) (e + 1) zs"
      using cstr_cut [OF c [unfolded r]] by (simp_all add: e_def)
    have e1: "p + of_nat (Suc (length pre + length tok)) = e + 1" by (simp add: e_def algebra_simps)
    have fr: "\<exists>j < length s. x = p + of_nat j" if "(m(e := 0)) x \<noteq> m x" for x
      using that s r by (intro exI [of _ "length pre + length tok"]) (auto simp: e_def add.assoc split: if_splits)
    show ?thesis
      using step False assms(4) cut fr tks s r
      by (intro exI [of _ "m(e := 0)"] exI [of _ "length pre"] exI [of _ "Suc (length pre + length tok)"] exI [of _ tok] exI [of _ zs])
        (simp add: rest_def [symmetric] e_def [symmetric] e1 del: fun_upd_apply of_nat_add of_nat_Suc)
  qed
qed

lemma offsets_distinct:
  "unat p + n < 2 ^ 64 \<Longrightarrow> i \<le> n \<Longrightarrow> j \<le> n \<Longrightarrow> p + of_nat i = p + (of_nat j :: u64) \<longleftrightarrow> i = j"
  by (simp add: of_nat_eq_u64)

lemma offset_nonzero:
  fixes p :: u64
  assumes "unat p + n < 2 ^ 64" "i \<le> n" "p \<noteq> 0"
  shows "p + of_nat i \<noteq> 0"
proof -
  have "unat (of_nat i :: u64) = i" using assms(1,2) by (simp add: unat_of_nat)
  then have "unat (p + of_nat i) = unat p + i" using assms(1,2) by (simp add: unat_add_no_overflow)
  then show ?thesis using assms(3) by (simp add: unat_eq_0 [symmetric] del: unat_eq_0)
qed

lemma tokenize_cstr:
  assumes "cstr m delim ds" "cstr m p s" "str = p \<or> str = 0 \<and> save = p"
    and "p \<noteq> 0" "unat p + length s < 2 ^ 64" "apart p (Suc (length s)) delim (Suc (length ds))"
  shows "\<exists>m' ts. tokenize m str delim save = Some (m', ts) \<and> list_all2 (cstr m') ts (tokens (set ds) s)
    \<and> (\<forall>x. m' x \<noteq> m x \<longrightarrow> (\<exists>j < length s. x = p + of_nat j))"
  using assms
proof (induction "length s" arbitrary: m p s str save rule: less_induct)
  case less
  have start: "str = p \<and> p \<noteq> 0 \<or> str = 0 \<and> save = p" using less.prems(3,4) by blast
  show ?case
  proof (cases "dropWhile (\<lambda>c. c \<in> set ds) s = []")
    case True
    then have "strtok_r m str delim save = Some (m, 0, p + of_nat (length s))"
      using strtok_r_cstr [OF less.prems(1,2) start] unfolding True by simp
    moreover have "tokens (set ds) s = []" unfolding tokens.simps [of _ s] True by simp
    ultimately show ?thesis by (simp add: tokenize.simps [of m str])
  next
    case False
    from strtok_r_next [OF less.prems(1,2) start False] obtain m1 i k tok s' where
      step: "strtok_r m str delim save = Some (m1, p + of_nat i, p + of_nat k)"
      and tk: "tokens (set ds) s = tok # tokens (set ds) s'"
      and c1: "cstr m1 (p + of_nat i) tok" "cstr m1 (p + of_nat k) s'"
      and ik: "i + length tok < k + (if s' = [] then 1 else 0)" "k + length s' \<le> length s" "i < k"
      and fr: "\<forall>x. m1 x \<noteq> m x \<longrightarrow> (\<exists>j < length s. x = p + of_nat j)" by blast
    have nz: "p + of_nat i \<noteq> 0" "p + of_nat k \<noteq> 0"
      using ik by (intro offset_nonzero [OF less.prems(5) _ less.prems(4)]; simp)+
    have uk: "unat (of_nat k :: u64) = k" using less.prems(5) ik by (simp add: unat_of_nat)
    then have uk': "unat (p + of_nat k) = unat p + k"
      using less.prems(5) ik(2) by (simp add: unat_add_no_overflow)
    have "m1 (delim + of_nat i) = m (delim + of_nat i)" if "i \<le> length ds" for i
      using fr less.prems(6) that unfolding apart_def by (metis le_imp_less_Suc less_SucI)
    then have d1: "cstr m1 delim ds" using less.prems(1) by (rule cstr_frame [rotated])
    have ap: "apart (p + of_nat k) (Suc (length s')) delim (Suc (length ds))"
      unfolding apart_def
    proof (intro allI impI)
      fix i j assume "i < Suc (length s')" "j < Suc (length ds)"
      moreover from this ik(2) have "k + i < Suc (length s)" by simp
      ultimately have "p + of_nat (k + i) \<noteq> delim + of_nat j" using less.prems(6) unfolding apart_def by blast
      then show "p + of_nat k + of_nat i \<noteq> delim + of_nat j" by (simp add: add.assoc)
    qed
    have "\<exists>m' ts. tokenize m1 0 delim (p + of_nat k) = Some (m', ts) \<and> list_all2 (cstr m') ts (tokens (set ds) s')
      \<and> (\<forall>x. m' x \<noteq> m1 x \<longrightarrow> (\<exists>j < length s'. x = p + of_nat k + of_nat j))"
      using ik less.prems(5) uk' nz(2) d1 c1(2) ap by (intro less.hyps) simp_all
    then obtain m' ts where IH: "tokenize m1 0 delim (p + of_nat k) = Some (m', ts)"
        "list_all2 (cstr m') ts (tokens (set ds) s')"
      and fr': "\<forall>x. m' x \<noteq> m1 x \<longrightarrow> (\<exists>j < length s'. x = p + of_nat k + of_nat j)" by blast
    have "m' (p + of_nat i + of_nat l) = m1 (p + of_nat i + of_nat l)" if "l \<le> length tok" for l
    proof (rule ccontr)
      assume "m' (p + of_nat i + of_nat l) \<noteq> m1 (p + of_nat i + of_nat l)"
      then obtain j where j: "j < length s'" "p + of_nat (i + l) = p + of_nat (k + j)"
        using fr' by (auto simp: add.assoc)
      moreover have "i + l < k" using that ik(1) j(1) by (cases "s' = []") auto
      ultimately show False using offsets_distinct [OF less.prems(5), of "i + l" "k + j"] ik(2) by simp
    qed
    with c1(1) have tok: "cstr m' (p + of_nat i) tok" by (rule cstr_frame)
    have "\<exists>j < length s. x = p + of_nat j" if "m' x \<noteq> m x" for x
    proof (cases "m' x = m1 x")
      case False
      then obtain j where "j < length s'" "x = p + of_nat (k + j)" using fr' by (auto simp: add.assoc)
      then show ?thesis using ik(2) by (intro exI [of _ "k + j"]) simp
    qed (use fr that in simp)
    then show ?thesis
      using step nz(1) IH tok tk by (simp add: tokenize.simps [of m str])
  qed
qed

subsection \<open>Properties\<close>

text \<open>Bytes laid out at an address, for concrete memories.\<close>

abbreviation mem_of :: "u64 \<Rightarrow> u8 list \<Rightarrow> mem" where
  "mem_of p bs \<equiv> write_bytes (\<lambda>_. 0) p bs"

text \<open>
  For a base from 2 to 16 and every \<^verbatim>\<open>int\<close> that is not negative, or in base 10 every \<^verbatim>\<open>int\<close> but the
  least, \<^verbatim>\<open>itoa\<close> returns and leaves in the buffer a zero-terminated text that reads back as the value, and
  its at most 32 characters fit the local array \<^verbatim>\<open>temp[32]\<close>.
\<close>

theorem itoa_roundtrip:
  assumes "2 \<le> base" "base \<le> 16" and "- (2 ^ 31) < v" "v < 2 ^ 31" and "0 \<le> v \<or> base = 10"
  shows "\<exists>m' s. itoa m v buf base = Some m' \<and> cstr m' buf s \<and> parse_text (nat base) s = v \<and> length s \<le> 32"
  by (rule itoa_parse [OF assms])

theorem itoa_roundtrip_witness:
  "\<exists>m' s. itoa (\<lambda>_. 0) (- 255) 4096 10 = Some m' \<and> cstr m' 4096 s \<and> parse_text (nat 10) s = - 255 \<and> length s \<le> 32"
  by (rule itoa_roundtrip) simp_all

text \<open>
  \<^verbatim>\<open>itoa_uint64\<close> leaves in the buffer a zero-terminated text of at most 64 digits (the size of its
  \<^verbatim>\<open>temp\<close>) that reads back as the value, for every 64-bit value and every base from 2 to 16.
\<close>

theorem itoa_uint64_roundtrip:
  assumes "2 \<le> base" "base \<le> 16"
  shows "\<exists>s. cstr (itoa_uint64 m v buf base) buf s \<and> text_val (unat base) (rev s) = unat v \<and> length s \<le> 64"
  by (rule itoa_uint64_parse [OF assms])

theorem itoa_uint64_roundtrip_witness:
  "\<exists>s. cstr (itoa_uint64 (\<lambda>_. 0) (- 1) 4096 16) 4096 s \<and> text_val (unat (16 :: u64)) (rev s) = unat (- 1 :: u64) \<and> length s \<le> 64"
  by (rule itoa_uint64_roundtrip) simp_all

text \<open>
  C33: what \<^verbatim>\<open>strncpy\<close> writes for a source string \<open>s\<close> that the destination does not overlap: with
  \<open>n \<le> length s\<close> the first \<open>n\<close> bytes and no terminator; with a shorter source the string and
  \<open>n + 1 - length s\<close> zero bytes, that is \<open>n + 1\<close> bytes in all, one more than the count allows.
\<close>

theorem strncpy_writes:
  assumes "cstr m src s" and "apart dst (Suc (length s)) src (Suc (length s))"
  shows "strncpy m dst src n = write_bytes m dst (strncpy_bytes s (unat n))
    \<and> length (strncpy_bytes s (unat n)) = (if unat n \<le> length s then unat n else Suc (unat n))"
  using strncpy_cstr [OF assms] by (simp add: strncpy_bytes_def)

theorem strncpy_writes_witness:
  "strncpy (mem_of 4096 [104, 105, 0]) 8192 4096 4
     = write_bytes (mem_of 4096 [104, 105, 0]) 8192 (strncpy_bytes [104, 105] (unat (4 :: u64)))
   \<and> length (strncpy_bytes [104, 105] (unat (4 :: u64))) = 5"
proof -
  have c: "cstr (mem_of 4096 [104, 105, 0]) 4096 [104, 105]" by code_simp
  have a: "apart 8192 (Suc (length [104, 105 :: u8])) 4096 (Suc (length [104, 105 :: u8]))"
    by (simp add: apart_def All_less_Suc)
  show ?thesis using strncpy_writes [OF c a, of 4] by simp
qed

text \<open>
  For a count of at most \<open>2\<^sup>3\<^sup>1\<close>, \<^verbatim>\<open>strncmp\<close> is the difference of the first bytes that differ among
  the first \<open>n\<close> of the two strings, so it is 0 exactly if these agree.
\<close>

theorem strncmp_compares:
  assumes "cstr m a s" "cstr m b t" "n \<le> 2 ^ 31"
  shows "strncmp m a b n = bytes_diff (take (unat n) s) (take (unat n) t)
    \<and> (strncmp m a b n = 0 \<longleftrightarrow> take (unat n) s = take (unat n) t)"
proof -
  have "0 \<notin> set (take (unat n) s)" "0 \<notin> set (take (unat n) t)"
    using assms(1,2) cstr_nonzero in_set_takeD by metis+
  then show ?thesis using strncmp_cstr [OF assms] by (simp add: bytes_diff_zero_iff)
qed

theorem strncmp_compares_witness:
  "strncmp (mem_of 0 [97, 98, 0, 97, 99, 0]) 0 3 1 = bytes_diff (take (unat (1 :: u64)) [97, 98]) (take (unat (1 :: u64)) [97, 99])
   \<and> (strncmp (mem_of 0 [97, 98, 0, 97, 99, 0]) 0 3 1 = 0 \<longleftrightarrow> take (unat (1 :: u64)) [97 :: u8, 98] = take (unat (1 :: u64)) [97, 99])"
proof (rule strncmp_compares)
  show "cstr (mem_of 0 [97, 98, 0, 97, 99, 0]) 0 [97, 98]" by code_simp
  show "cstr (mem_of 0 [97, 98, 0, 97, 99, 0]) 3 [97, 99]" by code_simp
qed simp

text \<open>
  Calling \<^verbatim>\<open>strtok_r\<close> until it returns \<^verbatim>\<open>NULL\<close> ends, and the pointers it returned address, in the final
  memory, exactly the maximal delimiter-free pieces of the string, in order; nothing outside the
  string's own bytes is written.
\<close>

theorem strtok_r_splits:
  assumes "cstr m delim ds" "cstr m p s" "p \<noteq> 0" "unat p + length s < 2 ^ 64"
    and "apart p (Suc (length s)) delim (Suc (length ds))"
  shows "\<exists>m' ts. tokenize m p delim save = Some (m', ts) \<and> list_all2 (cstr m') ts (tokens (set ds) s)
    \<and> (\<forall>x. m' x \<noteq> m x \<longrightarrow> (\<exists>j < length s. x = p + of_nat j))"
  using assms by (intro tokenize_cstr) simp_all

theorem strtok_r_splits_witness:
  "\<exists>m' ts. tokenize (mem_of 16 [47, 0, 47, 97, 47, 47, 98, 0]) 18 16 0 = Some (m', ts)
     \<and> list_all2 (cstr m') ts (tokens (set [47]) [47, 97, 47, 47, 98])
     \<and> (\<forall>x. m' x \<noteq> mem_of 16 [47, 0, 47, 97, 47, 47, 98, 0] x \<longrightarrow> (\<exists>j < length [47, 97, 47, 47, 98 :: u8]. x = 18 + of_nat j))"
proof (rule strtok_r_splits)
  show "cstr (mem_of 16 [47, 0, 47, 97, 47, 47, 98, 0]) 16 [47]" by code_simp
  show "cstr (mem_of 16 [47, 0, 47, 97, 47, 47, 98, 0]) 18 [47, 97, 47, 47, 98]" by code_simp
  show "apart 18 (Suc (length [47, 97, 47, 47, 98 :: u8])) 16 (Suc (length [47 :: u8]))"
    by (simp add: apart_def All_less_Suc)
qed simp_all

end
