(* ===== verification/Kmem.thy ===== *)
theory Kmem
  imports KString
begin

text \<open>
  Typed access to the byte memory of \<open>KString\<close>: the kernel reads and writes page table entries,
  descriptors and structure fields as little-endian 64-bit words. The lemmas say what a write leaves
  of the words beside it, of other pages and of a page that is cleared.
\<close>

definition read64 :: "mem \<Rightarrow> u64 \<Rightarrow> u64" where
  "read64 m a =
     ucast (m a) OR push_bit 8 (ucast (m (a + 1))) OR push_bit 16 (ucast (m (a + 2)))
     OR push_bit 24 (ucast (m (a + 3))) OR push_bit 32 (ucast (m (a + 4)))
     OR push_bit 40 (ucast (m (a + 5))) OR push_bit 48 (ucast (m (a + 6)))
     OR push_bit 56 (ucast (m (a + 7)))"

definition write64 :: "mem \<Rightarrow> u64 \<Rightarrow> u64 \<Rightarrow> mem" where
  "write64 m a v =
     m(a := ucast v, a + 1 := ucast (drop_bit 8 v), a + 2 := ucast (drop_bit 16 v),
       a + 3 := ucast (drop_bit 24 v), a + 4 := ucast (drop_bit 32 v), a + 5 := ucast (drop_bit 40 v),
       a + 6 := ucast (drop_bit 48 v), a + 7 := ucast (drop_bit 56 v))"

lemma append_byte:
  fixes v :: u64
  shows "take_bit n v OR push_bit n (ucast (ucast (drop_bit n v) :: u8)) = take_bit (n + 8) v"
proof (rule bit_word_eqI)
  fix i assume "i < LENGTH(64)"
  then show "bit (take_bit n v OR push_bit n (ucast (ucast (drop_bit n v) :: u8))) i = bit (take_bit (n + 8) v) i"
    by (cases "i < n") (auto simp: bit_simps)
qed

lemma bytes_of_u64:
  fixes v :: u64
  shows "ucast (ucast v :: u8) OR push_bit 8 (ucast (ucast (drop_bit 8 v) :: u8))
     OR push_bit 16 (ucast (ucast (drop_bit 16 v) :: u8)) OR push_bit 24 (ucast (ucast (drop_bit 24 v) :: u8))
     OR push_bit 32 (ucast (ucast (drop_bit 32 v) :: u8)) OR push_bit 40 (ucast (ucast (drop_bit 40 v) :: u8))
     OR push_bit 48 (ucast (ucast (drop_bit 48 v) :: u8)) OR push_bit 56 (ucast (ucast (drop_bit 56 v) :: u8)) = v"
proof -
  have a: "ucast (ucast v :: u8) = take_bit 8 v" using append_byte [of 0 v] by simp
  have e: "take_bit 64 v = v" by (rule bit_word_eqI) (simp add: bit_simps)
  show ?thesis
    using append_byte [of 8 v] append_byte [of 16 v] append_byte [of 24 v] append_byte [of 32 v]
      append_byte [of 40 v] append_byte [of 48 v] append_byte [of 56 v] by (simp add: a e or.assoc [symmetric])
qed

lemma read64_write64 [simp]: "read64 (write64 m a v) a = v"
  using bytes_of_u64 [of v] by (simp add: read64_def write64_def)

lemma write64_other:
  assumes "x - a \<ge> 8"
  shows "write64 m a v x = m x"
proof -
  have "x \<noteq> a + k" if "k < 8" for k using assms that by auto
  from this [of 0] this [of 1] this [of 2] this [of 3] this [of 4] this [of 5] this [of 6] this [of 7]
  show ?thesis by (simp add: write64_def)
qed

lemma read64_cong:
  assumes "\<And>k. k < 8 \<Longrightarrow> m (a + k) = m' (a + k)"
  shows "read64 m a = read64 m' a"
  using assms [of 0] assms [of 1] assms [of 2] assms [of 3] assms [of 4] assms [of 5] assms [of 6] assms [of 7]
  by (simp add: read64_def)

definition aligned8 :: "u64 \<Rightarrow> bool" where
  "aligned8 a \<longleftrightarrow> a AND 7 = 0"

lemma aligned8_unat: "aligned8 a \<longleftrightarrow> unat a mod 8 = 0"
proof -
  have "a AND 7 = take_bit 3 a" by (simp add: take_bit_eq_mask mask_eq_exp_minus_1)
  moreover have "unat (take_bit 3 a) = unat a mod 8" by (simp add: take_bit_eq_mod unat_mod_distrib)
  ultimately show ?thesis by (metis aligned8_def unat_eq_0)
qed

lemma aligned8_offset:
  assumes "aligned8 a" "k < 8"
  shows "unat (a + k) = unat a + unat k"
proof (rule unat_add_no_overflow)
  obtain q where "unat a = 8 * q" using assms(1) by (auto simp: aligned8_unat)
  moreover have "unat k < 8" using assms(2) by (simp add: word_less_nat_alt)
  ultimately show "unat a + unat k < 2 ^ 64" using unat_lt_2p64 [of a] by simp
qed

lemma aligned8_apart:
  assumes "aligned8 a" "aligned8 b" "a \<noteq> b" "k < 8"
  shows "(b + k) - a \<ge> 8"
proof (rule ccontr)
  define j where "j = (b + k) - a"
  assume "\<not> (b + k) - a \<ge> 8"
  then have j: "j < 8" and eq: "a + j = b + k" by (simp_all add: j_def)
  obtain p q where pq: "unat a = 8 * p" "unat b = 8 * q"
    using assms(1,2) unfolding aligned8_unat by (meson dvdE mod_0_imp_dvd)
  have "unat a + unat j = unat b + unat k"
    using aligned8_offset [OF assms(1) j] aligned8_offset [OF assms(2,4)] eq by simp
  moreover have "unat j < 8" "unat k < 8" using j assms(4) by (simp_all add: word_less_nat_alt)
  ultimately have "p = q" using pq by linarith
  with pq assms(3) show False by (simp add: word_unat_eq_iff)
qed

lemma read64_write64_other:
  "aligned8 a \<Longrightarrow> aligned8 b \<Longrightarrow> a \<noteq> b \<Longrightarrow> read64 (write64 m a v) b = read64 m b"
  by (rule read64_cong) (simp add: write64_other aligned8_apart)

subsection \<open>Pages of 512 entries\<close>

definition paged :: "u64 \<Rightarrow> bool" where
  "paged a \<longleftrightarrow> a AND 0xFFF = 0"

lemma paged_unat: "paged a \<longleftrightarrow> unat a mod 4096 = 0"
proof -
  have "a AND 0xFFF = take_bit 12 a" by (simp add: take_bit_eq_mask mask_eq_exp_minus_1)
  moreover have "unat (take_bit 12 a) = unat a mod 4096" by (simp add: take_bit_eq_mod unat_mod_distrib)
  ultimately show ?thesis by (metis paged_def unat_eq_0)
qed

lemma pagedE:
  assumes "paged a"
  obtains q where "unat a = 4096 * q" "q < 2 ^ 52"
proof -
  obtain q where q: "unat a = 4096 * q" using assms unfolding paged_unat by (meson dvdE mod_0_imp_dvd)
  have "q < 2 ^ 52" using q unat_lt_2p64 [of a] by simp
  with q that show thesis by blast
qed

lemma paged_offset:
  assumes "paged a" "k < 4096"
  shows "unat (a + k) = unat a + unat k"
proof (rule unat_add_no_overflow)
  obtain q where q: "unat a = 4096 * q" "q < 2 ^ 52" using assms(1) by (rule pagedE)
  moreover have "unat k < 4096" using assms(2) by (simp add: word_less_nat_alt)
  ultimately show "unat a + unat k < 2 ^ 64" by simp
qed

lemma paged_add:
  assumes "paged a" "paged b"
  shows "paged (a + b)"
proof -
  have "unat (a + b) mod 4096 = (unat a + unat b) mod 2 ^ 64 mod 4096" by (simp add: unat_word_ariths)
  also have "\<dots> = (unat a + unat b) mod 4096" by (rule mod_mod_cancel) simp
  also have "\<dots> = 0" using assms by (simp add: paged_unat mod_add_eq [symmetric] del: mod_0_imp_dvd)
  finally show ?thesis by (simp add: paged_unat)
qed

lemma entry_offset:
  assumes "i < (512 :: u64)"
  shows "unat (8 * i) = 8 * unat i" "8 * i < 4096" "k < 8 \<Longrightarrow> 8 * i + k < 4096"
proof -
  have i: "unat i < 512" using assms by (simp add: word_less_nat_alt)
  then show u: "unat (8 * i) = 8 * unat i" by (simp add: unat_mult_no_overflow)
  then show "8 * i < 4096" using i by (simp add: word_less_nat_alt)
  assume "k < 8"
  then have k: "unat k < 8" by (simp add: word_less_nat_alt)
  then have "unat (8 * i + k) = 8 * unat i + unat k" using i u by (simp add: unat_add_no_overflow)
  then show "8 * i + k < 4096" using i k by (simp add: word_less_nat_alt)
qed

lemma entry_unat: "paged t \<Longrightarrow> i < 512 \<Longrightarrow> unat (t + 8 * i) = unat t + 8 * unat i"
  by (simp add: paged_offset entry_offset)

lemma entry_aligned: "paged t \<Longrightarrow> i < 512 \<Longrightarrow> aligned8 (t + 8 * i)"
proof -
  assume a: "paged t" "i < 512"
  from a(1) obtain q where "unat t = 4096 * q" by (rule pagedE)
  then show ?thesis using entry_unat [OF a] by (simp add: aligned8_unat mod_mult_eq) 
qed

text \<open>Different pages have no byte in common.\<close>

lemma pages_apart:
  assumes "paged t" "paged f" "t \<noteq> f" "k < 4096"
  shows "\<not> (t + k) - f < 4096"
proof
  define j where "j = (t + k) - f"
  assume "(t + k) - f < 4096"
  then have j: "j < 4096" and eq: "f + j = t + k" by (simp_all add: j_def)
  obtain p q where pq: "unat t = 4096 * p" "unat f = 4096 * q"
    using assms(1,2) by (meson pagedE)
  have "unat f + unat j = unat t + unat k"
    using paged_offset [OF assms(2) j] paged_offset [OF assms(1,4)] eq by simp
  moreover have "unat j < 4096" "unat k < 4096" using j assms(4) by (simp_all add: word_less_nat_alt)
  ultimately have "p = q" using pq by linarith
  with pq assms(3) show False by (simp add: word_unat_eq_iff)
qed

lemma entry_inj:
  assumes "paged t" "paged u" "i < 512" "j < 512"
  shows "t + 8 * i = u + 8 * j \<longleftrightarrow> t = u \<and> i = j"
proof (cases "t = u")
  case True
  have "t + 8 * i = t + 8 * j \<Longrightarrow> i = j"
    using assms(1,3,4) entry_unat [of t i] entry_unat [of t j] by (simp add: word_unat_eq_iff)
  then show ?thesis using True by auto
next
  case False
  then have "\<not> (t + 8 * i) - u < 4096" using assms by (intro pages_apart) (simp_all add: entry_offset)
  then show ?thesis using False entry_offset [OF assms(4)] by auto
qed

lemma read64_memset_same:
  assumes "i < 512"
  shows "read64 (memset m f 0 4096) (f + 8 * i) = 0"
proof -
  have "read64 (memset m f 0 4096) (f + 8 * i) = read64 (\<lambda>_. 0) (f + 8 * i)"
    using entry_offset(3) [OF assms] by (intro read64_cong) (simp add: memset_eq add.assoc)
  then show ?thesis by (simp add: read64_def)
qed

lemma read64_memset_other:
  assumes "paged t" "paged f" "t \<noteq> f" "i < 512"
  shows "read64 (memset m f v 4096) (t + 8 * i) = read64 m (t + 8 * i)"
  using entry_offset(3) [OF assms(4)] pages_apart [OF assms(1-3)]
  by (intro read64_cong) (simp add: memset_eq add.assoc)

lemma read64_write64_entry:
  assumes "paged t" "paged u" "i < 512" "j < 512" "\<not> (t = u \<and> i = j)"
  shows "read64 (write64 m (t + 8 * i) v) (u + 8 * j) = read64 m (u + 8 * j)"
  using assms by (intro read64_write64_other) (simp_all add: entry_aligned entry_inj)

end
