(* ===== verification/Paging.thy ===== *)
theory Paging
  imports Pmm Kmem "HOL-Library.Sublist"
begin

text \<open>
  The four-level page tables of \<^verbatim>\<open>mm/paging.c\<close>. This layer of the kernel state holds the memory the
  kernel sees through the direct map (\<open>kmem\<close>, by kernel virtual address), the direct map's offset,
  the kernel's top-level table and the register \<^verbatim>\<open>cr3\<close>. A table is addressed by the kernel virtual
  address of its page and its entries are the 512 little-endian words there. Log messages and the
  flush of a stale TLB entry (\<^verbatim>\<open>invlpg\<close>) have no effect on this state.
\<close>

record paging = pmm +
  kmem :: mem
  HHDM_OFFSET :: u64
  kernel_pml4 :: u64
  cr3 :: u64

abbreviation (input) PTE_PRESENT :: u64 where "PTE_PRESENT \<equiv> 1"
abbreviation (input) PTE_RW :: u64 where "PTE_RW \<equiv> 2"
abbreviation (input) PTE_USER :: u64 where "PTE_USER \<equiv> 4"
abbreviation (input) PTE_ADDR_MASK :: u64 where "PTE_ADDR_MASK \<equiv> 0x000FFFFFFFFFF000"

definition PTE_GET_ADDR :: "u64 \<Rightarrow> u64" where
  "PTE_GET_ADDR pte = pte AND PTE_ADDR_MASK"

definition PTE_GET_FLAGS :: "u64 \<Rightarrow> u64" where
  "PTE_GET_FLAGS pte = pte AND NOT PTE_ADDR_MASK"

definition PML4_IDX :: "u64 \<Rightarrow> u64" where "PML4_IDX va = drop_bit 39 va AND 0x1FF"

definition PDPT_IDX :: "u64 \<Rightarrow> u64" where "PDPT_IDX va = drop_bit 30 va AND 0x1FF"

definition PD_IDX :: "u64 \<Rightarrow> u64" where "PD_IDX va = drop_bit 21 va AND 0x1FF"

definition PT_IDX :: "u64 \<Rightarrow> u64" where "PT_IDX va = drop_bit 12 va AND 0x1FF"

definition pa2kva :: "'a paging_scheme \<Rightarrow> u64 \<Rightarrow> u64" where
  "pa2kva s pa = pa + HHDM_OFFSET s"

text \<open>The address 0 stands for \<^verbatim>\<open>NULL\<close>.\<close>

definition get_next_table :: "u64 \<Rightarrow> u64 \<Rightarrow> bool \<Rightarrow> u64 \<Rightarrow> 'a paging_scheme \<Rightarrow> u64 \<times> 'a paging_scheme" where
  "get_next_table pgtable index allocate flags s =
     (let entry = pgtable + 8 * index; e = read64 (kmem s) entry
      in if e AND PTE_PRESENT \<noteq> 0 then (pa2kva s (PTE_GET_ADDR e), s)
         else if allocate then
           (case pmm_alloc_page s of (newpg_pa, s1) \<Rightarrow>
              if newpg_pa = 0 then (0, s1)
              else let newpg_va = pa2kva s1 newpg_pa;
                       m = memset (kmem s1) newpg_va 0 PAGE_SIZE
                   in (newpg_va, s1\<lparr>kmem := write64 m entry (newpg_pa OR flags)\<rparr>))
         else (0, s))"

definition vmm_map_page :: "u64 \<Rightarrow> u64 \<Rightarrow> u64 \<Rightarrow> u64 \<Rightarrow> 'a paging_scheme \<Rightarrow> 'a paging_scheme" where
  "vmm_map_page pml4 va pa flags s =
     (case get_next_table pml4 (PML4_IDX va) True flags s of (pdpt, s1) \<Rightarrow>
        if pdpt = 0 then s1
        else case get_next_table pdpt (PDPT_IDX va) True flags s1 of (pd, s2) \<Rightarrow>
          if pd = 0 then s2
          else case get_next_table pd (PD_IDX va) True flags s2 of (pt, s3) \<Rightarrow>
            if pt = 0 then s3
            else s3\<lparr>kmem := write64 (kmem s3) (pt + 8 * PT_IDX va) (pa OR flags OR PTE_PRESENT)\<rparr>)"

definition vmm_get_pte :: "u64 \<Rightarrow> u64 \<Rightarrow> 'a paging_scheme \<Rightarrow> u64" where
  "vmm_get_pte pml4 va s =
     (let pdpt = fst (get_next_table pml4 (PML4_IDX va) False 0 s)
      in if pdpt = 0 then 0
         else let pd = fst (get_next_table pdpt (PDPT_IDX va) False 0 s)
              in if pd = 0 then 0
                 else let pt = fst (get_next_table pd (PD_IDX va) False 0 s)
                      in if pt = 0 then 0 else pt + 8 * PT_IDX va)"

text \<open>
  The loop of \<^verbatim>\<open>user_pgtable_free_recursive\<close> over the entries of one table, with the recursive call for
  the table below.
\<close>

definition pgtable_limit :: "nat \<Rightarrow> u64" where
  "pgtable_limit level = (if level = 4 then 256 else 512)"

function pgtable_free_loop :: "nat \<Rightarrow> u64 \<Rightarrow> u64 \<Rightarrow> 'a paging_scheme \<Rightarrow> 'a paging_scheme" where
  "pgtable_free_loop level pgtable i s =
     (if i < pgtable_limit level then
        let entry = read64 (kmem s) (pgtable + 8 * i);
            pa = PTE_GET_ADDR entry
        in pgtable_free_loop level pgtable (i + 1)
             (if entry AND PTE_PRESENT \<noteq> 0
              then pmm_free_page pa
                (if level > 1 then pgtable_free_loop (level - 1) (pa2kva s pa) 0 s else s)
              else s)
      else s)"
  by pat_completeness auto
termination
  by (relation "measures [\<lambda>(level, t, i, s). level, \<lambda>(level, t, i, s). unat (pgtable_limit level - i)]")
    (auto simp: loop_measure_decreases)

declare pgtable_free_loop.simps [simp del]

definition user_pgtable_free_recursive :: "u64 \<Rightarrow> nat \<Rightarrow> 'a paging_scheme \<Rightarrow> 'a paging_scheme" where
  "user_pgtable_free_recursive pgtable level s = pgtable_free_loop level pgtable 0 s"

text \<open>
  \<^verbatim>\<open>paging_init\<close>. Its two panics end in a halt loop; like a mapping loop that never ends, this is the
  result \<open>None\<close>.
\<close>

partial_function (option) map_kernel_loop ::
    "u64 \<Rightarrow> u64 \<Rightarrow> u64 \<Rightarrow> u64 \<Rightarrow> u64 \<Rightarrow> 'a paging_scheme \<Rightarrow> 'a paging_scheme option" where
  "map_kernel_loop kva_base kpa_base kernel_size i flags s =
     (if i < kernel_size
      then map_kernel_loop kva_base kpa_base kernel_size (i + PAGE_SIZE) flags
        (vmm_map_page (kernel_pml4 s) (kva_base + i) (kpa_base + i) flags s)
      else Some s)"

partial_function (option) map_region_loop ::
    "u64 \<Rightarrow> u64 \<Rightarrow> u64 \<Rightarrow> u64 \<Rightarrow> 'a paging_scheme \<Rightarrow> 'a paging_scheme option" where
  "map_region_loop offset pa end_pa flags s =
     (if pa < end_pa
      then map_region_loop offset (pa + PAGE_SIZE) end_pa flags
        (vmm_map_page (kernel_pml4 s) (pa + offset) pa flags s)
      else Some s)"

definition hhdm_type :: "u64 \<Rightarrow> bool" where
  "hhdm_type t \<longleftrightarrow> t = LIMINE_MEMMAP_USABLE \<or> t = 6 \<or> t = 5 \<or> t = 7"

abbreviation (input) identity_end :: u64 where "identity_end \<equiv> 0x100000000"

fun map_memmap :: "limine_memmap_entry list \<Rightarrow> u64 \<Rightarrow> 'a paging_scheme \<Rightarrow> 'a paging_scheme option" where
  "map_memmap [] flags s = Some s"
| "map_memmap (e # es) flags s =
     (if hhdm_type (me_type e) then
        (let start = ALIGN_DOWN (me_base e) PAGE_SIZE;
             end_pa = ALIGN_UP (me_base e + me_length e) PAGE_SIZE
         in Option.bind (map_region_loop (HHDM_OFFSET s) start end_pa flags s)
              (\<lambda>s1. if start \<ge> identity_end then map_memmap es flags s1
                    else Option.bind
                      (map_region_loop 0 start (if end_pa > identity_end then identity_end else end_pa) flags s1)
                      (map_memmap es flags)))
      else map_memmap es flags s)"

definition paging_init ::
    "limine_memmap_entry list \<Rightarrow> u64 \<Rightarrow> u64 \<Rightarrow> (u64 \<times> u64) option \<Rightarrow> 'a paging_scheme \<Rightarrow> 'a paging_scheme option" where
  "paging_init mmap k_start_va k_end_va kaddr s =
     (case pmm_alloc_page s of (pml4_pa, s1) \<Rightarrow>
        if pml4_pa = 0 then None
        else
          let va = pa2kva s1 pml4_pa;
              s2 = s1\<lparr>kernel_pml4 := va, kmem := memset (kmem s1) va 0 PAGE_SIZE\<rparr>;
              kernel_size = ALIGN_UP (k_end_va - k_start_va) PAGE_SIZE
          in case kaddr of
               None \<Rightarrow> None
             | Some (kva_base, kpa_base) \<Rightarrow>
                 Option.bind (map_kernel_loop kva_base kpa_base kernel_size 0 (PTE_PRESENT OR PTE_RW) s2)
                   (\<lambda>s3. Option.bind (map_memmap mmap (PTE_PRESENT OR PTE_RW) s3)
                     (\<lambda>s4. Some (s4\<lparr>cr3 := pml4_pa\<rparr>))))"

subsection \<open>Trees of tables\<close>

text \<open>
  \<open>E t i\<close> is entry \<open>i\<close> of the table in the page at physical address \<open>t\<close>. \<open>walk E t p\<close> follows the
  indices \<open>p\<close> down from \<open>t\<close> as the processor does.
\<close>

type_synonym entries = "u64 \<Rightarrow> u64 \<Rightarrow> u64"

primrec walk :: "entries \<Rightarrow> u64 \<Rightarrow> u64 list \<Rightarrow> u64 option" where
  "walk E t [] = Some t"
| "walk E t (i # p) = (if E t i AND 1 \<noteq> 0 then walk E (PTE_GET_ADDR (E t i)) p else None)"

lemma walk_append: "walk E t (p @ q) = Option.bind (walk E t p) (\<lambda>u. walk E u q)"
  by (induction p arbitrary: t) auto

lemma walk_snoc:
  "walk E t (p @ [i]) =
     (case walk E t p of None \<Rightarrow> None | Some u \<Rightarrow> if E u i AND 1 \<noteq> 0 then Some (PTE_GET_ADDR (E u i)) else None)"
  by (cases "walk E t p") (simp_all add: walk_append)

text \<open>The paths to the tables: at most three indices below 512.\<close>

definition tpath :: "u64 list \<Rightarrow> bool" where
  "tpath p \<longleftrightarrow> length p \<le> 3 \<and> (\<forall>i \<in> set p. i < 512)"

lemma tpath_snoc: "tpath (p @ [i]) \<longleftrightarrow> length p \<le> 2 \<and> (\<forall>i \<in> set p. i < 512) \<and> i < 512"
  by (auto simp: tpath_def)

lemma tpath_snocD: "tpath (p @ [i]) \<Longrightarrow> tpath p" "tpath (p @ [i]) \<Longrightarrow> i < 512"
  by (auto simp: tpath_def)

text \<open>The tables of the tree; no table is reached on two paths.\<close>

definition tables :: "entries \<Rightarrow> u64 \<Rightarrow> u64 set" where
  "tables E r = {t. \<exists>p. tpath p \<and> walk E r p = Some t}"

definition tree :: "entries \<Rightarrow> u64 \<Rightarrow> bool" where
  "tree E r \<longleftrightarrow> (\<forall>p q. tpath p \<longrightarrow> tpath q \<longrightarrow> walk E r p \<noteq> None \<longrightarrow> walk E r p = walk E r q \<longrightarrow> p = q)"

lemma treeD: "tree E r \<Longrightarrow> tpath p \<Longrightarrow> tpath q \<Longrightarrow> walk E r p = Some t \<Longrightarrow> walk E r q = Some t \<Longrightarrow> p = q"
  by (simp add: tree_def)

lemma tablesI: "tpath p \<Longrightarrow> walk E r p = Some t \<Longrightarrow> t \<in> tables E r"
  by (auto simp: tables_def)

text \<open>The entry at the end of three indices; a missing table reads as empty entries.\<close>

definition pte_at :: "entries \<Rightarrow> u64 \<Rightarrow> u64 list \<Rightarrow> u64 \<Rightarrow> u64" where
  "pte_at E r p i = (case walk E r p of None \<Rightarrow> 0 | Some t \<Rightarrow> E t i)"

definition agree_but :: "entries \<Rightarrow> entries \<Rightarrow> u64 \<Rightarrow> u64 \<Rightarrow> u64 \<Rightarrow> bool" where
  "agree_but E E' r t i \<longleftrightarrow> (\<forall>x \<in> tables E r. \<forall>j < 512. \<not> (x = t \<and> j = i) \<longrightarrow> E' x j = E x j)"

definition cleared :: "entries \<Rightarrow> u64 \<Rightarrow> bool" where
  "cleared E f \<longleftrightarrow> (\<forall>j < 512. E f j = 0)"

lemma agree_butD: "agree_but E E' r t i \<Longrightarrow> x \<in> tables E r \<Longrightarrow> j < 512 \<Longrightarrow> \<not> (x = t \<and> j = i) \<Longrightarrow> E' x j = E x j"
  by (simp add: agree_but_def)

text \<open>A new table \<open>f\<close>, all of whose entries are empty, hung into the empty entry \<open>i\<close> of the table at \<open>p\<close>.\<close>

lemma walk_add_table:
  assumes tr: "tree E r" and p: "tpath (p @ [i])" "walk E r p = Some t"
    and empty: "E t i AND 1 = 0"
    and new: "E' t i AND 1 \<noteq> 0" "PTE_GET_ADDR (E' t i) = f" "f \<notin> tables E r" "cleared E' f"
    and same: "agree_but E E' r t i"
    and q: "tpath q"
  shows "walk E' r q =
    (if q = p @ [i] then Some f else if strict_prefix (p @ [i]) q then None else walk E r q)"
  using q
proof (induction q rule: rev_induct)
  case Nil
  then show ?case by (simp add: strict_prefix_def)
next
  case (snoc j q)
  note tq = tpath_snocD [OF snoc.prems]
  note IH = snoc.IH [OF tq(1)]
  have sp: "strict_prefix (p @ [i]) (q @ [j]) \<longleftrightarrow> prefix (p @ [i]) q"
    by (auto simp: strict_prefix_def)
  consider (hang) "q = p @ [i]" | (below) "strict_prefix (p @ [i]) q" | (at) "q = p"
    | (other) "\<not> prefix (p @ [i]) q" "q \<noteq> p" by (auto simp: strict_prefix_def)
  then show ?case
  proof cases
    case hang
    have "E' f j = 0" using new(4) tq(2) by (simp add: cleared_def)
    then have "walk E' r (q @ [j]) = None" using IH hang by (simp only: walk_snoc) simp
    then show ?thesis using hang sp by auto
  next
    case below
    then have "walk E' r q = None" using IH by auto
    then show ?thesis using below by (auto simp: walk_snoc sp strict_prefix_def)
  next
    case at
    then have w: "walk E' r q = Some t" using IH p(2) by (simp add: strict_prefix_def)
    have np: "\<not> prefix (p @ [i]) q" using at by (metis prefix_length_le length_append_singleton Suc_n_not_le_n)
    have "E' t j = E t j" if "j \<noteq> i" using that agree_butD [OF same tablesI [OF tpath_snocD(1) [OF p(1)] p(2)] tq(2)] by simp
    then show ?thesis using w at np p(2) new(1,2) by (auto simp: walk_snoc strict_prefix_def)
  next
    case other
    have w: "walk E' r q = walk E r q" using IH other by (auto simp: strict_prefix_def)
    have "E' x j = E x j" if "walk E r q = Some x" for x
    proof (rule agree_butD [OF same])
      show "x \<in> tables E r" using tablesI [OF tq(1) that] .
      show "\<not> (x = t \<and> j = i)" using treeD [OF tr tq(1) tpath_snocD(1) [OF p(1)] that] p(2) other(2) by blast
    qed (rule tq(2))
    then show ?thesis using w other by (auto simp: walk_snoc sp split: option.split)
  qed
qed

lemma walk_below_empty:
  assumes "walk E r p = Some t" "E t i AND 1 = 0" "prefix (p @ [i]) q"
  shows "walk E r q = None"
  using assms by (auto simp: prefix_def walk_append)

lemma walk_add_table_mono:
  assumes "tree E r" "tpath (p @ [i])" "walk E r p = Some t" "E t i AND 1 = 0"
    and "E' t i AND 1 \<noteq> 0" "PTE_GET_ADDR (E' t i) = f" "f \<notin> tables E r" "cleared E' f"
    and "agree_but E E' r t i"
  shows "tables E' r = insert f (tables E r)" and "tree E' r"
    and "tpath q \<Longrightarrow> walk E r q = Some x \<Longrightarrow> walk E' r q = Some x"
    and "tpath q \<Longrightarrow> length q = 3 \<Longrightarrow> j < 512 \<Longrightarrow> pte_at E' r q j = pte_at E r q j"
proof -
  note wat = walk_add_table [OF assms]
  have old: "walk E r q = None" if "prefix (p @ [i]) q" for q
    using walk_below_empty [OF assms(3,4) that] .
  show keep: "walk E' r q = Some x" if "tpath q" "walk E r q = Some x" for q x
    using wat [OF that(1)] old [of q] that(2) by (auto simp: strict_prefix_def)
  have new: "walk E' r q = Some x \<Longrightarrow> q = p @ [i] \<and> x = f \<or> walk E r q = Some x" if "tpath q" for q x
    using wat [OF that] by (auto split: if_splits)
  have at: "walk E' r (p @ [i]) = Some f" using wat [OF assms(2)] by simp
  show "tables E' r = insert f (tables E r)"
    using keep new at assms(2) unfolding tables_def by blast
  show "tree E' r" unfolding tree_def
  proof (intro allI impI)
    fix q q' assume t: "tpath q" "tpath q'" and n: "walk E' r q \<noteq> None" "walk E' r q = walk E' r q'"
    then obtain x where x: "walk E' r q = Some x" "walk E' r q' = Some x" by auto
    from new [OF t(1) x(1)] new [OF t(2) x(2)] show "q = q'"
      using treeD [OF assms(1) t] tablesI [OF t(1)] tablesI [OF t(2)] assms(7) by blast
  qed
  show "pte_at E' r q j = pte_at E r q j" if q: "tpath q" "length q = 3" "j < 512" for q j
  proof (cases "walk E r q")
    case (Some x)
    have "length (p @ [i]) \<le> 3" using assms(2) by (simp add: tpath_def)
    then have "x \<noteq> t \<or> q \<noteq> p" using q(2) by auto
    then have "x \<noteq> t" using treeD [OF assms(1) q(1) tpath_snocD(1) [OF assms(2)] Some] assms(2,3) by blast
    then show ?thesis using keep [OF q(1) Some] agree_butD [OF assms(9) tablesI [OF q(1) Some] q(3)] Some by (simp add: pte_at_def)
  next
    case None
    then show ?thesis
      using new [OF q(1)] assms(8) q(3) by (cases "walk E' r q") (auto simp: pte_at_def cleared_def)
  qed
qed

text \<open>Writing an entry of a lowest-level table.\<close>

lemma walk_set_leaf:
  assumes tr: "tree E r" and p: "tpath p" "length p = 3" "walk E r p = Some t"
    and same: "agree_but E E' r t i"
    and q: "tpath q"
  shows "walk E' r q = walk E r q"
  using q
proof (induction q rule: rev_induct)
  case (snoc j q)
  note tq = tpath_snocD [OF snoc.prems]
  have "E' x j = E x j" if "walk E r q = Some x" for x
  proof (rule agree_butD [OF same])
    show "x \<in> tables E r" using tablesI [OF tq(1) that] .
    have "q \<noteq> p" using p(2) snoc.prems by (auto simp: tpath_def)
    then show "\<not> (x = t \<and> j = i)" using treeD [OF tr tq(1) p(1) that] p(3) by blast
  qed (rule tq(2))
  then show ?case using snoc.IH [OF tq(1)] by (auto simp: walk_snoc split: option.split)
qed simp

lemma pte_set_leaf:
  assumes tr: "tree E r" and p: "tpath p" "length p = 3" "walk E r p = Some t" "i < 512"
    and same: "agree_but E E' r t i"
  shows "tables E' r = tables E r" and "tree E' r"
    and "tpath q \<Longrightarrow> j < 512 \<Longrightarrow> pte_at E' r q j = (if q = p \<and> j = i then E' t i else pte_at E r q j)"
proof -
  note w = walk_set_leaf [OF tr p(1-3) same]
  show "tables E' r = tables E r" "tree E' r"
    using w tr by (auto simp: tables_def tree_def)
  show "pte_at E' r q j = (if q = p \<and> j = i then E' t i else pte_at E r q j)" if q: "tpath q" "j < 512" for q j
  proof (cases "walk E r q")
    case None
    then show ?thesis using p(3) by (auto simp: w [OF q(1)] pte_at_def)
  next
    case (Some x)
    have "x = t \<longleftrightarrow> q = p" using treeD [OF tr q(1) p(1) Some] p(3) Some by auto
    then show ?thesis
      using agree_butD [OF same tablesI [OF q(1) Some] q(2)] Some by (auto simp: w [OF q(1)] pte_at_def)
  qed
qed

subsection \<open>The tables in memory\<close>

definition pt_entry :: "'a paging_scheme \<Rightarrow> entries" where
  "pt_entry s t i = read64 (kmem s) (pa2kva s t + 8 * i)"

text \<open>
  The frames the allocator manages are visible through the direct map, and their addresses fit the
  address field of an entry.
\<close>

definition hhdm_ok :: "'a paging_scheme \<Rightarrow> bool" where
  "hhdm_ok s \<longleftrightarrow> paged (HHDM_OFFSET s) \<and> HHDM_OFFSET s \<noteq> 0
     \<and> unat (HHDM_OFFSET s) + 4096 * unat (total_pages s) \<le> 2 ^ 64 \<and> unat (total_pages s) \<le> 2 ^ 40"

definition frame_ok :: "'a paging_scheme \<Rightarrow> u64 \<Rightarrow> bool" where
  "frame_ok s t \<longleftrightarrow> paged t \<and> t \<noteq> 0 \<and> pa2pgidx t < total_pages s"

text \<open>The invariant: a tree of tables in frames that are in use.\<close>

definition pt_inv :: "'a paging_scheme \<Rightarrow> u64 \<Rightarrow> bool" where
  "pt_inv s r \<longleftrightarrow> pmm_inv s \<and> hhdm_ok s \<and> tree (pt_entry s) r
     \<and> (\<forall>t \<in> tables (pt_entry s) r. frame_ok s t \<and> pa2pgidx t \<notin> free_frames s)"

text \<open>Flags that may go into an entry that leads to a lower table.\<close>

definition table_flags :: "u64 \<Rightarrow> bool" where
  "table_flags flags \<longleftrightarrow> flags AND PTE_PRESENT \<noteq> 0 \<and> flags AND PTE_ADDR_MASK = 0"

lemma pmm_alloc_page_paging [simp]:
  "kmem (snd (pmm_alloc_page s)) = kmem s" "HHDM_OFFSET (snd (pmm_alloc_page s)) = HHDM_OFFSET s"
  "kernel_pml4 (snd (pmm_alloc_page s)) = kernel_pml4 s" "cr3 (snd (pmm_alloc_page s)) = cr3 s"
  by (simp_all add: pmm_alloc_page_def pmm_take_def bit_set_def split: option.split)

lemma pmm_free_page_paging [simp]:
  "kmem (pmm_free_page pa s) = kmem s" "HHDM_OFFSET (pmm_free_page pa s) = HHDM_OFFSET s"
  "kernel_pml4 (pmm_free_page pa s) = kernel_pml4 s" "cr3 (pmm_free_page pa s) = cr3 s"
  by (simp_all add: pmm_free_page_def bit_unset_def Let_def)

lemma pmm_view_paging [simp]:
  "free_frames (s\<lparr>kmem := m\<rparr>) = free_frames s" "pmm_inv (s\<lparr>kmem := m\<rparr>) = pmm_inv s"
  "free_frames (s\<lparr>kernel_pml4 := k\<rparr>) = free_frames s" "pmm_inv (s\<lparr>kernel_pml4 := k\<rparr>) = pmm_inv s"
  "free_frames (s\<lparr>cr3 := c\<rparr>) = free_frames s" "pmm_inv (s\<lparr>cr3 := c\<rparr>) = pmm_inv s"
  by (simp_all add: free_frames_def pmm_inv_def bit_test_def)

lemma frame_bound:
  assumes "frame_ok s t"
  shows "unat t + 4096 \<le> 4096 * unat (total_pages s)"
proof -
  obtain q where q: "unat t = 4096 * q" using assms by (auto simp: frame_ok_def elim: pagedE)
  moreover have "unat (pa2pgidx t) = q" using q by (simp add: pa2pgidx_def unat_div)
  ultimately show ?thesis using assms by (simp add: frame_ok_def word_less_nat_alt)
qed

lemma frame_kva:
  assumes "hhdm_ok s" "frame_ok s t"
  shows "pa2kva s t \<noteq> 0" "paged (pa2kva s t)" "unat (pa2kva s t) = unat t + unat (HHDM_OFFSET s)"
proof -
  have "unat t + unat (HHDM_OFFSET s) < 2 ^ 64"
    using assms(1) frame_bound [OF assms(2)] by (simp add: hhdm_ok_def)
  then show u: "unat (pa2kva s t) = unat t + unat (HHDM_OFFSET s)" by (simp add: pa2kva_def unat_add_no_overflow)
  have "unat (HHDM_OFFSET s) \<noteq> 0" using assms(1) by (simp add: hhdm_ok_def unat_eq_0)
  then show "pa2kva s t \<noteq> 0" using u by (metis add_is_0 unat_0)
  show "paged (pa2kva s t)" using assms by (simp add: pa2kva_def paged_add hhdm_ok_def frame_ok_def)
qed

lemma pa2kva_eq_iff [simp]: "pa2kva s t = pa2kva s u \<longleftrightarrow> t = u"
  by (simp add: pa2kva_def)

lemma frame_addr_mask:
  assumes "hhdm_ok s" "frame_ok s t"
  shows "t AND PTE_ADDR_MASK = t"
proof -
  have "unat t < 2 ^ 52" using assms(1) frame_bound [OF assms(2)] by (simp add: hhdm_ok_def)
  then have "take_bit 52 t = t"
    by (simp add: word_unat_eq_iff unsigned_take_bit_eq take_bit_nat_eq_self)
  then have hi: "bit t i \<Longrightarrow> i < 52" for i by (metis bit_take_bit_iff)
  have "take_bit 12 t = 0" using assms(2) by (simp add: frame_ok_def paged_def take_bit_eq_mask mask_eq_exp_minus_1)
  then have lo: "bit t i \<Longrightarrow> 12 \<le> i" for i by (metis bit_take_bit_iff bit_0_eq bot_apply bot_bool_def not_le)
  have m: "PTE_ADDR_MASK = push_bit 12 (mask 40)" by (simp add: mask_eq_exp_minus_1 push_bit_eq_mult)
  show ?thesis unfolding m
  proof (rule bit_word_eqI)
    fix n assume "n < LENGTH(64)"
    then show "bit (t AND push_bit 12 (mask 40)) n = bit t n"
      using hi [of n] lo [of n] by (auto simp: bit_simps)
  qed
qed

lemma entry_fields:
  assumes "t AND PTE_ADDR_MASK = t" "flags AND PTE_ADDR_MASK = 0"
  shows "PTE_GET_ADDR (t OR flags) = t"
  using assms by (simp add: PTE_GET_ADDR_def bit.conj_disj_distrib2)

lemma present_or: "b AND 1 \<noteq> 0 \<Longrightarrow> (a OR b) AND (1 :: u64) \<noteq> 0"
  by (simp add: and_one_eq even_or_iff mod_2_eq_odd)

lemma alloc_frame:
  assumes "pmm_inv s" "fst (pmm_alloc_page s) \<noteq> 0"
  shows "frame_ok s (fst (pmm_alloc_page s))" "pa2pgidx (fst (pmm_alloc_page s)) \<in> free_frames s"
proof -
  note f = pm.alloc_fresh [OF assms]
  show "pa2pgidx (fst (pmm_alloc_page s)) \<in> free_frames s" by (rule f(1))
  then have "pa2pgidx (fst (pmm_alloc_page s)) < total_pages s" by (simp add: free_frames_def)
  then show "frame_ok s (fst (pmm_alloc_page s))"
    using assms(2) f(3) by (simp add: frame_ok_def paged_unat)
qed

subsection \<open>Following and creating a table\<close>

lemma pt_entry_cong: "kmem s' = kmem s \<Longrightarrow> HHDM_OFFSET s' = HHDM_OFFSET s \<Longrightarrow> pt_entry s' = pt_entry s"
  by (intro ext) (simp add: pt_entry_def pa2kva_def)

text \<open>What one step towards a mapping keeps: the invariant and every translation.\<close>

definition pt_extends :: "'a paging_scheme \<Rightarrow> 'a paging_scheme \<Rightarrow> u64 \<Rightarrow> bool" where
  "pt_extends s s' r \<longleftrightarrow> pt_inv s' r \<and> free_frames s' \<subseteq> free_frames s
     \<and> HHDM_OFFSET s' = HHDM_OFFSET s \<and> total_pages s' = total_pages s \<and> kernel_pml4 s' = kernel_pml4 s
     \<and> (\<forall>q x. tpath q \<longrightarrow> walk (pt_entry s) r q = Some x \<longrightarrow> walk (pt_entry s') r q = Some x)
     \<and> (\<forall>q j. tpath q \<longrightarrow> length q = 3 \<longrightarrow> j < 512 \<longrightarrow> pte_at (pt_entry s') r q j = pte_at (pt_entry s) r q j)"

lemma pt_extends_refl: "pt_inv s r \<Longrightarrow> pt_extends s s r"
  by (simp add: pt_extends_def)

lemma pt_extends_trans: "pt_extends s1 s2 r \<Longrightarrow> pt_extends s2 s3 r \<Longrightarrow> pt_extends s1 s3 r"
  unfolding pt_extends_def by (elim conjE) (intro conjI; (simp | blast))

lemma get_next_table_present:
  assumes "pt_entry s t i AND PTE_PRESENT \<noteq> 0"
  shows "get_next_table (pa2kva s t) i b flags s = (pa2kva s (PTE_GET_ADDR (pt_entry s t i)), s)"
  using assms by (simp add: get_next_table_def pt_entry_def Let_def)

text \<open>The entries after a frame \<open>f\<close> has been cleared and entered at \<open>(t, i)\<close>.\<close>

lemma pt_entry_new_table:
  assumes "hhdm_ok s" "frame_ok s t" "frame_ok s f" "t \<noteq> f" "i < 512"
    and s': "kmem s' = write64 (memset (kmem s) (pa2kva s f) 0 PAGE_SIZE) (pa2kva s t + 8 * i) v"
      "HHDM_OFFSET s' = HHDM_OFFSET s"
  shows "pt_entry s' t i = v" and "cleared (pt_entry s') f"
    and "frame_ok s x \<Longrightarrow> x \<noteq> f \<Longrightarrow> j < 512 \<Longrightarrow> \<not> (x = t \<and> j = i) \<Longrightarrow> pt_entry s' x j = pt_entry s x j"
proof -
  have kva: "pa2kva s' x = pa2kva s x" for x using s'(2) by (simp add: pa2kva_def)
  note pg = frame_kva(2) [OF assms(1)]
  show "pt_entry s' t i = v" by (simp add: pt_entry_def kva s'(1))
  show "cleared (pt_entry s') f" unfolding cleared_def pt_entry_def kva s'(1)
    using pg [OF assms(2)] pg [OF assms(3)] assms(4,5) by (simp add: read64_write64_entry read64_memset_same)
  assume "frame_ok s x" "x \<noteq> f" "j < 512" "\<not> (x = t \<and> j = i)"
  then show "pt_entry s' x j = pt_entry s x j" unfolding pt_entry_def kva s'(1)
    using pg assms(2,3,5) by (subst read64_write64_entry) (auto simp: read64_memset_other)
qed

lemma get_next_table_new:
  assumes inv: "pt_inv s r" and p: "tpath (p @ [i])" "walk (pt_entry s) r p = Some t"
    and empty: "pt_entry s t i AND PTE_PRESENT = 0" and fl: "table_flags flags"
    and ne: "free_frames s \<noteq> {}"
  defines "res \<equiv> get_next_table (pa2kva s t) i True flags s"
  shows "pt_extends s (snd res) r \<and> fst res \<noteq> 0
    \<and> (\<exists>f. fst res = pa2kva s f \<and> walk (pt_entry (snd res)) r (p @ [i]) = Some f)"
proof -
  have pi: "pmm_inv s" and h: "hhdm_ok s" and tr: "tree (pt_entry s) r" using inv by (simp_all add: pt_inv_def)
  have tT: "t \<in> tables (pt_entry s) r" using tablesI [OF tpath_snocD(1) [OF p(1)] p(2)] .
  have ok: "frame_ok s x \<and> pa2pgidx x \<notin> free_frames s" if "x \<in> tables (pt_entry s) r" for x
    using inv that by (simp add: pt_inv_def)
  define f where "f = fst (pmm_alloc_page s)"
  have f0: "f \<noteq> 0" using pm.alloc_zero_iff [OF pi] ne by (simp add: f_def)
  note fok = alloc_frame [OF pi f0 [unfolded f_def], folded f_def]
  have fT: "f \<notin> tables (pt_entry s) r" using ok fok(2) by blast
  have i: "i < 512" using tpath_snocD(2) [OF p(1)] .
  define s1 where "s1 = snd (pmm_alloc_page s)"
  define s' where "s' = s1\<lparr>kmem := write64 (memset (kmem s) (pa2kva s f) 0 PAGE_SIZE) (pa2kva s t + 8 * i) (f OR flags)\<rparr>"
  have kva1: "pa2kva s1 f = pa2kva s f" by (simp add: s1_def pa2kva_def)
  have res: "res = (pa2kva s f, s')"
    using empty f0 kva1 unfolding res_def get_next_table_def Let_def pt_entry_def [symmetric]
    by (simp add: case_prod_unfold f_def [symmetric] s1_def [symmetric] s'_def) (simp add: s1_def)
  have km: "kmem s' = write64 (memset (kmem s) (pa2kva s f) 0 PAGE_SIZE) (pa2kva s t + 8 * i) (f OR flags)"
    and hh: "HHDM_OFFSET s' = HHDM_OFFSET s" and tot: "total_pages s' = total_pages s"
    and k4: "kernel_pml4 s' = kernel_pml4 s"
    and ff: "free_frames s' = free_frames s - {pa2pgidx f}" and pi': "pmm_inv s'"
    using pm.alloc_fresh(2) [OF pi f0 [unfolded f_def]] pmm_alloc_page_inv [OF pi]
    by (simp_all add: s'_def s1_def f_def)
  have tf: "t \<noteq> f" using tT fT by blast
  note ent = pt_entry_new_table [OF h conjunct1 [OF ok [OF tT]] fok(1) tf i km hh]
  have ag: "agree_but (pt_entry s) (pt_entry s') r t i"
    unfolding agree_but_def using ent(3) ok fT by blast
  have addr: "PTE_GET_ADDR (pt_entry s' t i) = f" "pt_entry s' t i AND 1 \<noteq> 0"
    using entry_fields [OF frame_addr_mask [OF h fok(1)]] fl ent(1) present_or
    by (simp_all add: table_flags_def)
  note add = walk_add_table_mono [OF tr p empty addr(2,1) fT ent(2) ag]
  have "walk (pt_entry s') r (p @ [i]) = Some f"
    using walk_add_table [OF tr p empty addr(2,1) fT ent(2) ag p(1)] by simp
  moreover have "pt_inv s' r"
    using add(1,2) ok fok tot hh h pi' ff
    by (auto simp: pt_inv_def frame_ok_def hhdm_ok_def)
  ultimately show ?thesis
    using res add(3,4) ff hh tot k4 frame_kva(1) [OF h fok(1)] by (auto simp: pt_extends_def)
qed

text \<open>One step of \<^verbatim>\<open>vmm_map_page\<close>: it fails only when no frame is left.\<close>

lemma get_next_table_alloc:
  assumes inv: "pt_inv s r" and p: "tpath (p @ [i])" "walk (pt_entry s) r p = Some t"
    and fl: "table_flags flags"
  obtains (fail) "free_frames s = {}" "get_next_table (pa2kva s t) i True flags s = (0, s)"
  | (table) u s' where "get_next_table (pa2kva s t) i True flags s = (pa2kva s u, s')" "pa2kva s u \<noteq> 0"
      "pt_extends s s' r" "walk (pt_entry s') r (p @ [i]) = Some u"
proof (cases "pt_entry s t i AND PTE_PRESENT = 0")
  case False
  have w: "walk (pt_entry s) r (p @ [i]) = Some (PTE_GET_ADDR (pt_entry s t i))"
    using p(2) False by (simp add: walk_snoc)
  then have "frame_ok s (PTE_GET_ADDR (pt_entry s t i))" "hhdm_ok s"
    using inv tablesI [OF p(1)] by (auto simp: pt_inv_def)
  then show ?thesis
    using table [OF get_next_table_present [OF False] _ pt_extends_refl [OF inv] w] frame_kva(1) by blast
next
  case True
  show ?thesis
  proof (cases "free_frames s = {}")
    case none: True
    have "pmm_inv s" using inv by (simp add: pt_inv_def)
    then show ?thesis
      using fail none True pmm_alloc_page_fail [OF _ none]
      by (simp add: get_next_table_def Let_def pt_entry_def)
  next
    case False
    show ?thesis
      using get_next_table_new [OF inv p True fl False] table by (metis prod.collapse)
  qed
qed

lemma index_bounds: "PML4_IDX va < 512" "PDPT_IDX va < 512" "PD_IDX va < 512" "PT_IDX va < 512"
proof -
  have "x AND 0x1FF < (512 :: u64)" for x
    using word_and_le1 [of x "0x1FF"] by (rule order_le_less_trans) simp
  then show "PML4_IDX va < 512" "PDPT_IDX va < 512" "PD_IDX va < 512" "PT_IDX va < 512"
    by (simp_all add: PML4_IDX_def PDPT_IDX_def PD_IDX_def PT_IDX_def)
qed

abbreviation va_path :: "u64 \<Rightarrow> u64 list" where
  "va_path va \<equiv> [PML4_IDX va, PDPT_IDX va, PD_IDX va]"

lemma va_path_tpath: "tpath (va_path va)" "tpath []" "tpath [PML4_IDX va]" "tpath [PML4_IDX va, PDPT_IDX va]"
  by (simp_all add: tpath_def index_bounds)

lemma pt_extendsD:
  assumes "pt_extends s s' r"
  shows "pt_inv s' r" "free_frames s' \<subseteq> free_frames s" "HHDM_OFFSET s' = HHDM_OFFSET s"
    "pa2kva s' = pa2kva s" "total_pages s' = total_pages s" "kernel_pml4 s' = kernel_pml4 s"
  using assms by (auto simp: pt_extends_def pa2kva_def)

text \<open>The three table steps: either all succeed or memory has run out.\<close>

lemma vmm_map_page_tables:
  assumes inv: "pt_inv s r" and fl: "table_flags flags"
  obtains (fail) "free_frames (vmm_map_page (pa2kva s r) va pa flags s) = {}"
      "pt_extends s (vmm_map_page (pa2kva s r) va pa flags s) r"
  | (table) t s3 where "pt_extends s s3 r" "walk (pt_entry s3) r (va_path va) = Some t"
      "vmm_map_page (pa2kva s r) va pa flags s
         = s3\<lparr>kmem := write64 (kmem s3) (pa2kva s3 t + 8 * PT_IDX va) (pa OR flags OR PTE_PRESENT)\<rparr>"
proof (cases rule: get_next_table_alloc [OF inv, of "[]" "PML4_IDX va" r flags])
  case 4
  then show ?thesis using fail inv by (simp add: vmm_map_page_def pt_extends_refl)
next
  case (5 u1 s1)
  note e1 = pt_extendsD [OF 5(3)]
  show ?thesis
  proof (cases rule: get_next_table_alloc [OF e1(1), of "[PML4_IDX va]" "PDPT_IDX va" u1 flags])
    case 4
    then show ?thesis using fail 5 e1 by (simp add: vmm_map_page_def)
  next
    case two: (5 u2 s2)
    note e2 = pt_extendsD [OF two(3)]
    show ?thesis
    proof (cases rule: get_next_table_alloc [OF e2(1), of "[PML4_IDX va, PDPT_IDX va]" "PD_IDX va" u2 flags])
      case 4
      then show ?thesis using fail 5 two e1 e2 pt_extends_trans [OF 5(3) two(3)] by (simp add: vmm_map_page_def)
    next
      case three: (5 u3 s3)
      note e3 = pt_extendsD [OF three(3)]
      show ?thesis
      proof (rule table)
        show "pt_extends s s3 r" using 5(3) two(3) three(3) by (blast intro: pt_extends_trans)
        show "walk (pt_entry s3) r (va_path va) = Some u3" using three(4) by simp
        show "vmm_map_page (pa2kva s r) va pa flags s
         = s3\<lparr>kmem := write64 (kmem s3) (pa2kva s3 u3 + 8 * PT_IDX va) (pa OR flags OR PTE_PRESENT)\<rparr>"
          using 5 two three e1(4) e2(4) e3(4) by (simp add: vmm_map_page_def)
      qed
    qed (use two fl va_path_tpath in simp_all)
  qed (use 5 fl va_path_tpath in simp_all)
qed (use fl va_path_tpath in simp_all)

subsection \<open>Mapping a page\<close>

text \<open>The page of a virtual address: the bits the four indices are taken from.\<close>

definition same_page :: "u64 \<Rightarrow> u64 \<Rightarrow> bool" where
  "same_page va va' \<longleftrightarrow> va AND 0x0000FFFFFFFFF000 = va' AND 0x0000FFFFFFFFF000"

lemma index_eq_bits:
  fixes va va' :: u64
  shows "drop_bit k va AND 0x1FF = drop_bit k va' AND 0x1FF \<longleftrightarrow> (\<forall>n. k \<le> n \<and> n < k + 9 \<longrightarrow> bit va n = bit va' n)"
proof -
  have m: "(0x1FF :: u64) = mask 9" by (simp add: mask_eq_exp_minus_1)
  show ?thesis
  proof
    assume eq: "drop_bit k va AND 0x1FF = drop_bit k va' AND 0x1FF"
    show "\<forall>n. k \<le> n \<and> n < k + 9 \<longrightarrow> bit va n = bit va' n"
    proof (intro allI impI)
      fix n assume n: "k \<le> n \<and> n < k + 9"
      from eq have "bit (drop_bit k va AND mask 9) (n - k) = bit (drop_bit k va' AND mask 9) (n - k)"
        by (simp add: m)
      then show "bit va n = bit va' n" using n bit_imp_le_length [of va n] bit_imp_le_length [of va' n]
        by (auto simp: bit_simps)
    qed
  next
    assume "\<forall>n. k \<le> n \<and> n < k + 9 \<longrightarrow> bit va n = bit va' n"
    then show "drop_bit k va AND 0x1FF = drop_bit k va' AND 0x1FF"
      unfolding m by (intro bit_word_eqI) (auto simp: bit_simps)
  qed
qed

lemma same_page_bits: "same_page va va' \<longleftrightarrow> (\<forall>n. 12 \<le> n \<and> n < 48 \<longrightarrow> bit va n = bit va' n)"
proof -
  have m: "0x0000FFFFFFFFF000 = push_bit 12 (mask 36 :: u64)" by (simp add: mask_eq_exp_minus_1 push_bit_eq_mult)
  show ?thesis unfolding same_page_def m bit_eq_iff
  proof
    assume eq: "\<forall>n. possible_bit TYPE(u64) n \<longrightarrow> bit (va AND push_bit 12 (mask 36)) n = bit (va' AND push_bit 12 (mask 36)) n"
    show "\<forall>n. 12 \<le> n \<and> n < 48 \<longrightarrow> bit va n = bit va' n"
    proof (intro allI impI)
      fix n :: nat assume "12 \<le> n \<and> n < 48"
      then show "bit va n = bit va' n" using eq [rule_format, of n] by (auto simp: bit_simps)
    qed
  next
    assume b: "\<forall>n. 12 \<le> n \<and> n < 48 \<longrightarrow> bit va n = bit va' n"
    show "\<forall>n. possible_bit TYPE(u64) n \<longrightarrow> bit (va AND push_bit 12 (mask 36)) n = bit (va' AND push_bit 12 (mask 36)) n"
    proof (intro allI impI)
      fix n show "bit (va AND push_bit 12 (mask 36)) n = bit (va' AND push_bit 12 (mask 36)) n"
        using b [rule_format, of n] by (auto simp: bit_simps)
    qed
  qed
qed

lemma split_bit_range:
  fixes b :: "nat \<Rightarrow> bool"
  shows "(\<forall>n. 12 \<le> n \<and> n < 48 \<longrightarrow> b n) \<longleftrightarrow> (\<forall>n. 39 \<le> n \<and> n < 39 + 9 \<longrightarrow> b n)
    \<and> (\<forall>n. 30 \<le> n \<and> n < 30 + 9 \<longrightarrow> b n) \<and> (\<forall>n. 21 \<le> n \<and> n < 21 + 9 \<longrightarrow> b n)
    \<and> (\<forall>n. 12 \<le> n \<and> n < 12 + 9 \<longrightarrow> b n)" (is "?l \<longleftrightarrow> ?r")
proof
  assume r: ?r
  show ?l
  proof (intro allI impI)
    fix n :: nat assume "12 \<le> n \<and> n < 48"
    then consider "12 \<le> n \<and> n < 12 + 9" | "21 \<le> n \<and> n < 21 + 9" | "30 \<le> n \<and> n < 30 + 9"
      | "39 \<le> n \<and> n < 39 + 9" by linarith
    then show "b n" using r by cases blast+
  qed
qed auto

lemma same_page_path: "same_page va va' \<longleftrightarrow> va_path va = va_path va' \<and> PT_IDX va = PT_IDX va'"
  unfolding same_page_bits split_bit_range PML4_IDX_def PDPT_IDX_def PD_IDX_def PT_IDX_def list.inject index_eq_bits
  by blast

text \<open>What the processor makes of a virtual address: the page tables at \<open>r\<close> are walked with its indices.\<close>

definition va_pte :: "'a paging_scheme \<Rightarrow> u64 \<Rightarrow> u64 \<Rightarrow> u64" where
  "va_pte s r va = pte_at (pt_entry s) r (va_path va) (PT_IDX va)"

definition translate :: "'a paging_scheme \<Rightarrow> u64 \<Rightarrow> u64 \<Rightarrow> u64 option" where
  "translate s r va =
     (let pte = va_pte s r va
      in if pte AND PTE_PRESENT \<noteq> 0 then Some (PTE_GET_ADDR pte OR (va AND 0xFFF)) else None)"

text \<open>\<open>s'\<close> comes from \<open>s\<close> by mapping pages: the invariant is kept and frames are only taken.\<close>

definition pt_next :: "'a paging_scheme \<Rightarrow> 'a paging_scheme \<Rightarrow> u64 \<Rightarrow> bool" where
  "pt_next s s' r \<longleftrightarrow> pt_inv s' r \<and> free_frames s' \<subseteq> free_frames s
     \<and> HHDM_OFFSET s' = HHDM_OFFSET s \<and> total_pages s' = total_pages s \<and> kernel_pml4 s' = kernel_pml4 s"

lemma vmm_map_page_spec:
  fixes va pa :: u64
  assumes inv: "pt_inv s r" and fl: "table_flags flags"
  defines "s' \<equiv> vmm_map_page (pa2kva s r) va pa flags s"
  shows "pt_next s s' r"
    and "free_frames s' \<noteq> {} \<Longrightarrow>
      va_pte s' r va' = (if same_page va va' then pa OR flags OR PTE_PRESENT else va_pte s r va')"
    and "\<not> same_page va va' \<Longrightarrow> va_pte s' r va' = va_pte s r va'"
proof -
  have "pt_next s s' r \<and> (free_frames s' \<noteq> {} \<longrightarrow> same_page va va' \<longrightarrow> va_pte s' r va' = pa OR flags OR PTE_PRESENT)
    \<and> (\<not> same_page va va' \<longrightarrow> va_pte s' r va' = va_pte s r va')" for va'
  proof (cases rule: vmm_map_page_tables [OF inv fl, of va pa])
    case 1
    then show ?thesis
      by (auto simp: s'_def pt_next_def pt_extends_def va_pte_def va_path_tpath index_bounds)
  next
    case (2 t s3)
    have inv3: "pt_inv s3 r" using 2(1) by (simp add: pt_extends_def)
    then have h: "hhdm_ok s3" and tr: "tree (pt_entry s3) r" and
      ok: "\<And>x. x \<in> tables (pt_entry s3) r \<Longrightarrow> frame_ok s3 x" by (simp_all add: pt_inv_def)
    note tT = tablesI [OF va_path_tpath(1) 2(2)]
    let ?v = "pa OR flags OR PTE_PRESENT"
    have s': "s' = s3\<lparr>kmem := write64 (kmem s3) (pa2kva s3 t + 8 * PT_IDX va) ?v\<rparr>" using 2(3) by (simp add: s'_def)
    have new: "pt_entry s' t (PT_IDX va) = ?v" by (simp add: s' pt_entry_def pa2kva_def)
    have ag: "agree_but (pt_entry s3) (pt_entry s') r t (PT_IDX va)"
      unfolding agree_but_def
    proof (intro ballI allI impI)
      fix x j assume x: "x \<in> tables (pt_entry s3) r" "j < 512" "\<not> (x = t \<and> j = PT_IDX va)"
      have "read64 (write64 (kmem s3) (pa2kva s3 t + 8 * PT_IDX va) ?v) (pa2kva s3 x + 8 * j) = read64 (kmem s3) (pa2kva s3 x + 8 * j)"
        using frame_kva(2) [OF h ok [OF tT]] frame_kva(2) [OF h ok [OF x(1)]] x(2,3) index_bounds(4)
        by (intro read64_write64_entry) auto
      then show "pt_entry s' x j = pt_entry s3 x j" by (simp add: s' pt_entry_def pa2kva_def)
    qed
    note leaf = pte_set_leaf [OF tr va_path_tpath(1) _ 2(2) index_bounds(4) ag]
    have tb: "tables (pt_entry s') r = tables (pt_entry s3) r" "tree (pt_entry s') r"
      using leaf(1,2) by simp_all
    have "pt_inv s' r" using inv3 tb by (simp add: pt_inv_def) (simp add: s' hhdm_ok_def frame_ok_def)
    then have "pt_next s s' r" using 2(1) by (simp add: pt_next_def pt_extends_def) (simp add: s')
    moreover have "va_pte s' r va' = (if same_page va va' then ?v else va_pte s3 r va')"
      using leaf(3) [of "va_path va'" "PT_IDX va'"] va_path_tpath(1) index_bounds(4) new
      by (auto simp: va_pte_def same_page_path)
    moreover have "va_pte s3 r va' = va_pte s r va'"
      using 2(1) va_path_tpath(1) index_bounds(4) by (simp add: va_pte_def pt_extends_def)
    ultimately show ?thesis by simp
  qed
  then show "pt_next s s' r"
    "free_frames s' \<noteq> {} \<Longrightarrow> va_pte s' r va' = (if same_page va va' then pa OR flags OR PTE_PRESENT else va_pte s r va')"
    "\<not> same_page va va' \<Longrightarrow> va_pte s' r va' = va_pte s r va'" by auto
qed

lemma va_pte_translate:
  assumes "va_pte s r va = pa OR flags OR PTE_PRESENT" "flags AND PTE_ADDR_MASK = 0" "pa AND PTE_ADDR_MASK = pa"
  shows "translate s r va = Some (pa OR (va AND 0xFFF))"
proof -
  have "(flags OR PTE_PRESENT) AND PTE_ADDR_MASK = 0" using assms(2) by (simp add: bit.conj_disj_distrib2)
  from entry_fields [OF assms(3) this] show ?thesis
    using present_or [of 1] by (simp add: translate_def assms(1) Let_def present_or)
qed

lemma vmm_get_pte_walk:
  assumes inv: "pt_inv s r"
  shows "vmm_get_pte (pa2kva s r) va s =
    (case walk (pt_entry s) r (va_path va) of None \<Rightarrow> 0 | Some t \<Rightarrow> pa2kva s t + 8 * PT_IDX va)"
proof -
  have nz: "pa2kva s t \<noteq> 0" if "tpath p" "walk (pt_entry s) r p = Some t" for p t
    using inv tablesI [OF that] frame_kva(1) by (auto simp: pt_inv_def)
  note step = nz [OF va_path_tpath(3)] nz [OF va_path_tpath(4)] nz [OF va_path_tpath(1)]
  show ?thesis
    using step [of va]
    by (auto simp: vmm_get_pte_def get_next_table_def Let_def pt_entry_def split: if_splits)
qed

subsection \<open>Mapping loops and the kernel's address space\<close>

lemma paged_ALIGN: "paged (ALIGN_UP a PAGE_SIZE)" "paged (ALIGN_DOWN a PAGE_SIZE)"
  unfolding ALIGN_UP_def ALIGN_DOWN_def page_mask paged_unat unat_and_not_mask
  by (simp_all add: minus_mod_eq_mult_div)

lemma page_step:
  assumes "paged i" "paged n" "i < n"
  shows "unat (i + PAGE_SIZE) = unat i + 4096" "paged (i + PAGE_SIZE)"
    "(unat n - unat i) div 4096 = Suc ((unat n - unat (i + PAGE_SIZE)) div 4096)"
proof -
  obtain p q where pq: "unat i = 4096 * p" "unat n = 4096 * q" "q < 2 ^ 52" using assms(1,2) by (metis pagedE)
  have "p < q" using assms(3) pq by (simp add: word_less_nat_alt)
  then show u: "unat (i + PAGE_SIZE) = unat i + 4096" using pq by (subst unat_add_no_overflow) simp_all
  show "paged (i + PAGE_SIZE)" using assms(1) by (intro paged_add) (simp_all add: paged_def)
  have "(unat n - unat i) div 4096 = q - p" by (simp add: pq diff_mult_distrib2 [symmetric])
  moreover have "(unat n - unat (i + PAGE_SIZE)) div 4096 = q - Suc p"
  proof -
    have "unat n - unat (i + PAGE_SIZE) = 4096 * (q - Suc p)" by (simp add: u pq diff_mult_distrib2)
    then show ?thesis by simp
  qed
  ultimately show "(unat n - unat i) div 4096 = Suc ((unat n - unat (i + PAGE_SIZE)) div 4096)"
    using \<open>p < q\<close> by simp
qed

text \<open>The pages \<open>i, i + 4096, \<dots>\<close> below \<open>n\<close> that the loops visit.\<close>

definition pages_between :: "u64 \<Rightarrow> u64 \<Rightarrow> u64 list" where
  "pages_between i n = map (\<lambda>k. i + PAGE_SIZE * of_nat k) [0..<(unat n - unat i) div 4096]"

lemma pages_between_step:
  assumes "paged i" "paged n" "i < n"
  shows "pages_between i n = i # pages_between (i + PAGE_SIZE) n"
  unfolding pages_between_def page_step(3) [OF assms]
  by (simp add: upt_conv_Cons map_Suc_upt [symmetric] algebra_simps del: upt_Suc)

lemma pages_between_empty: "\<not> i < n \<Longrightarrow> pages_between i n = []"
  by (simp add: pages_between_def word_less_nat_alt)

definition map_all :: "u64 \<Rightarrow> (u64 \<times> u64) list \<Rightarrow> 'a paging_scheme \<Rightarrow> 'a paging_scheme" where
  "map_all flags ms s = fold (\<lambda>(va, pa) s. vmm_map_page (kernel_pml4 s) va pa flags s) ms s"

lemma map_all_simps [simp]:
  "map_all flags [] s = s"
  "map_all flags (m # ms) s = map_all flags ms (vmm_map_page (kernel_pml4 s) (fst m) (snd m) flags s)"
  "map_all flags (ms @ ns) s = map_all flags ns (map_all flags ms s)"
  by (simp_all add: map_all_def case_prod_unfold)

lemma map_kernel_loop_all:
  assumes "paged i" "paged n"
  shows "map_kernel_loop kva kpa n i flags s = Some (map_all flags (map (\<lambda>d. (kva + d, kpa + d)) (pages_between i n)) s)"
  using assms(1)
proof (induction "(unat n - unat i) div 4096" arbitrary: i s)
  case 0
  then have "\<not> i < n" using page_step(3) [OF _ assms(2)] by fastforce
  then show ?case by (simp add: map_kernel_loop.simps pages_between_empty)
next
  case (Suc k)
  then have lt: "i < n" by (metis diff_is_0_eq div_0 nat.distinct(1) not_le word_le_nat_alt)
  note st = page_step [OF Suc.prems assms(2) lt]
  have "k = (unat n - unat (i + PAGE_SIZE)) div 4096" using Suc.hyps(2) st(3) by simp
  from Suc.hyps(1) [OF this st(2)] show ?case
    using lt by (simp add: map_kernel_loop.simps [of kva kpa n i] pages_between_step [OF Suc.prems assms(2) lt])
qed

lemma map_region_loop_all:
  assumes "paged i" "paged n"
  shows "map_region_loop off i n flags s = Some (map_all flags (map (\<lambda>pa. (pa + off, pa)) (pages_between i n)) s)"
  using assms(1)
proof (induction "(unat n - unat i) div 4096" arbitrary: i s)
  case 0
  then have "\<not> i < n" using page_step(3) [OF _ assms(2)] by fastforce
  then show ?case by (simp add: map_region_loop.simps pages_between_empty)
next
  case (Suc k)
  then have lt: "i < n" by (metis diff_is_0_eq div_0 nat.distinct(1) not_le word_le_nat_alt)
  note st = page_step [OF Suc.prems assms(2) lt]
  have "k = (unat n - unat (i + PAGE_SIZE)) div 4096" using Suc.hyps(2) st(3) by simp
  from Suc.hyps(1) [OF this st(2)] show ?case
    using lt by (simp add: map_region_loop.simps [of off i] pages_between_step [OF Suc.prems assms(2) lt])
qed

text \<open>The mappings \<^verbatim>\<open>paging_init\<close> asks for, in order.\<close>

definition region_maps :: "u64 \<Rightarrow> limine_memmap_entry \<Rightarrow> (u64 \<times> u64) list" where
  "region_maps hhdm e =
     (let start = ALIGN_DOWN (me_base e) PAGE_SIZE; end_pa = ALIGN_UP (me_base e + me_length e) PAGE_SIZE
      in if hhdm_type (me_type e)
         then map (\<lambda>pa. (pa + hhdm, pa)) (pages_between start end_pa)
           @ (if start \<ge> identity_end then []
              else map (\<lambda>pa. (pa, pa)) (pages_between start (min end_pa identity_end)))
         else [])"

definition boot_maps :: "limine_memmap_entry list \<Rightarrow> u64 \<Rightarrow> u64 \<Rightarrow> u64 \<Rightarrow> u64 \<Rightarrow> (u64 \<times> u64) list" where
  "boot_maps mmap hhdm ksize kva kpa =
     map (\<lambda>d. (kva + d, kpa + d)) (pages_between 0 (ALIGN_UP ksize PAGE_SIZE)) @ concat (map (region_maps hhdm) mmap)"

text \<open>The page table reached by \<open>kernel_pml4\<close> stays the one at \<open>r\<close> while pages are mapped.\<close>

lemma map_all_spec:
  fixes ms :: "(u64 \<times> u64) list"
  assumes "pt_inv s r" "kernel_pml4 s = pa2kva s r" "table_flags flags"
  defines "s' \<equiv> map_all flags ms s"
  shows "pt_next s s' r"
    and "free_frames s' \<noteq> {} \<Longrightarrow> va_pte s' r va =
      (case find (\<lambda>m. same_page (fst m) va) (rev ms) of None \<Rightarrow> va_pte s r va | Some m \<Rightarrow> snd m OR flags OR PTE_PRESENT)"
proof -
  have "pt_next s s' r \<and> (free_frames s' \<noteq> {} \<longrightarrow> (\<forall>va. va_pte s' r va =
      (case find (\<lambda>m. same_page (fst m) va) (rev ms) of None \<Rightarrow> va_pte s r va | Some m \<Rightarrow> snd m OR flags OR PTE_PRESENT)))"
    unfolding s'_def
  proof (induction ms rule: rev_induct)
    case Nil
    then show ?case using assms(1) by (simp add: pt_next_def)
  next
    case (snoc m ms)
    let ?s = "map_all flags ms s"
    from snoc have nx: "pt_next s ?s r" by simp
    then have inv: "pt_inv ?s r" and k: "kernel_pml4 ?s = pa2kva ?s r"
      using assms(2) by (simp_all add: pt_next_def pa2kva_def)
    note sp = vmm_map_page_spec [OF inv assms(3), of "fst m" "snd m"]
    have "pt_next s (vmm_map_page (pa2kva ?s r) (fst m) (snd m) flags ?s) r"
      using nx sp(1) by (auto simp: pt_next_def)
    moreover have "free_frames (vmm_map_page (pa2kva ?s r) (fst m) (snd m) flags ?s) \<noteq> {} \<Longrightarrow> free_frames ?s \<noteq> {}"
      using sp(1) by (auto simp: pt_next_def)
    ultimately show ?case using snoc.IH sp(2) by (simp add: k)
  qed
  then show "pt_next s s' r" "free_frames s' \<noteq> {} \<Longrightarrow> va_pte s' r va =
      (case find (\<lambda>m. same_page (fst m) va) (rev ms) of None \<Rightarrow> va_pte s r va | Some m \<Rightarrow> snd m OR flags OR PTE_PRESENT)"
    by blast+
qed

lemma map_memmap_all:
  assumes "pt_inv s r" "kernel_pml4 s = pa2kva s r" "table_flags flags"
  shows "map_memmap mmap flags s = Some (map_all flags (concat (map (region_maps (HHDM_OFFSET s)) mmap)) s)"
  using assms(1,2)
proof (induction mmap arbitrary: s)
  case (Cons e es)
  let ?s = "map_all flags (region_maps (HHDM_OFFSET s) e) s"
  have nx: "pt_next s ?s r" using map_all_spec(1) [OF Cons.prems assms(3)] .
  then have IH: "map_memmap es flags ?s = Some (map_all flags (concat (map (region_maps (HHDM_OFFSET s)) es)) ?s)"
    using Cons.IH [of ?s] Cons.prems by (simp add: pt_next_def pa2kva_def)
  have pi: "paged (min (ALIGN_UP (me_base e + me_length e) PAGE_SIZE) identity_end)"
    using paged_ALIGN by (simp add: min_def paged_def)
  have mn: "(if x > y then y else x) = min x y" for x y :: u64 by (auto simp: min_def)
  show ?case
  proof (cases "hhdm_type (me_type e)")
    case True
    then show ?thesis using IH pi
      by (auto simp: Let_def map_region_loop_all paged_ALIGN mn region_maps_def [of _ e])
  next
    case False
    then show ?thesis using IH by (simp add: region_maps_def [of _ e])
  qed
qed simp

text \<open>An empty top-level table.\<close>

lemma pt_inv_empty:
  assumes "pmm_inv s" "hhdm_ok s" "frame_ok s r" "pa2pgidx r \<notin> free_frames s" "cleared (pt_entry s) r"
  shows "pt_inv s r" and "va_pte s r va = 0"
proof -
  have w: "walk (pt_entry s) r p = (if p = [] then Some r else None)" if "tpath p" for p
    using assms(5) that by (cases p) (simp_all add: cleared_def tpath_def)
  have "walk (pt_entry s) r (va_path va) = None" using w [OF va_path_tpath(1)] by (simp only: list.distinct if_False)
  then show "va_pte s r va = 0" by (simp only: va_pte_def pte_at_def option.case)
  have "tables (pt_entry s) r = {r}"
    unfolding tables_def using w va_path_tpath(2) by (auto split: if_splits)
  moreover have "tree (pt_entry s) r" using w by (auto simp: tree_def)
  ultimately show "pt_inv s r" using assms by (simp add: pt_inv_def)
qed

lemma pt_next_trans: "pt_next s1 s2 r \<Longrightarrow> pt_next s2 s3 r \<Longrightarrow> pt_next s1 s3 r"
  by (auto simp: pt_next_def)

lemma paging_init_run:
  assumes inv: "pmm_inv s" "hhdm_ok s" and ne: "free_frames s \<noteq> {}"
  defines "r \<equiv> fst (pmm_alloc_page s)"
  obtains s2 where "pt_inv s2 r" "kernel_pml4 s2 = pa2kva s2 r" "HHDM_OFFSET s2 = HHDM_OFFSET s" "\<And>va. va_pte s2 r va = 0"
    "paging.more s2 = paging.more s" "paging_init mmap k_start k_end (Some (kva, kpa)) s =
       Some ((map_all (PTE_PRESENT OR PTE_RW) (boot_maps mmap (HHDM_OFFSET s) (k_end - k_start) kva kpa) s2)\<lparr>cr3 := r\<rparr>)"
proof -
  let ?fl = "PTE_PRESENT OR PTE_RW"
  have fl: "table_flags ?fl" by (simp add: table_flags_def)
  have r0: "r \<noteq> 0" using pm.alloc_zero_iff [OF inv(1)] ne by (simp add: r_def)
  define s1 where "s1 = snd (pmm_alloc_page s)"
  define s2 where "s2 = s1\<lparr>kernel_pml4 := pa2kva s1 r, kmem := memset (kmem s1) (pa2kva s1 r) 0 PAGE_SIZE\<rparr>"
  note fr = alloc_frame [OF inv(1) r0 [unfolded r_def], folded r_def]
  have v: "free_frames s2 = free_frames s1" "pmm_inv s2 = pmm_inv s1"
    unfolding s2_def by (simp_all only: pmm_view_paging)
  have "pmm_inv s2" using v(2) pmm_alloc_page_inv [OF inv(1)] by (simp add: s1_def)
  moreover have "hhdm_ok s2" "frame_ok s2 r" using inv(2) fr(1) by (simp_all add: s2_def s1_def hhdm_ok_def frame_ok_def)
  moreover have "pa2pgidx r \<notin> free_frames s2"
    using v(1) pm.alloc_fresh(2) [OF inv(1) r0 [unfolded r_def]] by (simp add: s1_def r_def)
  moreover have "cleared (pt_entry s2) r"
    by (simp add: cleared_def pt_entry_def pa2kva_def s2_def read64_memset_same)
  ultimately have p2: "pt_inv s2 r" "\<And>va. va_pte s2 r va = 0" using pt_inv_empty by blast+
  have k2: "kernel_pml4 s2 = pa2kva s2 r" "HHDM_OFFSET s2 = HHDM_OFFSET s" by (simp_all add: s2_def pa2kva_def s1_def)
  let ?km = "map (\<lambda>d. (kva + d, kpa + d)) (pages_between 0 (ALIGN_UP (k_end - k_start) PAGE_SIZE))"
  let ?s3 = "map_all ?fl ?km s2"
  have nx: "pt_next s2 ?s3 r" using map_all_spec(1) [OF p2(1) k2(1) fl] .
  then have "pt_inv ?s3 r" "kernel_pml4 ?s3 = pa2kva ?s3 r" "HHDM_OFFSET ?s3 = HHDM_OFFSET s"
    using k2 by (simp_all add: pt_next_def pa2kva_def)
  note m3 = map_memmap_all [OF this(1,2) fl, of mmap, unfolded this(3)]
  have "map_kernel_loop kva kpa (ALIGN_UP (k_end - k_start) PAGE_SIZE) 0 ?fl s2 = Some ?s3"
    by (rule map_kernel_loop_all [OF _ paged_ALIGN(1)]) (simp add: paged_def)
  then have "paging_init mmap k_start k_end (Some (kva, kpa)) s =
       Some ((map_all ?fl (boot_maps mmap (HHDM_OFFSET s) (k_end - k_start) kva kpa) s2)\<lparr>cr3 := r\<rparr>)"
    using r0 m3 unfolding paging_init_def case_prod_unfold r_def [symmetric] s1_def [symmetric]
    by (simp add: Let_def s2_def [symmetric] boot_maps_def)
  moreover have "paging.more s2 = paging.more s"
    by (simp add: s2_def s1_def pmm_alloc_page_def pmm_take_def bit_set_def split: option.split)
  ultimately show thesis using p2 k2 by (intro that [of s2])
qed

lemma find_consistent:
  assumes "m \<in> set ms" "P m" "\<And>n. n \<in> set ms \<Longrightarrow> P n \<Longrightarrow> f n = f m"
  shows "\<exists>n. find P ms = Some n \<and> f n = f m"
proof -
  have "find P ms \<noteq> None" using assms(1,2) by (auto simp: find_None_iff)
  then obtain n where n: "find P ms = Some n" by blast
  then have "n \<in> set ms" "P n" by (auto simp: find_Some_iff)
  with n assms(3) show ?thesis by blast
qed

lemma pt_view_cr3 [simp]:
  "pt_inv (s\<lparr>cr3 := c\<rparr>) r = pt_inv s r" "translate (s\<lparr>cr3 := c\<rparr>) r va = translate s r va"
  "pa2kva (s\<lparr>cr3 := c\<rparr>) = pa2kva s"
proof -
  have k: "pa2kva (s\<lparr>cr3 := c\<rparr>) = pa2kva s" by (simp add: pa2kva_def fun_eq_iff)
  have "pt_entry (s\<lparr>cr3 := c\<rparr>) = pt_entry s" by (rule pt_entry_cong) simp_all
  then show "pt_inv (s\<lparr>cr3 := c\<rparr>) r = pt_inv s r" "translate (s\<lparr>cr3 := c\<rparr>) r va = translate s r va"
    by (simp_all add: pt_inv_def translate_def va_pte_def hhdm_ok_def frame_ok_def)
qed (simp add: pa2kva_def fun_eq_iff)

lemma paging_init_spec:
  assumes "pmm_inv s" "hhdm_ok s" "free_frames s \<noteq> {}"
  shows "\<exists>s'. paging_init mmap k_start k_end (Some (kva, kpa)) s = Some s' \<and> pt_inv s' (cr3 s')
    \<and> kernel_pml4 s' = pa2kva s' (cr3 s')
    \<and> (free_frames s' \<noteq> {} \<longrightarrow>
        (\<forall>va pa. (va, pa) \<in> set (boot_maps mmap (HHDM_OFFSET s) (k_end - k_start) kva kpa) \<longrightarrow> pa AND PTE_ADDR_MASK = pa
          \<longrightarrow> (\<forall>(va', pa') \<in> set (boot_maps mmap (HHDM_OFFSET s) (k_end - k_start) kva kpa). same_page va' va \<longrightarrow> pa' = pa)
          \<longrightarrow> translate s' (cr3 s') va = Some (pa OR (va AND 0xFFF))))"
proof (rule paging_init_run [OF assms, of mmap k_start k_end kva kpa])
  let ?fl = "PTE_PRESENT OR PTE_RW" and ?ms = "boot_maps mmap (HHDM_OFFSET s) (k_end - k_start) kva kpa"
  let ?r = "fst (pmm_alloc_page s)"
  fix s2 assume inv: "pt_inv s2 ?r" "kernel_pml4 s2 = pa2kva s2 ?r"
    and run: "paging_init mmap k_start k_end (Some (kva, kpa)) s = Some ((map_all ?fl ?ms s2)\<lparr>cr3 := ?r\<rparr>)"
  have fl: "table_flags ?fl" by (simp add: table_flags_def)
  note sp = map_all_spec [OF inv fl, of ?ms]
  have tr: "translate (map_all ?fl ?ms s2) ?r va = Some (pa OR (va AND 0xFFF))"
    if ff: "free_frames (map_all ?fl ?ms s2) \<noteq> {}" and m: "(va, pa) \<in> set ?ms" "pa AND PTE_ADDR_MASK = pa"
      and un: "\<forall>(va', pa') \<in> set ?ms. same_page va' va \<longrightarrow> pa' = pa" for va pa
  proof -
    have "\<exists>n. find (\<lambda>m. same_page (fst m) va) (rev ?ms) = Some n \<and> snd n = snd (va, pa)"
      by (rule find_consistent) (use m un in \<open>auto simp: same_page_def\<close>)
    then have "va_pte (map_all ?fl ?ms s2) ?r va = pa OR ?fl OR PTE_PRESENT" using sp(2) [OF ff, of va] by auto
    from va_pte_translate [OF this] m(2) show ?thesis by simp
  qed
  have "kernel_pml4 (map_all ?fl ?ms s2) = pa2kva (map_all ?fl ?ms s2) ?r"
    using sp(1) inv(2) by (simp add: pt_next_def pa2kva_def)
  moreover have "pt_inv (map_all ?fl ?ms s2) ?r" using sp(1) by (simp add: pt_next_def)
  ultimately show ?thesis unfolding run using tr by auto
qed

subsection \<open>Releasing a user address space\<close>

text \<open>
  The frames that the entries from \<open>i\<close> on of a table of a level refer to, with those of the tables
  below. Level 4 has only its lower half: the upper half is the kernel's.
\<close>

primrec owned :: "entries \<Rightarrow> nat \<Rightarrow> u64 \<Rightarrow> u64 \<Rightarrow> u64 set" where
  "owned E 0 i t = {}"
| "owned E (Suc n) i t =
     (\<Union>j \<in> {j. i \<le> j \<and> j < pgtable_limit (Suc n) \<and> E t j AND PTE_PRESENT \<noteq> 0}.
        insert (PTE_GET_ADDR (E t j)) (owned E n 0 (PTE_GET_ADDR (E t j))))"

lemma owned_step:
  assumes "i < pgtable_limit (Suc n)"
  shows "owned E (Suc n) i t = owned E (Suc n) (i + 1) t
    \<union> (if E t i AND PTE_PRESENT \<noteq> 0 then insert (PTE_GET_ADDR (E t i)) (owned E n 0 (PTE_GET_ADDR (E t i))) else {})"
proof -
  have "{j. i \<le> j \<and> j < pgtable_limit (Suc n) \<and> E t j AND PTE_PRESENT \<noteq> 0}
      = {j. i + 1 \<le> j \<and> j < pgtable_limit (Suc n) \<and> E t j AND PTE_PRESENT \<noteq> 0} \<union> (if E t i AND PTE_PRESENT \<noteq> 0 then {i} else {})"
    using word_le_step [OF assms] assms by auto
  then show ?thesis by auto
qed

lemma owned_end: "\<not> i < pgtable_limit (Suc n) \<Longrightarrow> owned E (Suc n) i t = {}"
  by (auto simp: not_less)

definition released :: "'a paging_scheme \<Rightarrow> u64 set \<Rightarrow> 'a paging_scheme \<Rightarrow> bool" where
  "released s A s' \<longleftrightarrow> kmem s' = kmem s \<and> HHDM_OFFSET s' = HHDM_OFFSET s \<and> total_pages s' = total_pages s
     \<and> kernel_pml4 s' = kernel_pml4 s \<and> cr3 s' = cr3 s \<and> pmm_inv s'
     \<and> free_frames s' = free_frames s \<union> {i \<in> pa2pgidx ` A. i < total_pages s}"

lemma released_empty: "pmm_inv s \<Longrightarrow> released s {} s"
  by (simp add: released_def)

lemma released_trans: "released s A s1 \<Longrightarrow> released s1 B s2 \<Longrightarrow> released s (A \<union> B) s2"
  unfolding released_def by auto

lemma released_one: "pmm_inv s \<Longrightarrow> pa2pgidx a \<noteq> 0 \<Longrightarrow> released s {a} (pmm_free_page a s)"
  by (auto simp: released_def free_frames_pmm_free_page pmm_free_page_inv)

lemma pgtable_free_loop_spec:
  assumes "pmm_inv s" "0 < level" "\<forall>a \<in> owned (pt_entry s) level i t. pa2pgidx a \<noteq> 0"
  shows "released s (owned (pt_entry s) level i t) (pgtable_free_loop level (pa2kva s t) i s)"
  using assms
proof (induction level "pa2kva s t" i s arbitrary: t rule: pgtable_free_loop.induct)
  case (1 level i s)
  obtain n where n: "level = Suc n" using "1.prems"(2) by (cases level) auto
  show ?case
  proof (cases "i < pgtable_limit level")
    case False
    then have "owned (pt_entry s) level i t = {}" unfolding n by (rule owned_end)
    then show ?thesis using "1.prems"(1) False by (simp add: pgtable_free_loop.simps released_empty)
  next
    case True
    let ?E = "pt_entry s"
    let ?e = "?E t i" and ?a = "PTE_GET_ADDR (pt_entry s t i)"
    define s1 where "s1 = (if ?e AND PTE_PRESENT \<noteq> 0
        then pmm_free_page ?a (if level > 1 then pgtable_free_loop (level - 1) (pa2kva s ?a) 0 s else s) else s)"
    define B where "B = (if ?e AND PTE_PRESENT \<noteq> 0 then insert ?a (owned ?E n 0 ?a) else {})"
    have split: "owned ?E level i t = owned ?E level (i + 1) t \<union> B"
      unfolding B_def n using True n by (intro owned_step) simp
    have step: "pgtable_free_loop level (pa2kva s t) i s = pgtable_free_loop level (pa2kva s t) (i + 1) s1"
      using True by (subst pgtable_free_loop.simps) (simp add: s1_def Let_def pt_entry_def)
    have r1: "released s B s1"
    proof (cases "?e AND PTE_PRESENT \<noteq> 0")
      case False
      then show ?thesis using "1.prems"(1) by (simp add: s1_def B_def released_empty)
    next
      case pr: True
      have nz: "pa2pgidx a \<noteq> 0" if "a \<in> insert ?a (owned ?E n 0 ?a)" for a
        using "1.prems"(3) that pr unfolding split B_def by auto
      have sub: "released s (owned ?E n 0 ?a) (if level > 1 then pgtable_free_loop (level - 1) (pa2kva s ?a) 0 s else s)"
      proof (cases "level > 1")
        case lv: True
        have "released s (owned ?E (level - 1) 0 ?a) (pgtable_free_loop (level - 1) (pa2kva s ?a) 0 s)"
          using "1.prems"(1) lv nz n pr True
          by (intro "1.hyps"(1)) (auto simp: pt_entry_def)
        then show ?thesis using lv n by simp
      next
        case False
        then show ?thesis using n "1.prems"(1) by (simp add: released_empty)
      qed
      from released_trans [OF sub released_one, of ?a] show ?thesis
        using sub nz pr by (simp add: s1_def B_def released_def Un_commute)
    qed
    then have s1: "pmm_inv s1" "pa2kva s1 t = pa2kva s t" "pt_entry s1 = ?E"
      using pt_entry_cong [of s1 s] by (simp_all add: released_def pa2kva_def)
    have "released s1 (owned (pt_entry s1) level (i + 1) t) (pgtable_free_loop level (pa2kva s1 t) (i + 1) s1)"
      using s1 "1.prems" split "1.hyps"(2) [OF True refl refl, folded pt_entry_def, folded s1_def, of t] by auto
    with r1 show ?thesis unfolding step split s1(3) s1(2) by (subst Un_commute) (rule released_trans)
  qed
qed

subsection \<open>An example address space\<close>

definition example_paging :: paging where
  "example_paging = \<lparr>l_next = (\<lambda>_. 0), l_prev = (\<lambda>_. 0), bitmap = (\<lambda>i. if i = 0 then 3 else 0),
     bitmap_va = 0xFFFF800000001000, bitmap_size = 2, total_pages = 16, free_pages = 14, last_free_index = 2,
     kmem = (\<lambda>_. 0), HHDM_OFFSET = 0xFFFF800000000000, kernel_pml4 = 0, cr3 = 0\<rparr>"

lemma u64_less_16:
  assumes "i < (16 :: u64)"
  shows "i \<in> {0, 1, 2, 3, 4, 5, 6, 7, 8, 9, 10, 11, 12, 13, 14, 15}"
proof -
  have "unat i \<in> set [0..<16]" using assms by (simp add: word_less_nat_alt)
  then have "of_nat (unat i) \<in> (of_nat :: nat \<Rightarrow> u64) ` set [0..<16]" by (rule imageI)
  moreover have "(of_nat :: nat \<Rightarrow> u64) ` set [0..<16] = {0, 1, 2, 3, 4, 5, 6, 7, 8, 9, 10, 11, 12, 13, 14, 15}"
    by code_simp
  ultimately show ?thesis by simp
qed

lemma example_paging_facts:
  "free_frames example_paging = {2, 3, 4, 5, 6, 7, 8, 9, 10, 11, 12, 13, 14, 15}"
  "pmm_inv example_paging" "hhdm_ok example_paging"
  "kmem example_paging = (\<lambda>_. 0)" "HHDM_OFFSET example_paging = 0xFFFF800000000000" "total_pages example_paging = 16"
proof -
  have "\<forall>i \<in> {0, 1, 2, 3, 4, 5, 6, 7, 8, 9, 10, 11, 12, 13, 14, 15}. bit_test example_paging i \<longleftrightarrow> i \<in> {0, 1}"
    unfolding example_paging_def by code_simp
  then have "bit_test example_paging i \<longleftrightarrow> i \<in> {0, 1}" if "i < 16" for i
    using u64_less_16 [OF that] by blast
  moreover have t: "total_pages example_paging = 16" by (simp add: example_paging_def)
  ultimately show ff: "free_frames example_paging = {2, 3, 4, 5, 6, 7, 8, 9, 10, 11, 12, 13, 14, 15}"
    using u64_less_16 by (auto simp: free_frames_def)
  show "pmm_inv example_paging" unfolding pmm_inv_def ff by (simp add: example_paging_def)
  show "hhdm_ok example_paging" by (simp add: hhdm_ok_def example_paging_def paged_def)
qed (simp_all add: example_paging_def)

lemma example_pt_inv: "pt_inv example_paging 0x1000"
  using example_paging_facts
  by (intro pt_inv_empty) (simp_all add: frame_ok_def paged_def pa2pgidx_def cleared_def pt_entry_def read64_def)

declare memset_eq [code]

lemma example_map_left: "bit_test (vmm_map_page (pa2kva example_paging 0x1000) 0x400000 0x7000 7 example_paging) 15 = False"
  unfolding example_paging_def by code_simp

lemma example_map_free:
  "free_frames (vmm_map_page (pa2kva example_paging 0x1000) 0x400000 0x7000 7 example_paging) \<noteq> {}"
proof -
  have "pt_next example_paging (vmm_map_page (pa2kva example_paging 0x1000) 0x400000 0x7000 7 example_paging) 0x1000"
    by (rule vmm_map_page_spec(1) [OF example_pt_inv]) (simp add: table_flags_def)
  then show ?thesis using example_map_left example_paging_facts(6) by (auto simp: free_frames_def pt_next_def)
qed

subsection \<open>Properties\<close>

text \<open>
  C1: mapping a page. \<^verbatim>\<open>vmm_map_page\<close> keeps the tree of page tables well formed and changes the
  translation of no other page, whatever tables it had to create; and as long as frames are left
  afterwards, the processor's walk of the tables translates every address of the page at \<open>va\<close> to the
  same offset in the frame \<open>pa\<close>.
\<close>

theorem vmm_map_page_translates:
  assumes "pt_inv s r" "table_flags flags" "pa AND PTE_ADDR_MASK = pa"
  shows "pt_inv (vmm_map_page (pa2kva s r) va pa flags s) r
    \<and> (\<not> same_page va va' \<longrightarrow> translate (vmm_map_page (pa2kva s r) va pa flags s) r va' = translate s r va')
    \<and> (same_page va va' \<longrightarrow> free_frames (vmm_map_page (pa2kva s r) va pa flags s) \<noteq> {} \<longrightarrow>
        translate (vmm_map_page (pa2kva s r) va pa flags s) r va' = Some (pa OR (va' AND 0xFFF)))"
proof -
  note sp = vmm_map_page_spec(1) [OF assms(1,2), where va = va and pa = pa]
    vmm_map_page_spec(2,3) [OF assms(1,2), where va = va and pa = pa and va' = va']
  have fl: "flags AND PTE_ADDR_MASK = 0" using assms(2) by (simp add: table_flags_def)
  have "\<not> same_page va va' \<Longrightarrow> translate (vmm_map_page (pa2kva s r) va pa flags s) r va' = translate s r va'"
    using sp(3) by (simp add: translate_def)
  moreover have "same_page va va' \<Longrightarrow> free_frames (vmm_map_page (pa2kva s r) va pa flags s) \<noteq> {} \<Longrightarrow>
      translate (vmm_map_page (pa2kva s r) va pa flags s) r va' = Some (pa OR (va' AND 0xFFF))"
    using va_pte_translate [OF _ fl assms(3)] sp(2) by simp
  ultimately show ?thesis using sp(1) by (simp add: pt_next_def)
qed

theorem vmm_map_page_translates_witness:
  "translate (vmm_map_page (pa2kva example_paging 0x1000) 0x400000 0x7000 7 example_paging) 0x1000 0x400123 = Some 0x7123
   \<and> translate (vmm_map_page (pa2kva example_paging 0x1000) 0x400000 0x7000 7 example_paging) 0x1000 0x401000
     = translate example_paging 0x1000 0x401000"
  using vmm_map_page_translates [OF example_pt_inv, of 7 "0x7000" "0x400000" "0x400123"]
    vmm_map_page_translates [OF example_pt_inv, of 7 "0x7000" "0x400000" "0x401000"] example_map_free
  by (simp add: table_flags_def same_page_def)

text \<open>
  \<^verbatim>\<open>vmm_get_pte\<close> finds what \<^verbatim>\<open>vmm_map_page\<close> stored: after a successful mapping it returns a pointer that
  is not \<^verbatim>\<open>NULL\<close> and whose word is the frame's address with the flags and the present bit.
\<close>

theorem vmm_get_pte_after_map:
  assumes "pt_inv s r" "table_flags flags" "free_frames (vmm_map_page (pa2kva s r) va pa flags s) \<noteq> {}"
  shows "vmm_get_pte (pa2kva s r) va (vmm_map_page (pa2kva s r) va pa flags s) \<noteq> 0
    \<and> read64 (kmem (vmm_map_page (pa2kva s r) va pa flags s))
        (vmm_get_pte (pa2kva s r) va (vmm_map_page (pa2kva s r) va pa flags s)) = pa OR flags OR PTE_PRESENT"
proof -
  let ?s = "vmm_map_page (pa2kva s r) va pa flags s"
  note sp = vmm_map_page_spec [OF assms(1,2), of va pa]
  have inv: "pt_inv ?s r" and k: "pa2kva ?s = pa2kva s" using sp(1) by (auto simp: pt_next_def pa2kva_def)
  have v: "va_pte ?s r va = pa OR flags OR PTE_PRESENT" using sp(2) [OF assms(3), of va] by (simp add: same_page_def)
  have "pa OR flags OR PTE_PRESENT \<noteq> 0" using present_or [of 1 "pa OR flags"] by (auto simp: or.assoc)
  with v obtain t where t: "walk (pt_entry ?s) r (va_path va) = Some t" "pt_entry ?s t (PT_IDX va) = pa OR flags OR PTE_PRESENT"
    unfolding va_pte_def pte_at_def by (cases "walk (pt_entry ?s) r (va_path va)") auto
  have fr: "frame_ok ?s t" "hhdm_ok ?s" using inv tablesI [OF va_path_tpath(1) t(1)] by (auto simp: pt_inv_def)
  have "unat (pa2kva ?s t + 8 * PT_IDX va) = unat (pa2kva ?s t) + 8 * unat (PT_IDX va)"
    using entry_unat [OF frame_kva(2) [OF fr(2,1)] index_bounds(4)] .
  moreover have "unat (pa2kva ?s t) \<noteq> 0" using frame_kva(1) [OF fr(2,1)] by (simp add: unat_eq_0)
  ultimately have "pa2kva ?s t + 8 * PT_IDX va \<noteq> 0" by (metis add_is_0 unat_0)
  then show ?thesis using vmm_get_pte_walk [OF inv, of va] t k by (simp add: pt_entry_def)
qed

theorem vmm_get_pte_after_map_witness:
  "vmm_get_pte (pa2kva example_paging 0x1000) 0x400000 (vmm_map_page (pa2kva example_paging 0x1000) 0x400000 0x7000 7 example_paging) \<noteq> 0
   \<and> read64 (kmem (vmm_map_page (pa2kva example_paging 0x1000) 0x400000 0x7000 7 example_paging))
       (vmm_get_pte (pa2kva example_paging 0x1000) 0x400000 (vmm_map_page (pa2kva example_paging 0x1000) 0x400000 0x7000 7 example_paging))
     = 0x7000 OR 7 OR 1"
  by (rule vmm_get_pte_after_map [OF example_pt_inv _ example_map_free]) (simp add: table_flags_def)

text \<open>
  C12: given the kernel's load addresses and at least one free frame, \<^verbatim>\<open>paging_init\<close> ends (all its mapping
  loops do) and loads into \<^verbatim>\<open>cr3\<close> a well-formed page table, the one \<^verbatim>\<open>kernel_pml4\<close> points to. Unless the
  frames ran out, every page of the kernel image, of the direct map and of the identity map is
  translated to the frame asked for, whenever no two requests for that page disagree.
\<close>

theorem paging_init_maps:
  assumes "pmm_inv s" "hhdm_ok s" "free_frames s \<noteq> {}"
  shows "\<exists>s'. paging_init mmap k_start k_end (Some (kva, kpa)) s = Some s' \<and> pt_inv s' (cr3 s')
    \<and> kernel_pml4 s' = pa2kva s' (cr3 s')
    \<and> (free_frames s' \<noteq> {} \<longrightarrow>
        (\<forall>va pa. (va, pa) \<in> set (boot_maps mmap (HHDM_OFFSET s) (k_end - k_start) kva kpa) \<longrightarrow> pa AND PTE_ADDR_MASK = pa
          \<longrightarrow> (\<forall>(va', pa') \<in> set (boot_maps mmap (HHDM_OFFSET s) (k_end - k_start) kva kpa). same_page va' va \<longrightarrow> pa' = pa)
          \<longrightarrow> translate s' (cr3 s') va = Some (pa OR (va AND 0xFFF))))"
  by (rule paging_init_spec [OF assms])

theorem paging_init_maps_witness:
  "\<exists>s'. paging_init example_mmap 0 0x1000 (Some (0xFFFFFFFF80000000, 0x1000)) example_paging = Some s' \<and> pt_inv s' (cr3 s')"
proof -
  have "free_frames example_paging \<noteq> {}" unfolding example_paging_facts(1) by blast
  from paging_init_maps [OF example_paging_facts(2,3) this, of example_mmap 0 "0x1000" "0xFFFFFFFF80000000" "0x1000"]
  show ?thesis by blast
qed



end
