(* ===== verification/Kheap.thy ===== *)
theory Kheap
  imports Paging
begin

text \<open>
  The kernel heap and the kernel stacks, the rest of \<^verbatim>\<open>mm/pmm.c\<close>. Block headers are objects at their
  addresses: the node is the header's first field, so a header's address is its node's, and the
  other two fields are maps from addresses (\<open>hb_size\<close>, \<open>hb_free\<close>). \<open>kheap_list\<close> is the address of the
  list head, a global variable.
\<close>

record kheap = paging +
  kheap_list :: u64
  kheap_top :: u64
  kstack_ptr :: u64
  hb_size :: "u64 \<Rightarrow> u64"
  hb_free :: "u64 \<Rightarrow> bool"

abbreviation (input) HEADER_SIZE :: u64 where "HEADER_SIZE \<equiv> 32"
abbreviation (input) MIN_SPLIT :: u64 where "MIN_SPLIT \<equiv> 16"
abbreviation (input) KERNEL_HEAP_BASE :: u64 where "KERNEL_HEAP_BASE \<equiv> 0xFFFF900000000000"
abbreviation (input) KSTACK_SIZE :: u64 where "KSTACK_SIZE \<equiv> 4096 * 4"

text \<open>
  The two merges of \<^verbatim>\<open>kfree\<close> test adjacency only; the neighbours are the ones read before the first
  merge.
\<close>

definition kfree_merge_next :: "u64 \<Rightarrow> u64 \<Rightarrow> 'a kheap_scheme \<Rightarrow> 'a kheap_scheme" where
  "kfree_merge_next hdr next_node s =
     (if next_node \<noteq> kheap_list s \<and> hdr + hb_size s hdr + HEADER_SIZE = next_node
      then list_del next_node
        (s\<lparr>hb_size := (hb_size s)(hdr := hb_size s hdr + (hb_size s next_node + HEADER_SIZE))\<rparr>)
      else s)"

definition kfree_merge_prev :: "u64 \<Rightarrow> u64 \<Rightarrow> 'a kheap_scheme \<Rightarrow> 'a kheap_scheme" where
  "kfree_merge_prev hdr prev_node s =
     (if prev_node \<noteq> kheap_list s \<and> prev_node + hb_size s prev_node + HEADER_SIZE = hdr
      then list_del hdr
        (s\<lparr>hb_size := (hb_size s)(prev_node := hb_size s prev_node + (hb_size s hdr + HEADER_SIZE))\<rparr>)
      else s)"

definition kfree :: "u64 \<Rightarrow> 'a kheap_scheme \<Rightarrow> 'a kheap_scheme" where
  "kfree ptr s =
     (if ptr = 0 then s
      else
        let hdr = ptr - HEADER_SIZE;
            s1 = s\<lparr>hb_free := (hb_free s)(hdr := True)\<rparr>;
            next_node = l_next s1 hdr;
            prev_node = l_prev s1 hdr
        in kfree_merge_prev hdr prev_node (kfree_merge_next hdr next_node s1))"

text \<open>One page of \<^verbatim>\<open>kheap_expand\<close>.\<close>

definition kheap_add_page :: "u64 \<Rightarrow> 'a kheap_scheme \<Rightarrow> 'a kheap_scheme" where
  "kheap_add_page pa s =
     (let s1 = vmm_map_page (kernel_pml4 s) (kheap_top s) pa (PTE_PRESENT OR PTE_RW) s;
          pghdr = kheap_top s1;
          s2 = s1\<lparr>hb_free := (hb_free s1)(pghdr := False), hb_size := (hb_size s1)(pghdr := PAGE_SIZE - HEADER_SIZE)\<rparr>;
          s3 = list_add_before pghdr (kheap_list s2) s2;
          s4 = kfree (pghdr + HEADER_SIZE) s3
      in s4\<lparr>kheap_top := kheap_top s4 + PAGE_SIZE\<rparr>)"

function kheap_expand_loop :: "u64 \<Rightarrow> u64 \<Rightarrow> 'a kheap_scheme \<Rightarrow> bool \<times> 'a kheap_scheme" where
  "kheap_expand_loop pgnum i s =
     (if i < pgnum
      then case pmm_alloc_page s of (pa, s1) \<Rightarrow>
        if pa = 0 then (False, s1) else kheap_expand_loop pgnum (i + 1) (kheap_add_page pa s1)
      else (True, s))"
  by pat_completeness auto
termination
  by (relation "measure (\<lambda>(n, i, s). unat (n - i))") (auto simp: loop_measure_decreases)

declare kheap_expand_loop.simps [simp del]

definition kheap_expand :: "u64 \<Rightarrow> 'a kheap_scheme \<Rightarrow> bool \<times> 'a kheap_scheme" where
  "kheap_expand pgnum s = kheap_expand_loop pgnum 0 s"

text \<open>The search stops at the list head; 0 stands for \<^verbatim>\<open>NULL\<close>, and a list that never returns to its head for \<open>None\<close>.\<close>

partial_function (option) first_fit_loop :: "'a kheap_scheme \<Rightarrow> u64 \<Rightarrow> u64 \<Rightarrow> u64 option" where
  "first_fit_loop s sz cur =
     (if cur = kheap_list s then Some 0
      else if hb_free s cur \<and> hb_size s cur \<ge> sz then Some cur
      else first_fit_loop s sz (l_next s cur))"

definition first_fit :: "'a kheap_scheme \<Rightarrow> u64 \<Rightarrow> u64 option" where
  "first_fit s sz = first_fit_loop s sz (l_next s (kheap_list s))"

definition take_block :: "u64 \<Rightarrow> u64 \<Rightarrow> 'a kheap_scheme \<Rightarrow> 'a kheap_scheme" where
  "take_block target sz s =
     (let s1 =
        (if hb_size s target \<ge> sz + HEADER_SIZE + MIN_SPLIT then
           let rest = target + HEADER_SIZE + sz;
               s2 = s\<lparr>hb_free := (hb_free s)(rest := True)\<rparr>;
               s3 = s2\<lparr>hb_size := (hb_size s2)(rest := hb_size s2 target - sz - HEADER_SIZE)\<rparr>;
               s4 = list_add_after rest target s3
           in s4\<lparr>hb_size := (hb_size s4)(target := sz)\<rparr>
         else s)
      in s1\<lparr>hb_free := (hb_free s1)(target := False)\<rparr>)"

definition pages_needed :: "u64 \<Rightarrow> u64" where
  "pages_needed sz =
     (let n = ALIGN_UP (sz + HEADER_SIZE) PAGE_SIZE div PAGE_SIZE in if n = 0 then 1 else n)"

text \<open>Every retry of \<^verbatim>\<open>kmalloc\<close> has taken at least one frame, so the retries end.\<close>

lemma pmm_alloc_page_counts:
  "fst (pmm_alloc_page s) \<noteq> 0 \<Longrightarrow> unat (free_pages (snd (pmm_alloc_page s))) < unat (free_pages s)"
  by (auto simp: pmm_alloc_page_def split: if_splits option.splits)

lemma pmm_alloc_page_counts_le: "unat (free_pages (snd (pmm_alloc_page s))) \<le> unat (free_pages s)"
  by (auto simp: pmm_alloc_page_def less_imp_le split: if_splits option.splits)

lemma get_next_table_counts_le: "unat (free_pages (snd (get_next_table t i b fl s))) \<le> unat (free_pages s)"
  using pmm_alloc_page_counts_le [of s]
  by (auto simp: get_next_table_def Let_def case_prod_unfold)

lemma vmm_map_page_counts_le: "unat (free_pages (vmm_map_page r va pa fl s)) \<le> unat (free_pages s)"
proof -
  let ?s1 = "snd (get_next_table r (PML4_IDX va) True fl s)"
  let ?t1 = "fst (get_next_table r (PML4_IDX va) True fl s)"
  let ?s2 = "snd (get_next_table ?t1 (PDPT_IDX va) True fl ?s1)"
  let ?t2 = "fst (get_next_table ?t1 (PDPT_IDX va) True fl ?s1)"
  let ?s3 = "snd (get_next_table ?t2 (PD_IDX va) True fl ?s2)"
  have "unat (free_pages ?s1) \<le> unat (free_pages s)" "unat (free_pages ?s2) \<le> unat (free_pages ?s1)"
    "unat (free_pages ?s3) \<le> unat (free_pages ?s2)" by (rule get_next_table_counts_le)+
  then show ?thesis by (auto simp: vmm_map_page_def case_prod_unfold)
qed

lemma list_ops_keep_pmm [simp]:
  "free_pages (list_del x s) = free_pages s" "free_pages (list_add_before x h s) = free_pages s"
  "free_pages (list_add_after x h s) = free_pages s"
  by (simp_all add: list_del_def list_add_before_def list_add_after_def list_add_between_def Let_def)

lemma kfree_counts [simp]: "free_pages (kfree p s) = free_pages s"
  by (simp add: kfree_def Let_def kfree_merge_next_def kfree_merge_prev_def)

lemma kheap_expand_loop_counts_le: "unat (free_pages (snd (kheap_expand_loop n i s))) \<le> unat (free_pages s)"
proof (induction n i s rule: kheap_expand_loop.induct)
  case (1 n i s)
  have add: "unat (free_pages (kheap_add_page pa s')) \<le> unat (free_pages s')" for pa and s' :: "'a kheap_scheme"
    using vmm_map_page_counts_le by (simp add: kheap_add_page_def Let_def)
  let ?pa = "fst (pmm_alloc_page s)" and ?s1 = "snd (pmm_alloc_page s)"
  have IH: "unat (free_pages (snd (kheap_expand_loop n (i + 1) (kheap_add_page ?pa ?s1)))) \<le> unat (free_pages s)"
    if "i < n" "?pa \<noteq> 0"
    using "1.IH" [OF that(1) prod.collapse that(2)] add [of ?pa ?s1] pmm_alloc_page_counts_le [of s] by linarith
  show ?case
    using IH pmm_alloc_page_counts_le [of s] by (subst kheap_expand_loop.simps) (simp add: case_prod_unfold)
qed

lemma kheap_expand_counts:
  assumes "kheap_expand n s = (True, s')" "n \<noteq> 0"
  shows "unat (free_pages s') < unat (free_pages s)"
proof -
  let ?pa = "fst (pmm_alloc_page s)" and ?s1 = "snd (pmm_alloc_page s)"
  have n: "(0 :: u64) < n" using assms(2) by (simp add: word_neq_0_conv)
  then have pa: "?pa \<noteq> 0" and s': "s' = snd (kheap_expand_loop n (0 + 1) (kheap_add_page ?pa ?s1))"
    using assms(1) unfolding kheap_expand_def
    by (auto simp: kheap_expand_loop.simps [of n 0 s] case_prod_unfold split: if_splits)
  have "unat (free_pages s') \<le> unat (free_pages (kheap_add_page ?pa ?s1))"
    unfolding s' by (rule kheap_expand_loop_counts_le)
  also have "\<dots> \<le> unat (free_pages ?s1)"
    using vmm_map_page_counts_le by (simp add: kheap_add_page_def Let_def)
  also have "\<dots> < unat (free_pages s)" using pmm_alloc_page_counts [OF pa] .
  finally show ?thesis .
qed

function kmalloc :: "u64 \<Rightarrow> 'a kheap_scheme \<Rightarrow> (u64 \<times> 'a kheap_scheme) option" where
  "kmalloc req s =
     (let sz = ALIGN_UP req 8
      in case first_fit s sz of
           None \<Rightarrow> None
         | Some target \<Rightarrow>
             if target = 0 then
               (case kheap_expand (pages_needed sz) s of (ok, s1) \<Rightarrow>
                  if ok then kmalloc sz s1 else Some (0, s1))
             else Some (target + HEADER_SIZE, take_block target sz s))"
  by pat_completeness auto
termination
  by (relation "measure (\<lambda>(n, s). unat (free_pages s))")
    (auto simp: pages_needed_def Let_def dest!: sym [of "(True, _)"] intro!: kheap_expand_counts split: if_splits)

declare kmalloc.simps [simp del]

definition kheap_init :: "u64 \<Rightarrow> 'a kheap_scheme \<Rightarrow> 'a kheap_scheme" where
  "kheap_init pgnum s =
     (let s1 = list_init (kheap_list s) s; s2 = s1\<lparr>kheap_top := KERNEL_HEAP_BASE\<rparr>
      in snd (kheap_expand pgnum s2))"

text \<open>
  Kernel stacks. The mapping loops run to their end unless an address wraps around; then they are
  \<open>None\<close>. A failed \<^verbatim>\<open>kstack_init\<close> returns 0 (\<^verbatim>\<open>NULL\<close>) and keeps what it has mapped.
\<close>

partial_function (option) kstack_map_loop :: "u64 \<Rightarrow> u64 \<Rightarrow> 'a kheap_scheme \<Rightarrow> (bool \<times> 'a kheap_scheme) option" where
  "kstack_map_loop v vaddr_top s =
     (if v < vaddr_top
      then case pmm_alloc_page s of (paddr, s1) \<Rightarrow>
        if paddr = 0 then Some (False, s1)
        else kstack_map_loop (v + PAGE_SIZE) vaddr_top
          (vmm_map_page (kernel_pml4 s1) v paddr (PTE_PRESENT OR PTE_RW) s1)
      else Some (True, s))"

definition kstack_init :: "u64 \<Rightarrow> 'a kheap_scheme \<Rightarrow> (u64 \<times> 'a kheap_scheme) option" where
  "kstack_init sz s =
     (let vaddr_bottom = kstack_ptr s + PAGE_SIZE;
          vaddr_top = vaddr_bottom + sz
      in map_option (\<lambda>(ok, s'). (if ok then vaddr_top else 0, s'))
           (kstack_map_loop vaddr_bottom vaddr_top (s\<lparr>kstack_ptr := vaddr_top\<rparr>)))"

definition kstack_unmap :: "u64 \<Rightarrow> 'a kheap_scheme \<Rightarrow> 'a kheap_scheme" where
  "kstack_unmap vaddr s =
     (let pte = vmm_get_pte (kernel_pml4 s) vaddr s
      in if pte \<noteq> 0 \<and> read64 (kmem s) pte AND PTE_PRESENT \<noteq> 0
         then let s1 = pmm_free_page (PTE_GET_ADDR (read64 (kmem s) pte)) s
              in s1\<lparr>kmem := write64 (kmem s1) pte 0\<rparr>
         else s)"

partial_function (option) kstack_free_loop :: "u64 \<Rightarrow> u64 \<Rightarrow> 'a kheap_scheme \<Rightarrow> 'a kheap_scheme option" where
  "kstack_free_loop vaddr stack_top s =
     (if vaddr < stack_top then kstack_free_loop (vaddr + PAGE_SIZE) stack_top (kstack_unmap vaddr s) else Some s)"

definition kstack_free :: "u64 \<Rightarrow> 'a kheap_scheme \<Rightarrow> 'a kheap_scheme option" where
  "kstack_free kstack_base s = kstack_free_loop kstack_base (kstack_base + KSTACK_SIZE) s"

subsection \<open>The blocks of the heap\<close>

text \<open>
  The blocks lie side by side from \<open>a\<close> to \<open>e\<close>: header, payload, next header. Positions are natural
  numbers, so nothing wraps.
\<close>

primrec tiles :: "(u64 \<Rightarrow> u64) \<Rightarrow> u64 list \<Rightarrow> nat \<Rightarrow> nat \<Rightarrow> bool" where
  "tiles sz [] a e \<longleftrightarrow> a = e"
| "tiles sz (x # xs) a e \<longleftrightarrow> unat x = a \<and> tiles sz xs (a + 32 + unat (sz x)) e"

definition heap_inv :: "'a kheap_scheme \<Rightarrow> u64 list \<Rightarrow> bool" where
  "heap_inv s xs \<longleftrightarrow> dll s (kheap_list s) xs
     \<and> tiles (hb_size s) xs (unat KERNEL_HEAP_BASE) (unat (kheap_top s)) \<and> kheap_top s \<le> kheap_list s"

lemma tiles_append: "tiles sz (xs @ ys) a e \<longleftrightarrow> (\<exists>m. tiles sz xs a m \<and> tiles sz ys m e)"
  by (induction xs arbitrary: a) auto

lemma tiles_le: "tiles sz xs a e \<Longrightarrow> a \<le> e"
  by (induction xs arbitrary: a) fastforce+

lemma tiles_range: "tiles sz xs a e \<Longrightarrow> x \<in> set xs \<Longrightarrow> a \<le> unat x \<and> unat x + 32 + unat (sz x) \<le> e"
proof (induction xs arbitrary: a)
  case (Cons y ys)
  then show ?case using tiles_le [of sz ys "a + 32 + unat (sz y)" e] by fastforce
qed simp

lemma tiles_cong: "(\<And>x. x \<in> set xs \<Longrightarrow> sz x = sz' x) \<Longrightarrow> tiles sz xs a e = tiles sz' xs a e"
  by (induction xs arbitrary: a) auto

lemma tiles_disjoint:
  assumes "tiles sz xs a e" "x \<in> set xs" "y \<in> set xs" "x \<noteq> y"
  shows "unat x + 32 + unat (sz x) \<le> unat y \<or> unat y + 32 + unat (sz y) \<le> unat x"
  using assms
proof (induction xs arbitrary: a)
  case (Cons z zs)
  then show ?case using tiles_range [of sz zs "a + 32 + unat (sz z)" e] by fastforce
qed simp

text \<open>The payload of a block, and the blocks handed out.\<close>

definition payload :: "u64 \<Rightarrow> u64 \<Rightarrow> nat set" where
  "payload x n = {unat x + 32 ..< unat x + 32 + unat n}"

definition live :: "'a kheap_scheme \<Rightarrow> u64 list \<Rightarrow> (u64 \<times> u64) set" where
  "live s xs = {(x, hb_size s x) | x. x \<in> set xs \<and> \<not> hb_free s x}"

lemma payloads_disjoint:
  assumes "heap_inv s xs" "x \<in> set xs" "y \<in> set xs" "x \<noteq> y"
  shows "payload x (hb_size s x) \<inter> payload y (hb_size s y) = {}"
  using tiles_disjoint [of "hb_size s" xs _ _ x y] assms unfolding heap_inv_def payload_def by fastforce

lemma heap_block:
  assumes "heap_inv s xs" "x \<in> set xs"
  shows "x \<noteq> 0" "x \<noteq> kheap_list s" "x < kheap_top s" "unat x + 32 + unat (hb_size s x) < 2 ^ 64"
    "unat (hb_size s x) < 2 ^ 47" "unat (x + 32) = unat x + 32"
proof -
  have r: "unat KERNEL_HEAP_BASE \<le> unat x" "unat x + 32 + unat (hb_size s x) \<le> unat (kheap_top s)"
    using tiles_range [of "hb_size s" xs _ _ x] assms by (auto simp: heap_inv_def)
  have b: "unat KERNEL_HEAP_BASE = 0xFFFF900000000000" by simp
  show "x \<noteq> 0" using r(1) b by auto
  show "x < kheap_top s" using r(2) by (simp add: word_less_nat_alt)
  then show "x \<noteq> kheap_list s" using assms(1) by (auto simp: heap_inv_def)
  have t: "unat (kheap_top s) < 2 ^ 64" using unat_lt_2p64 by simp
  then show l: "unat x + 32 + unat (hb_size s x) < 2 ^ 64" using r(2) by linarith
  show "unat (hb_size s x) < 2 ^ 47" using l r(1) b by simp
  show "unat (x + 32) = unat x + 32" using l by (subst unat_add_no_overflow) simp_all
qed

subsection \<open>First fit\<close>

lemma first_fit_loop_find:
  assumes "chain s a xs h" "kheap_list s = h" "h \<notin> set xs"
  shows "first_fit_loop s sz (l_next s a) = Some (case find (\<lambda>x. hb_free s x \<and> hb_size s x \<ge> sz) xs of None \<Rightarrow> 0 | Some x \<Rightarrow> x)"
  using assms
proof (induction xs arbitrary: a)
  case Nil
  then show ?case by (simp add: first_fit_loop.simps)
next
  case (Cons x xs)
  then have "first_fit_loop s sz (l_next s x) = Some (case find (\<lambda>x. hb_free s x \<and> hb_size s x \<ge> sz) xs of None \<Rightarrow> 0 | Some x \<Rightarrow> x)"
    by simp
  then show ?case using Cons.prems by (auto simp: first_fit_loop.simps [of s sz x])
qed

lemma first_fit_find:
  "heap_inv s xs \<Longrightarrow> first_fit s sz = Some (case find (\<lambda>x. hb_free s x \<and> hb_size s x \<ge> sz) xs of None \<Rightarrow> 0 | Some x \<Rightarrow> x)"
  unfolding first_fit_def heap_inv_def dll_def by (auto intro!: first_fit_loop_find)

subsection \<open>Taking a block\<close>

lemma list_ops_keep_heap [simp]:
  "kheap_list (list_del x s) = kheap_list s" "kheap_top (list_del x s) = kheap_top s"
  "hb_size (list_del x s) = hb_size s" "hb_free (list_del x s) = hb_free s"
  "kheap_list (list_add_before x h s) = kheap_list s" "kheap_top (list_add_before x h s) = kheap_top s"
  "hb_size (list_add_before x h s) = hb_size s" "hb_free (list_add_before x h s) = hb_free s"
  "kheap_list (list_add_after x h s) = kheap_list s" "kheap_top (list_add_after x h s) = kheap_top s"
  "hb_size (list_add_after x h s) = hb_size s" "hb_free (list_add_after x h s) = hb_free s"
  by (simp_all add: list_del_def list_add_before_def list_add_after_def list_add_between_def Let_def)

lemma dll_heap_fields [simp]:
  "dll (s\<lparr>hb_size := f\<rparr>) h xs = dll s h xs" "dll (s\<lparr>hb_free := g\<rparr>) h xs = dll s h xs"
  "dll (s\<lparr>kheap_top := t\<rparr>) h xs = dll s h xs" "dll (s\<lparr>kstack_ptr := t\<rparr>) h xs = dll s h xs"
  by (rule dll_cong; simp)+

lemma take_block_spec:
  assumes inv: "heap_inv s (ys @ x # zs)" and sz: "sz \<le> hb_size s x"
  defines "s' \<equiv> take_block x sz s"
  shows "\<exists>xs'. heap_inv s' xs' \<and> x \<in> set xs' \<and> \<not> hb_free s' x \<and> sz \<le> hb_size s' x
    \<and> payload x (hb_size s' x) \<subseteq> payload x (hb_size s x)
    \<and> live s' xs' = insert (x, hb_size s' x) (live s (ys @ x # zs) - {(x, hb_size s x)})"
proof -
  note blk = heap_block [OF inv, of x]
  have szn: "unat sz \<le> unat (hb_size s x)" using sz by (simp add: word_le_nat_alt)
  have dist: "distinct (ys @ x # zs)" using inv by (simp add: heap_inv_def dll_def)
  have u48: "unat (sz + HEADER_SIZE + MIN_SPLIT) = unat sz + 48"
    using szn blk(5) by (subst add.assoc) (simp add: unat_add_no_overflow)
  show ?thesis
  proof (cases "hb_size s x \<ge> sz + HEADER_SIZE + MIN_SPLIT")
    case False
    then have s': "s' = s\<lparr>hb_free := (hb_free s)(x := False)\<rparr>" by (simp add: s'_def take_block_def Let_def)
    have "heap_inv s' (ys @ x # zs)" using inv by (simp add: s' heap_inv_def)
    moreover have "live s' (ys @ x # zs) = insert (x, hb_size s' x) (live s (ys @ x # zs) - {(x, hb_size s x)})"
      by (auto simp: live_def s')
    ultimately show ?thesis using sz by (intro exI [of _ "ys @ x # zs"]) (simp add: s')
  next
    case True
    define r where "r = x + HEADER_SIZE + sz"
    define f where "f = (hb_size s)(r := hb_size s x - sz - HEADER_SIZE, x := sz)"
    have le: "unat sz + 48 \<le> unat (hb_size s x)" using True u48 by (simp add: word_le_nat_alt)
    have ur: "unat r = unat x + 32 + unat sz"
      unfolding r_def using blk(4,6) szn by (subst unat_add_no_overflow) simp_all
    have us: "unat (hb_size s x - sz - HEADER_SIZE) = unat (hb_size s x) - unat sz - 32"
      using le by (subst unat_sub_le) (simp_all add: unat_sub_le sz word_le_nat_alt)
    have fresh: "r \<notin> set (ys @ x # zs)"
    proof
      assume "r \<in> set (ys @ x # zs)"
      moreover have "r \<noteq> x" using ur by auto
      ultimately show False
        using tiles_disjoint [of "hb_size s" "ys @ x # zs" _ _ r x] inv ur le by (auto simp: heap_inv_def)
    qed
    have "unat x + 32 + unat (hb_size s x) \<le> unat (kheap_top s)"
      using tiles_range [of "hb_size s" "ys @ x # zs" _ _ x] inv by (auto simp: heap_inv_def)
    then have rtop: "unat r < unat (kheap_top s)" using ur le by linarith
    then have rl: "r \<noteq> kheap_list s" using inv by (auto simp: heap_inv_def word_le_nat_alt)
    have s': "s' = (list_add_after r x (s\<lparr>hb_free := (hb_free s)(r := True), hb_size := (hb_size s)(r := hb_size s x - sz - HEADER_SIZE)\<rparr>))
        \<lparr>hb_size := f, hb_free := (hb_free s)(r := True, x := False)\<rparr>"
      using True fresh by (simp add: s'_def take_block_def Let_def r_def f_def)
    have fx: "f x = sz" "f r = hb_size s x - sz - HEADER_SIZE" "\<And>y. y \<noteq> x \<Longrightarrow> y \<noteq> r \<Longrightarrow> f y = hb_size s y"
      using fresh by (auto simp: f_def)
    have eq: "tiles f ys a e = tiles (hb_size s) ys a e" "tiles f zs a e = tiles (hb_size s) zs a e" for a e
      using fresh dist by (intro tiles_cong fx(3); auto)+
    have "tiles f (ys @ x # r # zs) (unat KERNEL_HEAP_BASE) (unat (kheap_top s))"
    proof -
      obtain m where m: "tiles (hb_size s) ys (unat KERNEL_HEAP_BASE) m" "unat x = m"
        "tiles (hb_size s) zs (m + 32 + unat (hb_size s x)) (unat (kheap_top s))"
        using inv by (auto simp: heap_inv_def tiles_append)
      moreover have "m + 32 + unat sz + 32 + (unat (hb_size s x) - unat sz - 32) = m + 32 + unat (hb_size s x)"
        using le by simp
      ultimately show ?thesis by (auto simp: tiles_append eq fx ur us ac_simps)
    qed
    moreover have "dll s' (kheap_list s) (ys @ x # r # zs)"
      unfolding s' using list_add_after_node_dll inv fresh rl
      by (simp add: heap_inv_def) (rule list_add_after_node_dll, simp_all)
    ultimately have "heap_inv s' (ys @ x # r # zs)" using inv by (simp add: heap_inv_def) (simp add: s')
    moreover have "live s' (ys @ x # r # zs) = insert (x, hb_size s' x) (live s (ys @ x # zs) - {(x, hb_size s x)})"
    proof -
      have "live s' (ys @ x # r # zs) = {(y, f y) | y. y \<in> set (ys @ x # zs) \<and> (y = x \<or> \<not> hb_free s y)}"
        using fresh by (auto simp: live_def s')
      also have "\<dots> = insert (x, sz) {(y, hb_size s y) | y. y \<in> set (ys @ zs) \<and> \<not> hb_free s y}"
      proof -
        have "f y = hb_size s y" if "y \<in> set (ys @ zs)" for y using that fresh dist by (intro fx(3)) auto
        then show ?thesis using fx(1) dist by auto
      qed
      also have "{(y, hb_size s y) | y. y \<in> set (ys @ zs) \<and> \<not> hb_free s y} = live s (ys @ x # zs) - {(x, hb_size s x)}"
        using dist by (auto simp: live_def)
      finally show ?thesis using fx by (simp add: s')
    qed
    ultimately show ?thesis using szn fx(1) fresh
      by (intro exI [of _ "ys @ x # r # zs"]) (auto simp: s' payload_def)
  qed
qed

lemma kmalloc_fits:
  assumes inv: "heap_inv s xs" and fit: "find (\<lambda>x. hb_free s x \<and> hb_size s x \<ge> ALIGN_UP req 8) xs = Some x"
  shows "kmalloc req s = Some (x + HEADER_SIZE, take_block x (ALIGN_UP req 8) s)"
proof -
  have "x \<in> set xs" using fit by (auto simp: find_Some_iff)
  then have "x \<noteq> 0" using heap_block(1) [OF inv] by blast
  then show ?thesis using first_fit_find [OF inv, of "ALIGN_UP req 8"] fit by (simp add: kmalloc.simps [of req s] Let_def)
qed

lemma kmalloc_block:
  assumes inv: "heap_inv s xs" and fit: "find (\<lambda>x. hb_free s x \<and> hb_size s x \<ge> ALIGN_UP req 8) xs = Some x"
  obtains s' xs' where "kmalloc req s = Some (x + HEADER_SIZE, s')" "heap_inv s' xs'" "ALIGN_UP req 8 \<le> hb_size s' x"
    "live s' xs' = insert (x, hb_size s' x) (live s xs)" "x \<notin> fst ` live s xs"
    "\<forall>(y, n) \<in> live s xs. payload x (hb_size s' x) \<inter> payload y n = {}"
proof -
  have f: "x \<in> set xs" "hb_free s x" "ALIGN_UP req 8 \<le> hb_size s x" using fit by (auto simp: find_Some_iff)
  then obtain ys zs where xs: "xs = ys @ x # zs" by (meson split_list)
  let ?s = "take_block x (ALIGN_UP req 8) s"
  obtain xs' where t: "heap_inv ?s xs'" "ALIGN_UP req 8 \<le> hb_size ?s x" "payload x (hb_size ?s x) \<subseteq> payload x (hb_size s x)"
    "live ?s xs' = insert (x, hb_size ?s x) (live s xs - {(x, hb_size s x)})"
    using take_block_spec [OF inv [unfolded xs] f(3)] xs by blast
  have nl: "x \<notin> fst ` live s xs" using f(2) by (auto simp: live_def)
  then have "live s xs - {(x, hb_size s x)} = live s xs" by force
  moreover have "payload x (hb_size ?s x) \<inter> payload y n = {}" if "(y, n) \<in> live s xs" for y n
  proof -
    have "y \<in> set xs" "y \<noteq> x" "n = hb_size s y" using that f(2) by (auto simp: live_def)
    then show ?thesis using payloads_disjoint [OF inv f(1), of y] t(3) by auto
  qed
  ultimately show ?thesis using that [OF kmalloc_fits [OF inv fit] t(1,2)] t(4) nl by auto
qed

subsection \<open>Giving a block back\<close>

text \<open>
  The neighbours of a block in a heap without gaps are always adjacent, so \<^verbatim>\<open>kfree\<close> merges the block
  with its successor and then into its predecessor, whatever their state: after the call the
  predecessor (or the block itself when it was the first) extends to the end of the successor.
\<close>

lemma block_adjacent:
  assumes "heap_inv s (ys @ x # z # zs)"
  shows "x + hb_size s x + HEADER_SIZE = z" "unat z = unat x + 32 + unat (hb_size s x)"
    "unat (hb_size s x + (hb_size s z + HEADER_SIZE)) = unat (hb_size s x) + unat (hb_size s z) + 32"
proof -
  note bx = heap_block [OF assms, of x] and bz = heap_block [OF assms, of z]
  show uz: "unat z = unat x + 32 + unat (hb_size s x)" using assms by (auto simp: heap_inv_def tiles_append)
  have "unat (x + HEADER_SIZE + hb_size s x) = unat x + 32 + unat (hb_size s x)"
    using bx(4,6) by (subst unat_add_no_overflow) simp_all
  then show "x + hb_size s x + HEADER_SIZE = z" using uz by (simp add: word_unat_eq_iff ac_simps)
  have "unat (hb_size s x) < 2 ^ 47" "unat (hb_size s z) < 2 ^ 47" using bx(5) bz(5) by simp_all
  then show "unat (hb_size s x + (hb_size s z + HEADER_SIZE)) = unat (hb_size s x) + unat (hb_size s z) + 32"
    by (simp add: unat_add_no_overflow)
qed

lemma merge_next:
  assumes inv: "heap_inv s (ys @ x # z # zs)"
  shows "heap_inv (list_del z (s\<lparr>hb_size := (hb_size s)(x := hb_size s x + (hb_size s z + HEADER_SIZE))\<rparr>)) (ys @ x # zs)"
proof -
  let ?f = "(hb_size s)(x := hb_size s x + (hb_size s z + HEADER_SIZE))"
  have dist: "distinct (ys @ x # z # zs)" using inv by (simp add: heap_inv_def dll_def)
  have eq: "tiles ?f ys a e = tiles (hb_size s) ys a e" "tiles ?f zs a e = tiles (hb_size s) zs a e" for a e
    using dist by (intro tiles_cong; auto)+
  have "tiles ?f (ys @ x # zs) (unat KERNEL_HEAP_BASE) (unat (kheap_top s))"
    using inv block_adjacent(2,3) [OF inv] by (auto simp: heap_inv_def tiles_append eq ac_simps)
  moreover have "dll (list_del z (s\<lparr>hb_size := ?f\<rparr>)) (kheap_list s) (ys @ x # zs)"
    using list_del_dll(1) [of "s\<lparr>hb_size := ?f\<rparr>" "kheap_list s" "ys @ [x]" z zs] inv by (simp add: heap_inv_def)
  ultimately show ?thesis using inv by (simp add: heap_inv_def)
qed

definition kfree_merged :: "u64 list \<Rightarrow> u64 \<Rightarrow> u64" where
  "kfree_merged ys x = (if ys = [] then x else last ys)"

lemma heap_inv_free [simp]: "heap_inv (s\<lparr>hb_free := g\<rparr>) xs = heap_inv s xs"
  by (simp add: heap_inv_def)

text \<open>The first of the two merges, as a function of the blocks behind.\<close>

definition kfree_forward :: "u64 \<Rightarrow> u64 list \<Rightarrow> 'a kheap_scheme \<Rightarrow> 'a kheap_scheme" where
  "kfree_forward x zs s =
     (case zs of [] \<Rightarrow> s
      | z # _ \<Rightarrow> list_del z (s\<lparr>hb_size := (hb_size s)(x := hb_size s x + (hb_size s z + HEADER_SIZE))\<rparr>))"

lemma kfree_unfold:
  assumes inv: "heap_inv s (ys @ x # zs)"
  defines "s1 \<equiv> s\<lparr>hb_free := (hb_free s)(x := True)\<rparr>"
  shows "kfree (x + HEADER_SIZE) s =
    (if ys = [] then kfree_forward x zs s1
     else list_del x ((kfree_forward x zs s1)\<lparr>hb_size := (hb_size (kfree_forward x zs s1))
       (last ys := hb_size (kfree_forward x zs s1) (last ys) + (hb_size (kfree_forward x zs s1) x + HEADER_SIZE))\<rparr>))"
proof -
  have h: "kheap_list s \<notin> set (ys @ x # zs)" and d: "dll s1 (kheap_list s) (ys @ x # zs)"
    using inv by (simp_all add: heap_inv_def dll_def [of s] s1_def)
  have p0: "x + HEADER_SIZE \<noteq> 0"
  proof
    assume "x + HEADER_SIZE = 0"
    then show False using heap_block(6) [OF inv, of x] by simp
  qed
  have nx: "l_next s1 x = hd (zs @ [kheap_list s])" and pv: "l_prev s1 x = last (kheap_list s # ys)"
    using dll_next [OF d] dll_prev [OF d] by simp_all
  have fwd: "kfree_merge_next x (l_next s1 x) s1 = kfree_forward x zs s1"
  proof (cases zs)
    case Nil
    then show ?thesis using nx by (simp add: kfree_merge_next_def kfree_forward_def s1_def)
  next
    case (Cons z zs')
    then have "x + hb_size s x + HEADER_SIZE = z" using block_adjacent(1) inv by simp
    then show ?thesis using nx Cons h by (auto simp: kfree_merge_next_def kfree_forward_def s1_def)
  qed
  have bk: "last ys \<noteq> kheap_list s \<and> last ys + hb_size (kfree_forward x zs s1) (last ys) + HEADER_SIZE = x" if "ys \<noteq> []"
  proof -
    obtain ys' p where ys: "ys = ys' @ [p]" using \<open>ys \<noteq> []\<close> by (meson rev_exhaust)
    have "p \<noteq> x" using d ys by (auto simp: dll_def)
    then have "hb_size (kfree_forward x zs s1) p = hb_size s p" by (simp add: kfree_forward_def s1_def split: list.split)
    then show ?thesis using block_adjacent(1) [of s ys' p x zs] inv ys h by auto
  qed
  have kl: "kheap_list (kfree_forward x zs s1) = kheap_list s" by (simp add: kfree_forward_def s1_def split: list.split)
  have un: "kfree (x + HEADER_SIZE) s = kfree_merge_prev x (l_prev s1 x) (kfree_forward x zs s1)"
    using p0 unfolding kfree_def Let_def add_diff_cancel_right' s1_def [symmetric] fwd by (simp only: if_False)
  show ?thesis
  proof (cases "ys = []")
    case True
    then show ?thesis using un pv kl by (simp add: kfree_merge_prev_def)
  next
    case False
    then show ?thesis using un pv kl bk [OF False] by (simp only: kfree_merge_prev_def last_ConsR if_True not_False_eq_True simp_thms if_False)
  qed
qed

lemma kfree_spec:
  assumes inv: "heap_inv s (ys @ x # zs)"
  defines "s' \<equiv> kfree (x + HEADER_SIZE) s"
  shows "heap_inv s' ((if ys = [] then [x] else ys) @ tl zs)"
    and "hb_free s' = (hb_free s)(x := True)"
    and "\<And>y. y \<noteq> x \<Longrightarrow> y \<noteq> kfree_merged ys x \<Longrightarrow> hb_size s' y = hb_size s y"
    and "kheap_top s' = kheap_top s" "kheap_list s' = kheap_list s"
proof -
  let ?s1 = "s\<lparr>hb_free := (hb_free s)(x := True)\<rparr>"
  let ?s2 = "kfree_forward x zs ?s1"
  have inv1: "heap_inv ?s1 (ys @ x # zs)" using inv by simp
  have inv2: "heap_inv ?s2 (ys @ x # tl zs)"
  proof (cases zs)
    case Nil
    then show ?thesis using inv1 by (simp add: kfree_forward_def)
  next
    case (Cons z zs')
    then show ?thesis using merge_next [of ?s1 ys x z zs'] inv1 by (simp add: kfree_forward_def)
  qed
  show "heap_inv s' ((if ys = [] then [x] else ys) @ tl zs)"
  proof (cases ys rule: rev_cases)
    case Nil
    then show ?thesis using inv2 kfree_unfold [OF inv] by (simp add: s'_def)
  next
    case (snoc ys' p)
    then show ?thesis using merge_next [of ?s2 ys' p x "tl zs"] inv2 kfree_unfold [OF inv] by (simp add: s'_def)
  qed
  show "hb_free s' = (hb_free s)(x := True)" "kheap_top s' = kheap_top s" "kheap_list s' = kheap_list s"
    unfolding s'_def kfree_unfold [OF inv] by (simp_all add: kfree_forward_def split: list.split)
  show "\<And>y. y \<noteq> x \<Longrightarrow> y \<noteq> kfree_merged ys x \<Longrightarrow> hb_size s' y = hb_size s y"
    unfolding s'_def kfree_unfold [OF inv] by (cases "ys = []"; cases zs) (simp_all add: kfree_forward_def kfree_merged_def)
qed

subsection \<open>Growing the heap\<close>

text \<open>Page operations write the bitmap, its counters and the page memory only.\<close>

definition page_op :: "'a paging_scheme \<Rightarrow> 'a paging_scheme \<Rightarrow> bool" where
  "page_op s s' \<longleftrightarrow> l_next s' = l_next s \<and> l_prev s' = l_prev s \<and> bitmap_va s' = bitmap_va s
     \<and> bitmap_size s' = bitmap_size s \<and> total_pages s' = total_pages s \<and> HHDM_OFFSET s' = HHDM_OFFSET s
     \<and> kernel_pml4 s' = kernel_pml4 s \<and> cr3 s' = cr3 s \<and> paging.more s' = paging.more s"

lemma page_op_refl: "page_op s s"
  by (simp add: page_op_def)

lemma page_op_trans: "page_op s t \<Longrightarrow> page_op t u \<Longrightarrow> page_op s u"
  by (simp add: page_op_def)

lemma page_op_kmem: "page_op s (s\<lparr>kmem := m\<rparr>)"
  by (simp add: page_op_def)

lemma page_op_alloc: "page_op s (snd (pmm_alloc_page s))"
  by (simp add: page_op_def pmm_alloc_page_def pmm_take_def bit_set_def split: option.split)

lemma page_op_free: "page_op s (pmm_free_page pa s)"
  by (simp add: page_op_def pmm_free_page_def bit_unset_def Let_def)

lemma page_op_table: "page_op s (snd (get_next_table t i b fl s))"
  using page_op_alloc [of s] page_op_trans [OF page_op_alloc page_op_kmem] page_op_refl
  by (auto simp: get_next_table_def Let_def case_prod_unfold)

lemma page_op_map: "page_op s (vmm_map_page r va pa fl s)"
proof -
  let ?s1 = "snd (get_next_table r (PML4_IDX va) True fl s)"
  let ?t1 = "fst (get_next_table r (PML4_IDX va) True fl s)"
  let ?s2 = "snd (get_next_table ?t1 (PDPT_IDX va) True fl ?s1)"
  let ?t2 = "fst (get_next_table ?t1 (PDPT_IDX va) True fl ?s1)"
  let ?s3 = "snd (get_next_table ?t2 (PD_IDX va) True fl ?s2)"
  have 1: "page_op s ?s1" by (rule page_op_table)
  have 2: "page_op s ?s2" using 1 page_op_table by (rule page_op_trans)
  have 3: "page_op s ?s3" using 2 page_op_table by (rule page_op_trans)
  then show ?thesis using 1 2 page_op_trans [OF 3 page_op_kmem]
    by (simp add: vmm_map_page_def case_prod_unfold)
qed

lemma page_op_heap:
  assumes "page_op s s'"
  shows "kheap_list s' = kheap_list s" "kheap_top s' = kheap_top s" "kstack_ptr s' = kstack_ptr s"
    "hb_size s' = hb_size s" "hb_free s' = hb_free s" "dll s' h xs = dll s h xs" "heap_inv s' xs = heap_inv s xs"
proof -
  show k: "kheap_list s' = kheap_list s" "kheap_top s' = kheap_top s" "kstack_ptr s' = kstack_ptr s"
    "hb_size s' = hb_size s" "hb_free s' = hb_free s"
    using assms unfolding page_op_def by (cases s; cases s'; simp)+
  show d: "dll s' h xs = dll s h xs" for h xs using assms by (intro dll_cong) (simp add: page_op_def)
  show "heap_inv s' xs = heap_inv s xs" by (simp add: heap_inv_def k d)
qed

lemmas map_heap [simp] = page_op_heap [OF page_op_map]
  and alloc_heap [simp] = page_op_heap [OF page_op_alloc]
  and free_heap [simp] = page_op_heap [OF page_op_free]

lemma list_del_top:
  "list_del x (u\<lparr>kheap_top := k, hb_size := f\<rparr>) = (list_del x (u\<lparr>hb_size := f\<rparr>))\<lparr>kheap_top := k\<rparr>"
  by (simp add: list_del_def Let_def)

lemma merge_top:
  "kfree_merge_prev h p (u\<lparr>kheap_top := k\<rparr>) = (kfree_merge_prev h p u)\<lparr>kheap_top := k\<rparr>"
  "kfree_merge_next h p (u\<lparr>kheap_top := k\<rparr>) = (kfree_merge_next h p u)\<lparr>kheap_top := k\<rparr>"
  by (simp_all add: kfree_merge_prev_def kfree_merge_next_def list_del_top)

lemma kfree_top: "kfree p (u\<lparr>kheap_top := k\<rparr>) = (kfree p u)\<lparr>kheap_top := k\<rparr>" "kheap_top (kfree p u) = kheap_top u"
proof -
  have "kfree_merge_next h n (u\<lparr>kheap_top := k, hb_free := f\<rparr>) = (kfree_merge_next h n (u\<lparr>hb_free := f\<rparr>))\<lparr>kheap_top := k\<rparr>" for h n f
  proof -
    have "u\<lparr>kheap_top := k, hb_free := f\<rparr> = u\<lparr>hb_free := f\<rparr>\<lparr>kheap_top := k\<rparr>" by simp
    then show ?thesis by (simp only: merge_top(2))
  qed
  then show "kfree p (u\<lparr>kheap_top := k\<rparr>) = (kfree p u)\<lparr>kheap_top := k\<rparr>"
    unfolding kfree_def Let_def by (simp add: merge_top(1))
  show "kheap_top (kfree p u) = kheap_top u"
    by (simp add: kfree_def Let_def kfree_merge_prev_def kfree_merge_next_def)
qed

text \<open>
  A new page enters the list as a block of its own and \<^verbatim>\<open>kfree\<close> merges it into the block in front: the
  last block grows by a page and keeps its state, free or not.
\<close>

definition heap_room :: "'a kheap_scheme \<Rightarrow> nat \<Rightarrow> bool" where
  "heap_room s n \<longleftrightarrow> paged (kheap_top s) \<and> unat (kheap_top s) + 4096 * n \<le> unat (kheap_list s)"

lemma heap_room_0: "heap_room s n \<Longrightarrow> kheap_top s \<le> kheap_list s"
  by (simp add: heap_room_def word_le_nat_alt)

lemma kheap_add_page_spec:
  fixes pa :: u64 and n :: nat
  assumes inv: "heap_inv s xs" and room: "heap_room s (Suc n)"
  defines "s' \<equiv> kheap_add_page pa s" and "t \<equiv> kheap_top s"
  shows "heap_inv s' (if xs = [] then [t] else xs)" and "heap_room s' n"
    and "hb_free s' = (hb_free s)(t := True)"
    and "hb_size s' t = PAGE_SIZE - HEADER_SIZE"
    and "xs \<noteq> [] \<Longrightarrow> unat (hb_size s' (last xs)) = unat (hb_size s (last xs)) + 4096"
    and "\<And>y. y \<noteq> t \<Longrightarrow> (xs \<noteq> [] \<Longrightarrow> y \<noteq> last xs) \<Longrightarrow> hb_size s' y = hb_size s y"
    and "t \<notin> set xs" and "kheap_list s' = kheap_list s"
proof -
  define s1 where "s1 = vmm_map_page (kernel_pml4 s) t pa (PTE_PRESENT OR PTE_RW) s"
  define s3 where "s3 = (list_add_before t (kheap_list s)
      (s1\<lparr>hb_free := (hb_free s)(t := False), hb_size := (hb_size s)(t := PAGE_SIZE - HEADER_SIZE)\<rparr>))\<lparr>kheap_top := t + PAGE_SIZE\<rparr>"
  have ut: "unat (t + PAGE_SIZE) = unat t + 4096"
    using room unat_lt_2p64 [of "kheap_list s"] by (subst unat_add_no_overflow) (simp_all add: heap_room_def t_def)
  show tn: "t \<notin> set xs" using heap_block(3) [OF inv] by (auto simp: t_def)
  have tl: "t \<noteq> kheap_list s" using room by (auto simp: heap_room_def t_def)
  have s': "s' = kfree (t + HEADER_SIZE) s3"
    unfolding s'_def kheap_add_page_def Let_def s3_def kfree_top by (simp add: s1_def t_def)
  have dl: "dll s3 (kheap_list s) (xs @ [t])"
    unfolding s3_def using inv tn tl
    by (simp add: s1_def heap_inv_def) (rule list_add_before_dll, simp_all)
  have kl1: "kheap_list s1 = kheap_list s" by (simp add: s1_def)
  have tc: "tiles ((hb_size s)(t := 4064)) xs a e = tiles (hb_size s) xs a e" for a e
    using tn by (intro tiles_cong) auto
  have inv3: "heap_inv s3 (xs @ [t])"
    using inv dl ut room unfolding heap_inv_def
    by (simp add: s3_def tiles_append tc kl1 t_def [symmetric] heap_room_def word_le_nat_alt)
  note kf = kfree_spec [OF inv3, folded s']
  show "heap_inv s' (if xs = [] then [t] else xs)" using kf(1) by (simp split: if_splits)
  show "kheap_list s' = kheap_list s" using kf(5) by (simp add: s3_def s1_def)
  then show "heap_room s' n" using kf(4) room ut paged_add [of t PAGE_SIZE]
    by (simp add: heap_room_def s3_def t_def paged_def)
  show "hb_free s' = (hb_free s)(t := True)" using kf(2) by (simp add: s3_def s1_def)
  show "hb_size s' y = hb_size s y" if "y \<noteq> t" "xs \<noteq> [] \<Longrightarrow> y \<noteq> last xs" for y
    using kf(3) [of y] that by (simp add: kfree_merged_def s3_def s1_def split: if_splits)
  have un: "hb_size s' = (if xs = [] then hb_size s3 else (hb_size s3)(last xs := hb_size s3 (last xs) + (hb_size s3 t + HEADER_SIZE)))"
    unfolding s' kfree_unfold [OF inv3] by (simp add: kfree_forward_def)
  have lt: "last xs \<noteq> t" if "xs \<noteq> []" using that tn by auto
  show "hb_size s' t = PAGE_SIZE - HEADER_SIZE" using un lt by (auto simp: s3_def)
  show "unat (hb_size s' (last xs)) = unat (hb_size s (last xs)) + 4096" if "xs \<noteq> []"
  proof -
    have "unat (hb_size s (last xs)) < 2 ^ 47" using heap_block(5) [OF inv, of "last xs"] that by simp
    then show ?thesis using un lt that by (simp add: s3_def unat_add_no_overflow)
  qed
qed

text \<open>Heap operations leave the bitmap and the page tables alone.\<close>

definition pages_same :: "'a paging_scheme \<Rightarrow> 'b paging_scheme \<Rightarrow> bool" where
  "pages_same s s' \<longleftrightarrow> bitmap s' = bitmap s \<and> total_pages s' = total_pages s \<and> free_pages s' = free_pages s
     \<and> last_free_index s' = last_free_index s \<and> kmem s' = kmem s \<and> HHDM_OFFSET s' = HHDM_OFFSET s
     \<and> kernel_pml4 s' = kernel_pml4 s \<and> cr3 s' = cr3 s"

lemma pages_same_trans: "pages_same s t \<Longrightarrow> pages_same t u \<Longrightarrow> pages_same s u"
  by (simp add: pages_same_def)

lemma pages_same_views:
  assumes "pages_same s s'"
  shows "free_frames s' = free_frames s" "pmm_inv s' = pmm_inv s" "pa2kva s' = pa2kva s" "pt_inv s' r = pt_inv s r"
    "translate s' r va = translate s r va"
proof -
  show f: "free_frames s' = free_frames s" using assms by (simp add: free_frames_def bit_test_def pages_same_def)
  show p: "pmm_inv s' = pmm_inv s" using assms f by (simp add: pmm_inv_def pages_same_def)
  show "pa2kva s' = pa2kva s" using assms by (simp add: pa2kva_def pages_same_def fun_eq_iff)
  have e: "pt_entry s' = pt_entry s" using assms by (intro pt_entry_cong) (simp_all add: pages_same_def)
  show "pt_inv s' r = pt_inv s r"
    using assms by (simp add: pt_inv_def e p f) (simp add: hhdm_ok_def frame_ok_def pages_same_def)
  show "translate s' r va = translate s r va" by (simp add: translate_def va_pte_def e)
qed

lemma pages_same_list: "pages_same s (list_del x s)" "pages_same s (list_add_before x h s)"
  "pages_same s (list_add_after x h s)" "pages_same s (list_init x s)"
  by (simp_all add: pages_same_def list_del_def list_add_before_def list_add_after_def list_add_between_def list_init_def Let_def)

lemma pages_same_heap: "pages_same s (s\<lparr>hb_size := f\<rparr>)" "pages_same s (s\<lparr>hb_free := g\<rparr>)" "pages_same s (s\<lparr>kheap_top := t\<rparr>)"
  "pages_same s (s\<lparr>kstack_ptr := t\<rparr>)"
  by (simp_all add: pages_same_def)

lemma pages_same_kfree: "pages_same s (kfree p s)"
proof -
  have n: "pages_same s (kfree_merge_next h k s)" "pages_same s (kfree_merge_prev h k s)" for h k and s :: "'a kheap_scheme"
    using pages_same_trans [OF pages_same_heap(1) pages_same_list(1)]
    by (auto simp: kfree_merge_next_def kfree_merge_prev_def) (simp_all add: pages_same_def)
  show ?thesis
  proof (cases "p = 0")
    case True
    then show ?thesis by (simp add: kfree_def pages_same_def)
  next
    case False
    then show ?thesis unfolding kfree_def Let_def
      using pages_same_trans [OF pages_same_trans [OF pages_same_heap(2) n(1)] n(2)] by simp
  qed
qed

definition kernel_ok :: "'a paging_scheme \<Rightarrow> u64 \<Rightarrow> bool" where
  "kernel_ok s r \<longleftrightarrow> pt_inv s r \<and> kernel_pml4 s = pa2kva s r"

lemma kernel_ok_same: "pages_same s s' \<Longrightarrow> kernel_ok s' r = kernel_ok s r"
  using pages_same_views [of s s'] by (simp add: kernel_ok_def) (simp add: pages_same_def)

lemma kernel_ok_alloc:
  assumes "kernel_ok s r"
  shows "kernel_ok (snd (pmm_alloc_page s)) r" "free_frames (snd (pmm_alloc_page s)) \<subseteq> free_frames s"
    "card (free_frames (snd (pmm_alloc_page s))) = card (free_frames s) - 1"
proof -
  have pi: "pmm_inv s" and inv: "pt_inv s r" using assms by (simp_all add: kernel_ok_def pt_inv_def)
  have e: "pt_entry (snd (pmm_alloc_page s)) = pt_entry s" by (rule pt_entry_cong) simp_all
  show sub: "free_frames (snd (pmm_alloc_page s)) \<subseteq> free_frames s"
    using pm.alloc_fresh(2) [OF pi] pm.alloc_zero_iff [OF pi] pm.alloc_none [OF pi] by (cases "free_frames s = {}") auto
  show "card (free_frames (snd (pmm_alloc_page s))) = card (free_frames s) - 1"
    using pm.allocs_remaining [OF pi, of 1] by simp
  show "kernel_ok (snd (pmm_alloc_page s)) r"
    using inv sub pmm_alloc_page_inv [OF pi] assms
    by (auto simp: kernel_ok_def pt_inv_def e hhdm_ok_def frame_ok_def pa2kva_def)
qed

lemma kernel_flags: "table_flags (PTE_PRESENT OR PTE_RW)"
  by (simp add: table_flags_def)

lemma kernel_ok_map:
  assumes "kernel_ok s r"
  shows "kernel_ok (vmm_map_page (kernel_pml4 s) va pa (PTE_PRESENT OR PTE_RW) s) r"
    "free_frames (vmm_map_page (kernel_pml4 s) va pa (PTE_PRESENT OR PTE_RW) s) \<subseteq> free_frames s"
proof -
  have inv: "pt_inv s r" and k: "kernel_pml4 s = pa2kva s r" using assms by (simp_all add: kernel_ok_def)
  from vmm_map_page_spec(1) [OF inv kernel_flags, of va pa]
  show "kernel_ok (vmm_map_page (kernel_pml4 s) va pa (PTE_PRESENT OR PTE_RW) s) r"
    "free_frames (vmm_map_page (kernel_pml4 s) va pa (PTE_PRESENT OR PTE_RW) s) \<subseteq> free_frames s"
    by (simp_all add: k pt_next_def kernel_ok_def pa2kva_def)
qed

lemma kernel_ok_add_page:
  assumes "kernel_ok s r"
  shows "kernel_ok (kheap_add_page pa s) r" "free_frames (kheap_add_page pa s) \<subseteq> free_frames s"
    "free_frames (kheap_add_page pa s) = free_frames (vmm_map_page (kernel_pml4 s) (kheap_top s) pa (PTE_PRESENT OR PTE_RW) s)"
proof -
  let ?s1 = "vmm_map_page (kernel_pml4 s) (kheap_top s) pa (PTE_PRESENT OR PTE_RW) s"
  have "pages_same ?s1 (kheap_add_page pa s)"
    unfolding kheap_add_page_def Let_def
    by (rule pages_same_trans [OF pages_same_heap(2)], rule pages_same_trans [OF pages_same_heap(1)],
        rule pages_same_trans [OF pages_same_list(2)], rule pages_same_trans [OF pages_same_kfree], rule pages_same_heap(3))
  with kernel_ok_map [OF assms] show "kernel_ok (kheap_add_page pa s) r" "free_frames (kheap_add_page pa s) \<subseteq> free_frames s"
    "free_frames (kheap_add_page pa s) = free_frames ?s1"
    by (simp_all add: kernel_ok_same pages_same_views)
qed

subsection \<open>A heap without a free block\<close>

definition heap_full :: "'a kheap_scheme \<Rightarrow> u64 list \<Rightarrow> u64 \<Rightarrow> bool" where
  "heap_full s xs r \<longleftrightarrow> heap_inv s xs \<and> kernel_ok s r \<and> xs \<noteq> [] \<and> (\<forall>x \<in> set xs. \<not> hb_free s x)
     \<and> heap_room s (card (free_frames s))"

lemma heap_full_step:
  assumes full: "heap_full s xs r" and pa: "fst (pmm_alloc_page s) \<noteq> 0"
  shows "heap_full (kheap_add_page (fst (pmm_alloc_page s)) (snd (pmm_alloc_page s))) xs r"
proof -
  let ?s1 = "snd (pmm_alloc_page s)" and ?pa = "fst (pmm_alloc_page s)"
  have k: "kernel_ok s r" and pi: "pmm_inv s" using full by (simp_all add: heap_full_def kernel_ok_def pt_inv_def)
  have "0 < card (free_frames s)" using pm.alloc_zero_iff [OF pi] pa by (simp add: card_gt_0_iff)
  then have c: "card (free_frames s) = Suc (card (free_frames ?s1))" using kernel_ok_alloc(3) [OF k] by linarith
  have inv1: "heap_inv ?s1 xs" and room1: "heap_room ?s1 (Suc (card (free_frames ?s1)))"
    using full c by (simp_all add: heap_full_def heap_room_def)
  note sp = kheap_add_page_spec(1-6) [OF inv1 room1, where pa = ?pa] kheap_add_page_spec(7) [OF inv1 room1]
  note ka = kernel_ok_add_page [OF kernel_ok_alloc(1) [OF k], of ?pa]
  have "heap_room (kheap_add_page ?pa ?s1) (card (free_frames (kheap_add_page ?pa ?s1)))"
    using sp(2) card_mono [OF _ ka(2)] by (simp add: heap_room_def)
  then show ?thesis using sp(1,3,7) ka(1) full by (auto simp: heap_full_def)
qed

lemma heap_full_expand:
  assumes "heap_full s xs r"
  shows "heap_full (snd (kheap_expand_loop n i s)) xs r
    \<and> (\<not> fst (kheap_expand_loop n i s) \<longrightarrow> free_frames (snd (kheap_expand_loop n i s)) = {})"
  using assms
proof (induction n i s rule: kheap_expand_loop.induct)
  case (1 n i s)
  have pi: "pmm_inv s" using 1(2) by (simp add: heap_full_def kernel_ok_def pt_inv_def)
  show ?case
  proof (cases "i < n \<and> fst (pmm_alloc_page s) \<noteq> 0")
    case True
    then have "kheap_expand_loop n i s = kheap_expand_loop n (i + 1) (kheap_add_page (fst (pmm_alloc_page s)) (snd (pmm_alloc_page s)))"
      by (subst kheap_expand_loop.simps) (simp add: case_prod_unfold)
    then show ?thesis using "1.IH" [OF _ prod.collapse] True heap_full_step [OF 1(2)] by simp
  next
    case False
    show ?thesis
    proof (cases "i < n")
      case True
      then have e: "free_frames s = {}" using False pm.alloc_zero_iff [OF pi] by simp
      then show ?thesis using True 1(2) pm.alloc_none [OF pi e] by (subst (1 2 3) kheap_expand_loop.simps) simp
    next
      case False
      then show ?thesis using 1(2) by (simp add: kheap_expand_loop.simps)
    qed
  qed
qed

lemma kmalloc_full:
  assumes "heap_full s xs r"
  shows "\<exists>s'. kmalloc req s = Some (0, s') \<and> free_frames s' = {}"
  using assms
proof (induction req s rule: kmalloc.induct)
  case (1 req s)
  let ?sz = "ALIGN_UP req 8"
  have "find (\<lambda>x. hb_free s x \<and> hb_size s x \<ge> ?sz) xs = None"
    using 1(2) by (auto simp: find_None_iff heap_full_def)
  then have ff: "first_fit s ?sz = Some 0" using first_fit_find [of s xs ?sz] 1(2) by (simp add: heap_full_def)
  let ?e = "kheap_expand (pages_needed ?sz) s"
  have ex: "heap_full (snd ?e) xs r \<and> (\<not> fst ?e \<longrightarrow> free_frames (snd ?e) = {})"
    unfolding kheap_expand_def by (rule heap_full_expand [OF 1(2)])
  show ?case
  proof (cases "fst ?e")
    case True
    then have "kmalloc req s = kmalloc ?sz (snd ?e)" using ff by (simp add: kmalloc.simps [of req s] Let_def case_prod_unfold)
    then show ?thesis using "1.IH" [OF refl ff refl prod.collapse True] ex by simp
  next
    case False
    then show ?thesis using ff ex by (simp add: kmalloc.simps [of req s] Let_def case_prod_unfold)
  qed
qed

subsection \<open>A heap whose last block is free\<close>

lemma get_next_table_counts_ge: "unat (free_pages s) \<le> Suc (unat (free_pages (snd (get_next_table t i b fl s))))"
proof -
  have "unat (free_pages s) \<le> Suc (unat (free_pages (snd (pmm_alloc_page s))))"
  proof (cases "free_pages s = 0")
    case False
    then have "Suc (unat (free_pages s - 1)) = unat (free_pages s)"
      using unat_minus_one [OF False] unat_gt_0 [of "free_pages s"] by simp
    then show ?thesis by (simp add: pmm_alloc_page_def split: option.split)
  qed simp
  then show ?thesis by (simp add: get_next_table_def Let_def case_prod_unfold)
qed

lemma vmm_map_page_counts_ge: "unat (free_pages s) \<le> unat (free_pages (vmm_map_page r va pa fl s)) + 3"
proof -
  let ?s1 = "snd (get_next_table r (PML4_IDX va) True fl s)"
  let ?t1 = "fst (get_next_table r (PML4_IDX va) True fl s)"
  let ?s2 = "snd (get_next_table ?t1 (PDPT_IDX va) True fl ?s1)"
  let ?t2 = "fst (get_next_table ?t1 (PDPT_IDX va) True fl ?s1)"
  let ?s3 = "snd (get_next_table ?t2 (PD_IDX va) True fl ?s2)"
  have "unat (free_pages s) \<le> Suc (unat (free_pages ?s1))" "unat (free_pages ?s1) \<le> Suc (unat (free_pages ?s2))"
    "unat (free_pages ?s2) \<le> Suc (unat (free_pages ?s3))" by (rule get_next_table_counts_ge)+
  then show ?thesis by (auto simp: vmm_map_page_def case_prod_unfold)
qed

lemma heap_inv_cong:
  assumes "l_next s' = l_next s" "l_prev s' = l_prev s" "kheap_list s' = kheap_list s" "kheap_top s' = kheap_top s" "hb_size s' = hb_size s"
  shows "heap_inv s' xs = heap_inv s xs"
proof -
  have "dll s' h xs = dll s h xs" for h by (rule dll_cong) (simp add: assms)
  then show ?thesis by (simp add: heap_inv_def assms)
qed

lemma kernel_ok_card: "kernel_ok s r \<Longrightarrow> card (free_frames s) = unat (free_pages s)"
  by (simp add: kernel_ok_def pt_inv_def pmm_inv_def)

lemma kernel_ok_map_card:
  assumes "kernel_ok s r"
  shows "card (free_frames s) \<le> card (free_frames (vmm_map_page (kernel_pml4 s) va pa (PTE_PRESENT OR PTE_RW) s)) + 3"
  using vmm_map_page_counts_ge [of s] kernel_ok_card [OF assms] kernel_ok_card [OF kernel_ok_map(1) [OF assms]] by metis

definition heap_open :: "'a kheap_scheme \<Rightarrow> u64 list \<Rightarrow> u64 \<Rightarrow> bool" where
  "heap_open s xs r \<longleftrightarrow> heap_inv s xs \<and> kernel_ok s r \<and> (xs \<noteq> [] \<longrightarrow> hb_free s (last xs))"

definition last_span :: "'a kheap_scheme \<Rightarrow> u64 list \<Rightarrow> nat" where
  "last_span s xs = (if xs = [] then 0 else unat (hb_size s (last xs)) + 32)"

lemma live_cong:
  assumes "\<And>y. y \<in> set xs \<Longrightarrow> hb_free s' y = hb_free s y" "\<And>y. y \<in> set xs \<Longrightarrow> \<not> hb_free s y \<Longrightarrow> hb_size s' y = hb_size s y"
  shows "live s' xs = live s xs"
  unfolding live_def using assms by (intro Collect_cong) metis

lemma heap_open_step:
  assumes op: "heap_open s xs r" and room: "heap_room s (Suc n)" and fr: "4 * Suc n \<le> card (free_frames s)"
  defines "s' \<equiv> kheap_add_page (fst (pmm_alloc_page s)) (snd (pmm_alloc_page s))"
  shows "fst (pmm_alloc_page s) \<noteq> 0"
    and "\<exists>xs'. heap_open s' xs' r \<and> heap_room s' n \<and> 4 * n \<le> card (free_frames s')
      \<and> last_span s' xs' = last_span s xs + 4096 \<and> live s' xs' = live s xs"
proof -
  let ?s1 = "snd (pmm_alloc_page s)" and ?pa = "fst (pmm_alloc_page s)"
  have k: "kernel_ok s r" and pi: "pmm_inv s" using op by (simp_all add: heap_open_def kernel_ok_def pt_inv_def)
  show pa: "?pa \<noteq> 0" using pm.alloc_zero_iff [OF pi] fr by auto
  have inv1: "heap_inv ?s1 xs" and room1: "heap_room ?s1 (Suc n)" using op room by (simp_all add: heap_open_def heap_room_def)
  note sp = kheap_add_page_spec(1-6) [OF inv1 room1, where pa = ?pa, folded s'_def] kheap_add_page_spec(7) [OF inv1 room1]
  note ka = kernel_ok_alloc [OF k]
  note kp = kernel_ok_add_page [OF ka(1), of ?pa, folded s'_def]
  let ?xs = "if xs = [] then [kheap_top s] else xs"
  have "4 * n \<le> card (free_frames s')"
    using kernel_ok_map_card [OF ka(1), of "kheap_top ?s1" ?pa] kp(3) ka(3) fr by simp
  moreover have "heap_open s' ?xs r" using sp(1,3,7) kp(1) op by (auto simp: heap_open_def)
  moreover have "last_span s' ?xs = last_span s xs + 4096" using sp(4,5) by (simp add: last_span_def)
  moreover have "live s' ?xs = live s xs"
  proof (cases "xs = []")
    case True
    then show ?thesis using sp(3) by (simp add: live_def)
  next
    case False
    have "hb_size s' y = hb_size s y" if "y \<in> set xs" "\<not> hb_free s y" for y
      using sp(6) [of y] sp(7) that op False by (auto simp: heap_open_def)
    moreover have "hb_free s' y = hb_free s y" if "y \<in> set xs" for y using that sp(3,7) by auto
    ultimately show ?thesis using False live_cong [of xs s' s] by simp
  qed
  ultimately show "\<exists>xs'. heap_open s' xs' r \<and> heap_room s' n \<and> 4 * n \<le> card (free_frames s')
      \<and> last_span s' xs' = last_span s xs + 4096 \<and> live s' xs' = live s xs" using sp(2) by blast
qed

lemma heap_open_expand:
  assumes "heap_open s xs r" "heap_room s (unat (n - i))" "4 * unat (n - i) \<le> card (free_frames s)" "i \<le> n"
  shows "\<exists>s' xs'. kheap_expand_loop n i s = (True, s') \<and> heap_open s' xs' r
    \<and> last_span s' xs' = last_span s xs + 4096 * unat (n - i) \<and> live s' xs' = live s xs"
  using assms
proof (induction n i s arbitrary: xs rule: kheap_expand_loop.induct)
  case (1 n i s)
  show ?case
  proof (cases "i < n")
    case False
    then have "i = n" using 1(5) by simp
    then show ?thesis using 1(2) by (auto simp: kheap_expand_loop.simps)
  next
    case True
    let ?s1 = "kheap_add_page (fst (pmm_alloc_page s)) (snd (pmm_alloc_page s))"
    have le: "i + 1 \<le> n" using True by (rule inc_le)
    have u: "unat (n - i) = Suc (unat (n - (i + 1)))"
      using True le unat_Suc_less [OF True] by (simp add: unat_sub_le less_imp_le word_less_nat_alt Suc_diff_Suc)
    note st = heap_open_step [OF 1(2), of "unat (n - (i + 1))", folded u, OF 1(3,4)]
    from st(2) obtain xs1 where x: "heap_open ?s1 xs1 r" "heap_room ?s1 (unat (n - (i + 1)))"
      "4 * unat (n - (i + 1)) \<le> card (free_frames ?s1)" "last_span ?s1 xs1 = last_span s xs + 4096" "live ?s1 xs1 = live s xs" by blast
    have "kheap_expand_loop n i s = kheap_expand_loop n (i + 1) ?s1"
      using True st(1) by (subst kheap_expand_loop.simps) (simp add: case_prod_unfold)
    moreover from "1.IH" [OF True prod.collapse st(1) x(1-3) le] obtain s' xs' where
      "kheap_expand_loop n (i + 1) ?s1 = (True, s')" "heap_open s' xs' r"
      "last_span s' xs' = last_span ?s1 xs1 + 4096 * unat (n - (i + 1))" "live s' xs' = live ?s1 xs1" by blast
    moreover have "last_span ?s1 xs1 + 4096 * unat (n - (i + 1)) = last_span s xs + 4096 * unat (n - i)" using x(4) u by simp
    ultimately show ?thesis using x(5) by (intro exI [of _ s'] exI [of _ xs']) simp
  qed
qed

lemma unat_ALIGN_UP_8:
  assumes "unat a + 7 < 2 ^ 64"
  shows "unat (ALIGN_UP a 8) = (unat a + 7) div 8 * 8"
proof -
  have eq: "a + 8 - 1 = a + 7" by simp
  have "unat (a + 7) = unat a + 7" using assms by (simp add: unat_add_no_overflow)
  with unat_and_not_mask [of "a + 7" 3] show ?thesis
    unfolding ALIGN_UP_def eq page_mask by (simp add: minus_mod_eq_div_mult)
qed

lemma ALIGN_UP_8:
  assumes "unat req < 2 ^ 47"
  shows "req \<le> ALIGN_UP req 8" "unat (ALIGN_UP req 8) \<le> unat req + 7" "ALIGN_UP (ALIGN_UP req 8) 8 = ALIGN_UP req 8"
proof -
  have u: "unat (ALIGN_UP req 8) = (unat req + 7) div 8 * 8" using assms by (intro unat_ALIGN_UP_8) simp
  show "req \<le> ALIGN_UP req 8" unfolding word_le_nat_alt u by linarith
  show b: "unat (ALIGN_UP req 8) \<le> unat req + 7" unfolding u by linarith
  have "unat (ALIGN_UP (ALIGN_UP req 8) 8) = (unat (ALIGN_UP req 8) + 7) div 8 * 8"
    using assms b by (intro unat_ALIGN_UP_8) simp
  also have "\<dots> = unat (ALIGN_UP req 8)" unfolding u by simp
  finally show "ALIGN_UP (ALIGN_UP req 8) 8 = ALIGN_UP req 8" by (simp add: word_unat_eq_iff)
qed

lemma unat_pages_needed:
  assumes "unat sz < 2 ^ 48"
  shows "unat (pages_needed sz) = (unat sz + 32 + 4095) div 4096"
proof -
  have u: "unat (sz + HEADER_SIZE) = unat sz + 32" using assms by (simp add: unat_add_no_overflow)
  have "unat (ALIGN_UP (sz + HEADER_SIZE) PAGE_SIZE) = (unat sz + 32 + 4095) div 4096 * 4096"
    using unat_ALIGN_UP_page [of "sz + HEADER_SIZE"] assms by (simp add: u minus_mod_eq_div_mult)
  then have "unat (ALIGN_UP (sz + HEADER_SIZE) PAGE_SIZE div PAGE_SIZE) = (unat sz + 32 + 4095) div 4096"
    by (simp add: unat_div)
  moreover have "(unat sz + 32 + 4095) div 4096 \<noteq> 0" by simp
  ultimately show ?thesis by (auto simp: pages_needed_def Let_def)
qed

lemma kmalloc_open:
  assumes op: "heap_open s xs r" and rq: "unat req < 2 ^ 47"
    and room: "heap_room s (unat (pages_needed (ALIGN_UP req 8)))" and fr: "4 * unat (pages_needed (ALIGN_UP req 8)) \<le> card (free_frames s)"
  shows "\<exists>x s' xs'. kmalloc req s = Some (x + HEADER_SIZE, s') \<and> heap_inv s' xs' \<and> req \<le> hb_size s' x
    \<and> live s' xs' = insert (x, hb_size s' x) (live s xs) \<and> x \<notin> fst ` live s xs
    \<and> (\<forall>(y, n) \<in> live s xs. payload x (hb_size s' x) \<inter> payload y n = {})"
proof -
  let ?sz = "ALIGN_UP req 8"
  note al = ALIGN_UP_8 [OF rq]
  have inv: "heap_inv s xs" using op by (simp add: heap_open_def)
  show ?thesis
  proof (cases "find (\<lambda>x. hb_free s x \<and> hb_size s x \<ge> ?sz) xs")
    case (Some x)
    obtain s' xs' where "kmalloc req s = Some (x + HEADER_SIZE, s')" "heap_inv s' xs'" "?sz \<le> hb_size s' x"
      "live s' xs' = insert (x, hb_size s' x) (live s xs)" "x \<notin> fst ` live s xs"
      "\<forall>(y, n) \<in> live s xs. payload x (hb_size s' x) \<inter> payload y n = {}"
      using kmalloc_block [OF inv Some] by metis
    moreover from this(3) al(1) have "req \<le> hb_size s' x" by (rule order_trans [rotated])
    ultimately show ?thesis by (intro exI [of _ x] exI [of _ s'] exI [of _ xs']) simp
  next
    case None
    have ff: "first_fit s ?sz = Some 0" using first_fit_find [OF inv, of ?sz] None by simp
    obtain s1 xs1 where e: "kheap_expand (pages_needed ?sz) s = (True, s1)" "heap_open s1 xs1 r" "live s1 xs1 = live s xs"
      "last_span s1 xs1 = last_span s xs + 4096 * unat (pages_needed ?sz)"
      using heap_open_expand [OF op, of "pages_needed ?sz" 0] room fr unfolding kheap_expand_def by auto
    have "unat ?sz + 32 \<le> 4096 * unat (pages_needed ?sz)"
      using unat_pages_needed [of ?sz] al(2) rq by simp
    then have "xs1 \<noteq> []" "?sz \<le> hb_size s1 (last xs1)" using e(4)
      by (auto simp: last_span_def word_le_nat_alt split: if_splits)
    then have "find (\<lambda>x. hb_free s1 x \<and> hb_size s1 x \<ge> ALIGN_UP ?sz 8) xs1 \<noteq> None"
      using e(2) al(3) by (auto simp: find_None_iff heap_open_def intro!: bexI [of _ "last xs1"])
    then obtain x where x: "find (\<lambda>x. hb_free s1 x \<and> hb_size s1 x \<ge> ALIGN_UP ?sz 8) xs1 = Some x" by blast
    have "kmalloc req s = kmalloc ?sz s1" using ff e(1) by (simp add: kmalloc.simps [of req s] Let_def)
    moreover have inv1: "heap_inv s1 xs1" using e(2) by (simp add: heap_open_def)
    moreover obtain s' xs' where "kmalloc ?sz s1 = Some (x + HEADER_SIZE, s')" "heap_inv s' xs'" "ALIGN_UP ?sz 8 \<le> hb_size s' x"
      "live s' xs' = insert (x, hb_size s' x) (live s1 xs1)" "x \<notin> fst ` live s1 xs1"
      "\<forall>(y, n) \<in> live s1 xs1. payload x (hb_size s' x) \<inter> payload y n = {}"
      using kmalloc_block [OF inv1 x] by metis
    moreover from this(3) al(1) have "req \<le> hb_size s' x" unfolding al(3) by (rule order_trans [rotated])
    ultimately show ?thesis unfolding e(3) by (intro exI [of _ x] exI [of _ s'] exI [of _ xs']) simp
  qed
qed

subsection \<open>Kernel stacks\<close>

lemma same_page_unat:
  assumes "paged a" "paged b" "same_page a b" "unat a \<le> unat b" "unat b < unat a + 2 ^ 48"
  shows "a = b"
proof -
  obtain p q where pq: "unat a = 4096 * p" "unat b = 4096 * q" using assms(1,2) by (metis pagedE)
  have m: "0x0000FFFFFFFFF000 = push_bit 12 (mask 36 :: u64)" by (simp add: mask_eq_exp_minus_1 push_bit_eq_mult)
  have "take_bit 48 a = take_bit 48 b"
  proof (rule bit_word_eqI)
    fix n assume "n < LENGTH(64)"
    have "bit x n \<Longrightarrow> 12 \<le> n" if "paged x" for x
    proof -
      have "take_bit 12 x = 0" using that by (simp add: paged_def take_bit_eq_mask mask_eq_exp_minus_1)
      then show "bit x n \<Longrightarrow> 12 \<le> n" by (metis bit_take_bit_iff bit_0_eq bot_apply bot_bool_def not_le)
    qed
    then show "bit (take_bit 48 a) n = bit (take_bit 48 b) n"
      using assms(1,2) assms(3) [unfolded same_page_bits, rule_format, of n] by (auto simp: bit_simps)
  qed
  then have "unat (take_bit 48 a) = unat (take_bit 48 b)" by simp
  then have "unat a mod 2 ^ 48 = unat b mod 2 ^ 48" by (simp add: take_bit_eq_mod unat_mod_distrib)
  then have "2 ^ 48 dvd unat b - unat a" using assms(4) by (metis mod_eq_dvd_iff_nat)
  moreover have "unat b - unat a < 2 ^ 48" using assms(4,5) by linarith
  ultimately have "unat b - unat a = 0" by (meson dvd_imp_le not_le not_gr_zero)
  then have "unat a = unat b" using assms(4) by linarith
  then show ?thesis by (simp add: word_unat_eq_iff)
qed

lemma unat_page_cases:
  assumes "paged i" "paged n" "i < n"
  shows "unat i + 4096 \<le> unat n"
proof -
  obtain p q where pq: "unat i = 4096 * p" "unat n = 4096 * q" using assms(1,2) by (metis pagedE)
  then show ?thesis using assms(3) by (simp add: word_less_nat_alt)
qed

lemma pages_between_range:
  assumes "paged i" "paged n" "p \<in> set (pages_between i n)"
  shows "paged p \<and> unat i \<le> unat p \<and> unat p < unat n"
  using assms
proof (induction "(unat n - unat i) div 4096" arbitrary: i)
  case 0
  then show ?case by (simp add: pages_between_def)
next
  case (Suc k)
  then have lt: "i < n" by (metis diff_is_0_eq div_0 nat.distinct(1) not_le word_le_nat_alt)
  note st = page_step [OF Suc.prems(1,2) lt]
  have "p = i \<or> p \<in> set (pages_between (i + PAGE_SIZE) n)"
    using Suc.prems(3) pages_between_step [OF Suc.prems(1,2) lt] by simp
  then show ?case
    using Suc.hyps(1) [of "i + PAGE_SIZE"] Suc.hyps(2) Suc.prems(1,2) st lt by (auto simp: word_less_nat_alt)
qed

lemma kstack_map_loop_spec:
  assumes "kernel_ok s r" "paged v" "paged vtop" "v \<le> vtop" "unat vtop < unat v + 2 ^ 48"
  shows "\<exists>ok s'. kstack_map_loop v vtop s = Some (ok, s') \<and> kernel_ok s' r \<and> kstack_ptr s' = kstack_ptr s
    \<and> free_frames s' \<subseteq> free_frames s
    \<and> (\<forall>va. (\<forall>p \<in> set (pages_between v vtop). \<not> same_page p va) \<longrightarrow> translate s' r va = translate s r va)
    \<and> (ok \<longrightarrow> free_frames s' \<noteq> {} \<longrightarrow>
        (\<forall>p \<in> set (pages_between v vtop). \<exists>f \<in> free_frames s - free_frames s'. translate s' r p = Some (pgidx2pa f)))"
  using assms(1,2,4,5)
proof (induction "unat vtop - unat v" arbitrary: v s rule: less_induct)
  case less
  show ?case
  proof (cases "v < vtop")
    case False
    then show ?thesis
      using less.prems by (intro exI [of _ True] exI [of _ s]) (simp add: kstack_map_loop.simps pages_between_empty)
  next
    case True
    have pi: "pmm_inv s" using less.prems(1) by (simp add: kernel_ok_def pt_inv_def)
    let ?pa = "fst (pmm_alloc_page s)" and ?s1 = "snd (pmm_alloc_page s)"
    note ka = kernel_ok_alloc [OF less.prems(1)]
    have e1: "translate ?s1 r va = translate s r va" for va
      using pt_entry_cong [of ?s1 s] by (simp add: translate_def va_pte_def)
    show ?thesis
    proof (cases "?pa = 0")
      case z: True
      then have "kstack_map_loop v vtop s = Some (False, ?s1)"
        using True by (simp add: kstack_map_loop.simps case_prod_unfold)
      then show ?thesis using ka e1 by (intro exI [of _ False] exI [of _ ?s1]) simp
    next
      case False
      define s2 where "s2 = vmm_map_page (kernel_pml4 ?s1) v ?pa (PTE_PRESENT OR PTE_RW) ?s1"
      note km = kernel_ok_map [OF ka(1), of v ?pa, folded s2_def]
      have run: "kstack_map_loop v vtop s = kstack_map_loop (v + PAGE_SIZE) vtop s2"
        using True False by (simp add: kstack_map_loop.simps [of v] case_prod_unfold s2_def)
      note st = page_step [OF less.prems(2) assms(3) True]
      have le: "v + PAGE_SIZE \<le> vtop" using unat_page_cases [OF less.prems(2) assms(3) True] st(1) by (simp add: word_le_nat_alt)
      have "unat vtop - unat (v + PAGE_SIZE) < unat vtop - unat v"
        using True st(1) unfolding word_less_nat_alt by linarith
      from less.hyps [OF this km(1) st(2) le] less.prems(4) st(1) obtain ok s' where
        IH: "kstack_map_loop (v + PAGE_SIZE) vtop s2 = Some (ok, s')" "kernel_ok s' r" "kstack_ptr s' = kstack_ptr s2" "free_frames s' \<subseteq> free_frames s2"
        and same: "\<And>va. (\<forall>p \<in> set (pages_between (v + PAGE_SIZE) vtop). \<not> same_page p va) \<Longrightarrow> translate s' r va = translate s2 r va"
        and maps: "ok \<Longrightarrow> free_frames s' \<noteq> {} \<Longrightarrow> p \<in> set (pages_between (v + PAGE_SIZE) vtop) \<Longrightarrow>
            \<exists>f \<in> free_frames s2 - free_frames s'. translate s' r p = Some (pgidx2pa f)" for p
        by auto
      have pg: "set (pages_between v vtop) = insert v (set (pages_between (v + PAGE_SIZE) vtop))"
        using pages_between_step [OF less.prems(2) assms(3) True] by simp
      have nv: "\<not> same_page p v" if "p \<in> set (pages_between (v + PAGE_SIZE) vtop)" for p
      proof
        assume sp: "same_page p v"
        note pr = pages_between_range [OF st(2) assms(3) that]
        have "v = p" using sp pr st(1) less.prems(4)
          by (intro same_page_unat [OF less.prems(2)]) (auto simp: same_page_def)
        then show False using pr st(1) by simp
      qed
      have inv1: "pt_inv ?s1 r" and k1: "kernel_pml4 ?s1 = pa2kva ?s1 r" using ka(1) by (simp_all add: kernel_ok_def)
      note sp = vmm_map_page_spec(2,3) [OF inv1 kernel_flags, where va = v and pa = ?pa, folded k1, folded s2_def]
      have frame: "frame_ok s ?pa" "hhdm_ok s" "pa2pgidx ?pa \<in> free_frames s"
        using alloc_frame [OF pi False] less.prems(1) by (simp_all add: kernel_ok_def pt_inv_def)
      have tv: "translate s2 r v = Some ?pa" if "free_frames s2 \<noteq> {}"
        using va_pte_translate [of s2 r v ?pa "PTE_PRESENT OR PTE_RW"] sp(1) [OF that, of v] frame_addr_mask [OF frame(2,1)] less.prems(2)
        by (simp add: same_page_def paged_def)
      have fresh: "pa2pgidx ?pa \<notin> free_frames s'" "pgidx2pa (pa2pgidx ?pa) = ?pa"
      proof -
        note af = pm.alloc_fresh [OF pi False]
        show "pa2pgidx ?pa \<notin> free_frames s'" using af(2) km(2) IH(4) by auto
        have "unat (pgidx2pa (pa2pgidx ?pa)) = unat ?pa"
          using af(3) unat_lt_2p64 [of ?pa] by (simp add: pgidx2pa_def unat_mult_no_overflow)
        then show "pgidx2pa (pa2pgidx ?pa) = ?pa" by (simp add: word_unat_eq_iff)
      qed
      show ?thesis
      proof (intro exI [of _ ok] exI [of _ s'] conjI impI allI ballI)
        show "kstack_map_loop v vtop s = Some (ok, s')" using run IH(1) by simp
        show "kernel_ok s' r" by (rule IH(2))
        show "kstack_ptr s' = kstack_ptr s" using IH(3) by (simp add: s2_def)
        show "free_frames s' \<subseteq> free_frames s" using IH(4) km(2) ka(2) by blast
        show "translate s' r va = translate s r va" if "\<forall>p \<in> set (pages_between v vtop). \<not> same_page p va" for va
        proof -
          have "va_pte s2 r va = va_pte ?s1 r va" using that sp(2) pg by simp
          then have "translate s2 r va = translate ?s1 r va" by (simp add: translate_def)
          then show ?thesis using same [of va] that pg e1 by simp
        qed
        show "\<exists>f \<in> free_frames s - free_frames s'. translate s' r p = Some (pgidx2pa f)"
          if ok: ok and fs: "free_frames s' \<noteq> {}" and p: "p \<in> set (pages_between v vtop)" for p
        proof (cases "p = v")
          case True
          have "translate s' r v = Some ?pa" using same [of v] nv tv fs IH(4) by auto
          then show ?thesis using True frame(3) fresh by (intro bexI [of _ "pa2pgidx ?pa"]) auto
        next
          case False
          then show ?thesis using maps [OF ok fs, of p] p pg km(2) ka(2) by blast
        qed
      qed
    qed
  qed
qed

subsection \<open>Freeing a block in front of a live one\<close>

lemma kfree_swallows:
  assumes inv: "heap_inv s (x # z # zs)" and rq: "unat req < 2 ^ 47"
    and fit: "unat (hb_size s x) + 32 < unat (ALIGN_UP req 8)"
      "unat (ALIGN_UP req 8) \<le> unat (hb_size s x) + 32 + unat (hb_size s z)"
  shows "\<exists>s'. kmalloc req (kfree (x + HEADER_SIZE) s) = Some (x + HEADER_SIZE, s')
    \<and> payload x (hb_size s' x) \<inter> payload z (hb_size s z) \<noteq> {}"
proof -
  let ?s = "kfree (x + HEADER_SIZE) s" and ?sz = "ALIGN_UP req 8"
  have inv': "heap_inv ?s (x # zs)" and fr: "hb_free ?s x"
    using kfree_spec(1,2) [of s "[]" x "z # zs"] inv by simp_all
  have "hb_size ?s x = hb_size s x + (hb_size s z + HEADER_SIZE)"
    using kfree_unfold [of s "[]" x "z # zs"] inv by (simp add: kfree_forward_def)
  then have hs: "unat (hb_size ?s x) = unat (hb_size s x) + unat (hb_size s z) + 32"
    using block_adjacent(3) [of s "[]" x z zs] inv by simp
  have szle: "?sz \<le> hb_size ?s x" using fit(2) hs by (simp add: word_le_nat_alt)
  have "find (\<lambda>x. hb_free ?s x \<and> hb_size ?s x \<ge> ?sz) (x # zs) = Some x" using fr szle by simp
  from kmalloc_fits [OF inv' this] take_block_spec [of ?s "[]" x zs ?sz] inv' szle
  have km: "kmalloc req ?s = Some (x + HEADER_SIZE, take_block x ?sz ?s)"
    and ge: "?sz \<le> hb_size (take_block x ?sz ?s) x" by auto
  have "unat z = unat x + 32 + unat (hb_size s x)" using block_adjacent(2) [of s "[]" x z zs] inv by simp
  then have "unat z + 32 \<in> payload x (hb_size (take_block x ?sz ?s) x) \<inter> payload z (hb_size s z)"
    using ge fit by (simp add: payload_def word_le_nat_alt)
  then show ?thesis using km by blast
qed

subsection \<open>An example heap\<close>

text \<open>One page of heap at \<^verbatim>\<open>KERNEL_HEAP_BASE\<close>, split into a block of 64 bytes in use and the free rest.\<close>

definition example_kheap :: kheap where
  "example_kheap = paging.extend (example_paging
       \<lparr>l_next := (\<lambda>_. 0)(0xFFFFFFFF80010000 := 0xFFFF900000000000, 0xFFFF900000000000 := 0xFFFF900000000060, 0xFFFF900000000060 := 0xFFFFFFFF80010000),
        l_prev := (\<lambda>_. 0)(0xFFFFFFFF80010000 := 0xFFFF900000000060, 0xFFFF900000000000 := 0xFFFFFFFF80010000, 0xFFFF900000000060 := 0xFFFF900000000000),
        kernel_pml4 := 0xFFFF800000001000\<rparr>)
     \<lparr>kheap_list = 0xFFFFFFFF80010000, kheap_top = 0xFFFF900000001000, kstack_ptr = 0xFFFFB00000000000,
      hb_size = (\<lambda>_. 0)(0xFFFF900000000000 := 64, 0xFFFF900000000060 := 3968), hb_free = (\<lambda>_. False)(0xFFFF900000000060 := True)\<rparr>"

lemma example_kheap_fields:
  "l_next example_kheap = (\<lambda>_. 0)(0xFFFFFFFF80010000 := 0xFFFF900000000000, 0xFFFF900000000000 := 0xFFFF900000000060, 0xFFFF900000000060 := 0xFFFFFFFF80010000)"
  "l_prev example_kheap = (\<lambda>_. 0)(0xFFFFFFFF80010000 := 0xFFFF900000000060, 0xFFFF900000000000 := 0xFFFFFFFF80010000, 0xFFFF900000000060 := 0xFFFF900000000000)"
  "kheap_list example_kheap = 0xFFFFFFFF80010000" "kheap_top example_kheap = 0xFFFF900000001000"
  "hb_size example_kheap = (\<lambda>_. 0)(0xFFFF900000000000 := 64, 0xFFFF900000000060 := 3968)"
  "hb_free example_kheap = (\<lambda>_. False)(0xFFFF900000000060 := True)" "kernel_pml4 example_kheap = 0xFFFF800000001000"
  "kstack_ptr example_kheap = 0xFFFFB00000000000" "kmem example_kheap = (\<lambda>_. 0)" "HHDM_OFFSET example_kheap = 0xFFFF800000000000"
  "total_pages example_kheap = 16" "bitmap example_kheap = bitmap example_paging" "free_pages example_kheap = free_pages example_paging"
  "last_free_index example_kheap = last_free_index example_paging"
  by (simp_all add: example_kheap_def example_paging_def paging.extend_def)

lemma example_heap_inv: "heap_inv example_kheap [0xFFFF900000000000, 0xFFFF900000000060]"
  by (simp add: heap_inv_def dll_def example_kheap_fields)

lemma example_kernel_ok: "kernel_ok example_kheap 0x1000" and example_kheap_frames: "card (free_frames example_kheap) = 14"
proof -
  have ff: "free_frames example_kheap = free_frames example_paging"
    by (simp add: free_frames_def bit_test_def example_kheap_fields example_paging_facts)
  then show "card (free_frames example_kheap) = 14" by (simp add: example_paging_facts(1))
  have "pmm_inv example_kheap"
    using example_paging_facts(2) ff by (simp add: pmm_inv_def example_kheap_fields example_paging_facts(6))
  then have "pt_inv example_kheap 0x1000"
    by (intro pt_inv_empty) (simp_all add: ff example_paging_facts(1) hhdm_ok_def frame_ok_def paged_def pa2pgidx_def
        cleared_def pt_entry_def read64_def example_kheap_fields)
  then show "kernel_ok example_kheap 0x1000" by (simp add: kernel_ok_def example_kheap_fields pa2kva_def)
qed

lemma example_heap_open: "heap_open example_kheap [0xFFFF900000000000, 0xFFFF900000000060] 0x1000"
  using example_heap_inv example_kernel_ok by (simp add: heap_open_def example_kheap_fields)

lemma example_kheap_full:
  "heap_full (example_kheap\<lparr>hb_free := (\<lambda>_. False)\<rparr>) [0xFFFF900000000000, 0xFFFF900000000060] 0x1000"
proof -
  have "kernel_ok (example_kheap\<lparr>hb_free := (\<lambda>_. False)\<rparr>) 0x1000"
    using kernel_ok_same [OF pages_same_heap(2)] example_kernel_ok by blast
  moreover have "free_frames (example_kheap\<lparr>hb_free := (\<lambda>_. False)\<rparr>) = free_frames example_kheap"
    using pages_same_views(1) [OF pages_same_heap(2)] by blast
  ultimately show ?thesis using example_heap_inv example_kheap_frames
    by (simp add: heap_full_def heap_room_def paged_def example_kheap_fields)
qed

subsection \<open>Properties\<close>

text \<open>
  C4: when the last block of the heap is free (or the heap is empty) and there are frames for the
  pages it may need (one and at most three page tables each), \<^verbatim>\<open>kmalloc\<close> returns a block that is
  large enough, was not in use, and whose bytes are disjoint from those of every block handed out
  before; the blocks handed out afterwards are the earlier ones and the new one, and the heap keeps
  its layout.
\<close>

theorem kmalloc_fresh_block:
  assumes "heap_open s xs r" and "unat req < 2 ^ 47"
    and "heap_room s (unat (pages_needed (ALIGN_UP req 8)))" and "4 * unat (pages_needed (ALIGN_UP req 8)) \<le> card (free_frames s)"
  shows "\<exists>x s' xs'. kmalloc req s = Some (x + HEADER_SIZE, s') \<and> heap_inv s' xs' \<and> req \<le> hb_size s' x
    \<and> live s' xs' = insert (x, hb_size s' x) (live s xs) \<and> x \<notin> fst ` live s xs
    \<and> (\<forall>(y, n) \<in> live s xs. payload x (hb_size s' x) \<inter> payload y n = {})"
  by (rule kmalloc_open [OF assms])

theorem kmalloc_fresh_block_witness:
  "\<exists>x s' xs'. kmalloc 5000 example_kheap = Some (x + 32, s') \<and> heap_inv s' xs' \<and> 5000 \<le> hb_size s' x"
proof -
  have p: "unat (pages_needed (ALIGN_UP 5000 8)) = 2" by code_simp
  have "heap_room example_kheap 2" by (simp add: heap_room_def paged_def example_kheap_fields)
  then show ?thesis using kmalloc_fresh_block [OF example_heap_open, of 5000] example_kheap_frames unfolding p by auto
qed



text \<open>
  C29: \<^verbatim>\<open>kfree\<close> merges a block with the block behind it, and then into the block in front of it, without
  looking at their state: the heap keeps its layout and every other block keeps its size.
\<close>

theorem kfree_merges_neighbours:
  assumes "heap_inv s (ys @ x # zs)"
  shows "heap_inv (kfree (x + HEADER_SIZE) s) ((if ys = [] then [x] else ys) @ tl zs)
    \<and> hb_free (kfree (x + HEADER_SIZE) s) = (hb_free s)(x := True)
    \<and> (\<forall>y. y \<noteq> x \<longrightarrow> y \<noteq> kfree_merged ys x \<longrightarrow> hb_size (kfree (x + HEADER_SIZE) s) y = hb_size s y)"
  using kfree_spec(1-3) [OF assms] by blast

theorem kfree_merges_neighbours_witness:
  "heap_inv (kfree (0xFFFF900000000000 + 32) example_kheap) [0xFFFF900000000000]"
  using kfree_merges_neighbours [of example_kheap "[]" "0xFFFF900000000000" "[0xFFFF900000000060]"] example_heap_inv by simp

text \<open>
  C35: after \<^verbatim>\<open>kfree\<close> of the first block, a request that is larger than it and fits the two first blocks
  together is answered with memory that overlaps the second block, even if that one is in use.
\<close>

theorem kfree_then_kmalloc_overlaps:
  assumes "heap_inv s (x # z # zs)" "unat req < 2 ^ 47"
    and "unat (hb_size s x) + 32 < unat (ALIGN_UP req 8)"
      "unat (ALIGN_UP req 8) \<le> unat (hb_size s x) + 32 + unat (hb_size s z)"
  shows "\<exists>s'. kmalloc req (kfree (x + HEADER_SIZE) s) = Some (x + HEADER_SIZE, s')
    \<and> payload x (hb_size s' x) \<inter> payload z (hb_size s z) \<noteq> {}"
  by (rule kfree_swallows [OF assms])

theorem kfree_then_kmalloc_overlaps_witness:
  "\<exists>s'. kmalloc 128 (kfree (0xFFFF900000000000 + 32) (example_kheap\<lparr>hb_free := (\<lambda>_. False)\<rparr>)) = Some (0xFFFF900000000000 + 32, s')
    \<and> payload 0xFFFF900000000000 (hb_size s' 0xFFFF900000000000) \<inter> payload 0xFFFF900000000060 3968 \<noteq> {}"
proof -
  have a: "unat (ALIGN_UP 128 8) = 128" by code_simp
  show ?thesis
    using kfree_then_kmalloc_overlaps [of "example_kheap\<lparr>hb_free := (\<lambda>_. False)\<rparr>" "0xFFFF900000000000" "0xFFFF900000000060" "[]" 128]
      example_heap_inv a by (simp add: example_kheap_fields)
qed

lemma kstack_init_run:
  assumes "kernel_ok s r" "paged (kstack_ptr s)" "paged sz" "unat (kstack_ptr s) + 4096 + unat sz < 2 ^ 64" "unat sz < 2 ^ 48"
  shows "\<exists>t s'. kstack_init sz s = Some (t, s') \<and> kernel_ok s' r \<and> kstack_ptr s' = kstack_ptr s + PAGE_SIZE + sz
    \<and> (\<forall>va. (\<forall>p \<in> set (pages_between (kstack_ptr s + PAGE_SIZE) (kstack_ptr s')). \<not> same_page p va) \<longrightarrow> translate s' r va = translate s r va)
    \<and> (t \<noteq> 0 \<longrightarrow> t = kstack_ptr s' \<and> (free_frames s' \<noteq> {} \<longrightarrow>
        (\<forall>p \<in> set (pages_between (kstack_ptr s + PAGE_SIZE) t). \<exists>f \<in> free_frames s - free_frames s'. translate s' r p = Some (pgidx2pa f))))"
proof -
  let ?b = "kstack_ptr s + PAGE_SIZE"
  let ?s = "s\<lparr>kstack_ptr := ?b + sz\<rparr>"
  have same: "pages_same s ?s" by (simp add: pages_same_def)
  have ub: "unat ?b = unat (kstack_ptr s) + 4096" using assms(4) by (simp add: unat_add_no_overflow)
  then have ut: "unat (?b + sz) = unat (kstack_ptr s) + 4096 + unat sz" using assms(4) by (simp add: unat_add_no_overflow)
  have pb: "paged ?b" using assms(2) by (intro paged_add) (simp_all add: paged_def)
  have "kernel_ok ?s r" "paged ?b" "paged (?b + sz)" "?b \<le> ?b + sz" "unat (?b + sz) < unat ?b + 2 ^ 48"
    using assms(1,3,5) kernel_ok_same [OF same] pb paged_add [OF pb assms(3)] ut ub by (simp_all add: word_le_nat_alt)
  from kstack_map_loop_spec [OF this] obtain ok s' where l: "kstack_map_loop ?b (?b + sz) ?s = Some (ok, s')" "kernel_ok s' r"
      "kstack_ptr s' = ?b + sz"
    and tr: "\<forall>va. (\<forall>p \<in> set (pages_between ?b (?b + sz)). \<not> same_page p va) \<longrightarrow> translate s' r va = translate ?s r va"
    and mp: "ok \<longrightarrow> free_frames s' \<noteq> {} \<longrightarrow> (\<forall>p \<in> set (pages_between ?b (?b + sz)). \<exists>f \<in> free_frames ?s - free_frames s'. translate s' r p = Some (pgidx2pa f))"
    by auto
  have "kstack_init sz s = Some (if ok then ?b + sz else 0, s')" using l(1) by (simp add: kstack_init_def)
  then show ?thesis
    using l(2,3) tr mp pages_same_views(1,5) [OF same]
    by (intro exI [of _ "if ok then ?b + sz else 0"] exI [of _ s']) (simp add: pages_same_views(5) [OF same])
qed



end
