(* ===== verification/Vmm.thy ===== *)
theory Vmm
  imports Kheap
begin

text \<open>
  User address spaces, \<^verbatim>\<open>mm/vmm.c\<close>. An \<open>mm_struct\<close> and a \<open>vma_struct\<close> are records held at their
  addresses (\<open>mms\<close>, \<open>vmas\<close>); the list nodes embedded in them are nodes of the link memory, at the
  structure's address plus the field's offset. The heap's answer \<open>None\<close> (a search that never ends)
  is passed on.
\<close>

record vma_struct =
  vma_mm :: u64
  vm_start :: u64
  vm_end :: u64
  vm_flags :: u64

record mm_struct =
  mm_pml4 :: u64
  mm_pml4_pa :: u64
  map_count :: int
  ref_count :: int
  mmap_cache :: u64
  start_code :: u64
  end_code :: u64
  start_data :: u64
  end_data :: u64
  start_heap :: u64
  mm_heap :: u64
  start_stack :: u64

record vmm = kheap +
  mms :: "u64 \<Rightarrow> mm_struct"
  vmas :: "u64 \<Rightarrow> vma_struct"

abbreviation (input) VM_READ :: u64 where "VM_READ \<equiv> 1"
abbreviation (input) VM_WRITE :: u64 where "VM_WRITE \<equiv> 2"
abbreviation (input) VM_EXEC :: u64 where "VM_EXEC \<equiv> 4"
abbreviation (input) VM_STACK :: u64 where "VM_STACK \<equiv> 16"
abbreviation (input) VM_HEAP :: u64 where "VM_HEAP \<equiv> 32"

abbreviation (input) sizeof_mm_struct :: u64 where "sizeof_mm_struct \<equiv> 104"
abbreviation (input) sizeof_vma_struct :: u64 where "sizeof_vma_struct \<equiv> 48"

text \<open>\<^verbatim>\<open>&mm->vma_list\<close>; the node of a VMA is its first field, so \<^verbatim>\<open>container_of\<close> is the identity there.\<close>

abbreviation vma_list :: "u64 \<Rightarrow> u64" where "vma_list mm \<equiv> mm + 16"

definition zero_mm :: mm_struct where
  "zero_mm = \<lparr>mm_pml4 = 0, mm_pml4_pa = 0, map_count = 0, ref_count = 0, mmap_cache = 0, start_code = 0, end_code = 0,
     start_data = 0, end_data = 0, start_heap = 0, mm_heap = 0, start_stack = 0\<rparr>"

definition set_mm :: "u64 \<Rightarrow> (mm_struct \<Rightarrow> mm_struct) \<Rightarrow> 'a vmm_scheme \<Rightarrow> 'a vmm_scheme" where
  "set_mm mm f s = s\<lparr>mms := (mms s)(mm := f (mms s mm))\<rparr>"

subsection \<open>Creating an address space\<close>

text \<open>The loop over the entries 256 to 511 of the top-level table.\<close>

function copy_kernel_half :: "u64 \<Rightarrow> u64 \<Rightarrow> u64 \<Rightarrow> mem \<Rightarrow> mem" where
  "copy_kernel_half dst src i m =
     (if i < 512 then copy_kernel_half dst src (i + 1) (write64 m (dst + 8 * i) (read64 m (src + 8 * i))) else m)"
  by pat_completeness auto
termination
  using loop_measure_decreases [where n = 512]
  by (relation "measure (\<lambda>(d, s, i, m). unat (512 - i))") auto

declare copy_kernel_half.simps [simp del]

definition mm_alloc :: "'a vmm_scheme \<Rightarrow> (u64 \<times> 'a vmm_scheme) option" where
  "mm_alloc s =
     (case kmalloc sizeof_mm_struct s of
        None \<Rightarrow> None
      | Some (mm, s1) \<Rightarrow>
          if mm = 0 then Some (0, s1)
          else
            let s2 = s1\<lparr>mms := (mms s1)(mm := zero_mm), l_next := (l_next s1)(vma_list mm := 0),
                        l_prev := (l_prev s1)(vma_list mm := 0)\<rparr>
            in case pmm_alloc_page s2 of (pml4_pa, s3) \<Rightarrow>
                 if pml4_pa = 0 then Some (0, kfree mm s3)
                 else
                   let pml4 = pml4_pa + HHDM_OFFSET s3;
                       s4 = set_mm mm (\<lambda>r. r\<lparr>mm_pml4_pa := pml4_pa, mm_pml4 := pml4\<rparr>) s3;
                       s5 = s4\<lparr>kmem := copy_kernel_half pml4 (kernel_pml4 s4) 256 (memset (kmem s4) pml4 0 PAGE_SIZE)\<rparr>;
                       s6 = list_init (vma_list mm) s5
                   in Some (mm, set_mm mm (\<lambda>r. zero_mm\<lparr>mm_pml4 := mm_pml4 r, mm_pml4_pa := mm_pml4_pa r\<rparr>) s6))"

subsection \<open>Destroying it\<close>

partial_function (option) free_vmas :: "u64 \<Rightarrow> u64 \<Rightarrow> 'a vmm_scheme \<Rightarrow> 'a vmm_scheme option" where
  "free_vmas node head s =
     (if node = head then Some s else free_vmas (l_next s node) head (kfree node s))"

definition mm_free :: "u64 \<Rightarrow> 'a vmm_scheme \<Rightarrow> 'a vmm_scheme option" where
  "mm_free mm s =
     (if mm = 0 then Some s
      else map_option
        (\<lambda>s1. let s2 = (if mm_pml4 (mms s1 mm) \<noteq> 0
                        then pmm_free_page (mm_pml4_pa (mms s1 mm)) (user_pgtable_free_recursive (mm_pml4 (mms s1 mm)) 4 s1)
                        else s1)
              in kfree mm s2)
        (free_vmas (l_next s (vma_list mm)) (vma_list mm) s))"

subsection \<open>Mapping a range\<close>

definition unmap_page :: "u64 \<Rightarrow> u64 \<Rightarrow> 'a vmm_scheme \<Rightarrow> 'a vmm_scheme" where
  "unmap_page pml4 va s =
     (let pte = vmm_get_pte pml4 va s
      in if pte \<noteq> 0 \<and> read64 (kmem s) pte AND PTE_PRESENT \<noteq> 0
         then let s1 = pmm_free_page (PTE_GET_ADDR (read64 (kmem s) pte)) s
              in s1\<lparr>kmem := write64 (kmem s1) pte 0\<rparr>
         else s)"

function rollback_loop :: "u64 \<Rightarrow> u64 \<Rightarrow> u64 \<Rightarrow> u64 \<Rightarrow> 'a vmm_scheme \<Rightarrow> 'a vmm_scheme" where
  "rollback_loop pml4 start i j s =
     (if j < i then rollback_loop pml4 start i (j + 1) (unmap_page pml4 (start + j * PAGE_SIZE) s) else s)"
  by pat_completeness auto
termination
  by (relation "measure (\<lambda>(p, st, i, j, s). unat (i - j))") (auto simp: loop_measure_decreases)

function map_range_loop :: "u64 \<Rightarrow> u64 \<Rightarrow> u64 \<Rightarrow> u64 \<Rightarrow> u64 \<Rightarrow> u64 \<Rightarrow> 'a vmm_scheme \<Rightarrow> bool \<times> 'a vmm_scheme" where
  "map_range_loop pml4 vma start pte_flags pages i s =
     (if i < pages
      then case pmm_alloc_page s of (pa, s1) \<Rightarrow>
        if pa = 0 then (False, kfree vma (rollback_loop pml4 start i 0 s1))
        else map_range_loop pml4 vma start pte_flags pages (i + 1)
          (vmm_map_page pml4 (start + i * PAGE_SIZE) pa pte_flags s1)
      else (True, s))"
  by pat_completeness auto
termination
  by (relation "measure (\<lambda>(p, v, st, fl, n, i, s). unat (n - i))") (auto simp: loop_measure_decreases)

declare rollback_loop.simps [simp del] map_range_loop.simps [simp del]

definition pte_flags_of :: "u64 \<Rightarrow> u64" where
  "pte_flags_of flags =
     (PTE_PRESENT OR PTE_USER) OR (if flags AND VM_WRITE \<noteq> 0 then PTE_RW else 0)"

definition mm_map_range :: "u64 \<Rightarrow> u64 \<Rightarrow> u64 \<Rightarrow> u64 \<Rightarrow> 'a vmm_scheme \<Rightarrow> (bool \<times> 'a vmm_scheme) option" where
  "mm_map_range mm va sz flags s =
     (if mm = 0 \<or> sz = 0 then Some (False, s)
      else
        let start = ALIGN_DOWN va PAGE_SIZE;
            end_va = ALIGN_UP (va + sz) PAGE_SIZE;
            pages = (end_va - start) div PAGE_SIZE
        in case kmalloc sizeof_vma_struct s of
             None \<Rightarrow> None
           | Some (vma, s1) \<Rightarrow>
               if vma = 0 then Some (False, s1)
               else
                 let s2 = s1\<lparr>vmas := (vmas s1)(vma := \<lparr>vma_mm = mm, vm_start = start, vm_end = end_va, vm_flags = flags\<rparr>)\<rparr>;
                     s3 = set_mm mm (\<lambda>r. r\<lparr>map_count := map_count r + 1\<rparr>) (list_add_before vma (vma_list mm) s2)
                 in Some (map_range_loop (mm_pml4 (mms s3 mm)) vma start (pte_flags_of flags) pages 0 s3))"

subsection \<open>Copying an address space\<close>

text \<open>The body of the page loop: \<open>None\<close> for the failure that ends \<^verbatim>\<open>mm_copy\<close> (a present entry without a frame).\<close>

definition copy_page :: "u64 \<Rightarrow> u64 \<Rightarrow> u64 \<Rightarrow> 'a vmm_scheme \<Rightarrow> 'a vmm_scheme option" where
  "copy_page dst src vaddr s =
     (let src_pte = vmm_get_pte (mm_pml4 (mms s src)) vaddr s;
          dst_pte = vmm_get_pte (mm_pml4 (mms s dst)) vaddr s
      in if src_pte = 0 \<or> dst_pte = 0 \<or> read64 (kmem s) src_pte AND PTE_PRESENT = 0 then Some s
         else
           let src_pa = PTE_GET_ADDR (read64 (kmem s) src_pte);
               dst_pa = PTE_GET_ADDR (read64 (kmem s) dst_pte)
           in if dst_pa = 0 then None
              else
                let m = memcpy (kmem s) (dst_pa + HHDM_OFFSET s) (src_pa + HHDM_OFFSET s) PAGE_SIZE
                in Some (s\<lparr>kmem := write64 m dst_pte ((dst_pa AND 0x000FFFFFFFFFF000) OR (read64 m src_pte AND 0xFFF))\<rparr>))"

partial_function (option) copy_pages :: "u64 \<Rightarrow> u64 \<Rightarrow> u64 \<Rightarrow> u64 \<Rightarrow> 'a vmm_scheme \<Rightarrow> (bool \<times> 'a vmm_scheme) option" where
  "copy_pages dst src vaddr end_va s =
     (if vaddr < end_va
      then case copy_page dst src vaddr s of
             None \<Rightarrow> Some (False, s)
           | Some s1 \<Rightarrow> copy_pages dst src (vaddr + PAGE_SIZE) end_va s1
      else Some (True, s))"

partial_function (option) copy_vmas :: "u64 \<Rightarrow> u64 \<Rightarrow> u64 \<Rightarrow> 'a vmm_scheme \<Rightarrow> (bool \<times> 'a vmm_scheme) option" where
  "copy_vmas dst src node s =
     (if node = vma_list src then Some (True, s)
      else
        let v = vmas s node; next_node = l_next s node
        in Option.bind (mm_map_range dst (vm_start v) (vm_end v - vm_start v) (vm_flags v) s)
             (\<lambda>(ok, s1).
                if \<not> ok then Some (False, s1)
                else Option.bind (copy_pages dst src (vm_start (vmas s1 node)) (vm_end (vmas s1 node)) s1)
                  (\<lambda>(ok2, s2). if \<not> ok2 then Some (False, s2) else copy_vmas dst src next_node s2)))"

definition mm_copy :: "u64 \<Rightarrow> u64 \<Rightarrow> 'a vmm_scheme \<Rightarrow> (bool \<times> 'a vmm_scheme) option" where
  "mm_copy dst src s =
     (if dst = 0 \<or> src = 0 then Some (False, s)
      else Option.bind (copy_vmas dst src (l_next s (vma_list src)) s)
        (\<lambda>(ok, s1). if ok then Some (True, s1) else map_option (\<lambda>s2. (False, s2)) (mm_free dst s1)))"

subsection \<open>Mapping pages to fresh frames\<close>

text \<open>The loop the mapping of a range and of a stack have in common, over an allocator and a mapping operation.\<close>

fun map_fresh :: "('s \<Rightarrow> u64 \<times> 's) \<Rightarrow> (u64 \<Rightarrow> u64 \<Rightarrow> 's \<Rightarrow> 's) \<Rightarrow> u64 list \<Rightarrow> 's \<Rightarrow> bool \<times> 's" where
  "map_fresh alloc map_at [] s = (True, s)"
| "map_fresh alloc map_at (v # vs) s =
     (case alloc s of (pa, s1) \<Rightarrow> if pa = 0 then (False, s1) else map_fresh alloc map_at vs (map_at v pa s1))"

text \<open>
  What the loop relies on: the allocator hands out frames that are available and does not touch
  translations; mapping a page keeps the invariant, takes at most frames, changes no other page and,
  as long as frames are left, makes the page translate to the frame.
\<close>

locale frame_mapper =
  fixes inv :: "'s \<Rightarrow> bool"
    and alloc :: "'s \<Rightarrow> u64 \<times> 's"
    and map_at :: "u64 \<Rightarrow> u64 \<Rightarrow> 's \<Rightarrow> 's"
    and avail :: "'s \<Rightarrow> u64 set"
    and trans :: "'s \<Rightarrow> u64 \<Rightarrow> u64 option"
  assumes alloc_inv: "inv s \<Longrightarrow> inv (snd (alloc s))"
    and alloc_avail: "inv s \<Longrightarrow> fst (alloc s) \<noteq> 0 \<Longrightarrow>
      \<exists>f \<in> avail s. fst (alloc s) = pgidx2pa f \<and> avail (snd (alloc s)) = avail s - {f}"
    and alloc_fail: "inv s \<Longrightarrow> fst (alloc s) = 0 \<Longrightarrow> avail s = {} \<and> snd (alloc s) = s"
    and alloc_addr: "inv s \<Longrightarrow> fst (alloc s) AND PTE_ADDR_MASK = fst (alloc s)"
    and alloc_trans: "inv s \<Longrightarrow> trans (snd (alloc s)) va = trans s va"
    and map_inv: "inv s \<Longrightarrow> inv (map_at va pa s)"
    and map_avail: "inv s \<Longrightarrow> avail (map_at va pa s) \<subseteq> avail s"
    and map_other: "inv s \<Longrightarrow> \<not> same_page va va' \<Longrightarrow> trans (map_at va pa s) va' = trans s va'"
    and map_same: "inv s \<Longrightarrow> paged va \<Longrightarrow> pa AND PTE_ADDR_MASK = pa \<Longrightarrow> avail (map_at va pa s) \<noteq> {} \<Longrightarrow>
      trans (map_at va pa s) va = Some pa"
begin

lemma alloc_sub: "inv s \<Longrightarrow> avail (snd (alloc s)) \<subseteq> avail s"
  using alloc_avail [of s] alloc_fail [of s] by (cases "fst (alloc s) = 0") auto

text \<open>Whether or not it succeeds, the loop keeps the invariant and every other translation.\<close>

lemma map_fresh_keeps:
  assumes "inv s"
  shows "inv (snd (map_fresh alloc map_at vs s)) \<and> avail (snd (map_fresh alloc map_at vs s)) \<subseteq> avail s
    \<and> (\<forall>va. (\<forall>v \<in> set vs. \<not> same_page v va) \<longrightarrow> trans (snd (map_fresh alloc map_at vs s)) va = trans s va)"
  using assms
proof (induction vs arbitrary: s)
  case (Cons v vs)
  let ?s1 = "snd (alloc s)"
  let ?s2 = "map_at v (fst (alloc s)) ?s1"
  show ?case
  proof (cases "fst (alloc s) = 0")
    case True
    then show ?thesis using alloc_fail [OF Cons.prems] Cons.prems by (simp add: case_prod_unfold)
  next
    case False
    have i1: "inv ?s1" by (rule alloc_inv [OF Cons.prems])
    have "inv ?s2" "avail ?s2 \<subseteq> avail s"
      using map_inv [OF i1] map_avail [OF i1, of v "fst (alloc s)"] alloc_sub [OF Cons.prems] by blast+
    moreover have "trans ?s2 va = trans s va" if "\<not> same_page v va" for va
      using map_other [OF i1 that] alloc_trans [OF Cons.prems] by simp
    ultimately show ?thesis using Cons.IH [of ?s2] False by (auto simp: case_prod_unfold)
  qed
qed simp

lemma map_fresh_maps:
  assumes "inv s" and "\<forall>v \<in> set vs. paged v" and "distinct vs" and "\<forall>v \<in> set vs. \<forall>w \<in> set vs. same_page v w \<longrightarrow> v = w"
    and "fst (map_fresh alloc map_at vs s)" and "avail (snd (map_fresh alloc map_at vs s)) \<noteq> {}"
  shows "\<exists>f. inj_on f (set vs) \<and> (\<forall>v \<in> set vs. f v \<in> avail s - avail (snd (map_fresh alloc map_at vs s))
    \<and> trans (snd (map_fresh alloc map_at vs s)) v = Some (pgidx2pa (f v)))"
  using assms
proof (induction vs arbitrary: s)
  case (Cons v vs)
  let ?s1 = "snd (alloc s)"
  let ?s2 = "map_at v (fst (alloc s)) ?s1"
  let ?s' = "snd (map_fresh alloc map_at vs ?s2)"
  have nz: "fst (alloc s) \<noteq> 0" using Cons.prems(5) by (auto simp: case_prod_unfold)
  then have run: "map_fresh alloc map_at (v # vs) s = map_fresh alloc map_at vs ?s2" by (simp add: case_prod_unfold)
  obtain g where g: "g \<in> avail s" "fst (alloc s) = pgidx2pa g" "avail ?s1 = avail s - {g}"
    using alloc_avail [OF Cons.prems(1) nz] by blast
  have i1: "inv ?s1" by (rule alloc_inv [OF Cons.prems(1)])
  then have i2: "inv ?s2" "avail ?s2 \<subseteq> avail ?s1" using map_inv map_avail by blast+
  note kp = map_fresh_keeps [OF i2(1), of vs]
  obtain f where f: "inj_on f (set vs)" "\<forall>w \<in> set vs. f w \<in> avail ?s2 - avail ?s' \<and> trans ?s' w = Some (pgidx2pa (f w))"
    using Cons.IH [OF i2(1)] Cons.prems(2-6) unfolding run by auto
  have "avail ?s2 \<noteq> {}" using kp Cons.prems(6) unfolding run by auto
  then have "trans ?s2 v = Some (pgidx2pa g)"
    using map_same [OF i1 _ alloc_addr [OF Cons.prems(1)]] Cons.prems(2) g(2) by simp
  moreover have "\<forall>w \<in> set vs. \<not> same_page w v" using Cons.prems(3,4) by auto
  ultimately have tv: "trans ?s' v = Some (pgidx2pa g)" using kp by simp
  have gf: "\<forall>w \<in> set vs. f w \<noteq> g" using f(2) i2(2) g(3) by auto
  have "inj_on (f(v := g)) (set (v # vs))" using f(1) gf Cons.prems(3) by (auto simp: inj_on_def)
  moreover have "\<forall>w \<in> set (v # vs). (f(v := g)) w \<in> avail s - avail ?s' \<and> trans ?s' w = Some (pgidx2pa ((f(v := g)) w))"
    using f(2) tv g kp i2(2) Cons.prems(3) by auto
  ultimately show ?case unfolding run by blast
qed auto

end

text \<open>\<^verbatim>\<open>pmm_alloc_page\<close> and \<^verbatim>\<open>vmm_map_page\<close> on the tables at \<open>r\<close> meet the contract.\<close>

lemma pt_inv_alloc:
  assumes "pt_inv s r"
  shows "pt_inv (snd (pmm_alloc_page s)) r"
proof -
  have pi: "pmm_inv s" using assms by (simp add: pt_inv_def)
  have e: "pt_entry (snd (pmm_alloc_page s)) = pt_entry s" by (rule pt_entry_cong) simp_all
  have "free_frames (snd (pmm_alloc_page s)) \<subseteq> free_frames s"
    using pm.alloc_fresh(2) [OF pi] pm.alloc_zero_iff [OF pi] pm.alloc_none [OF pi] by (cases "free_frames s = {}") auto
  then show ?thesis
    using assms pmm_alloc_page_inv [OF pi] by (auto simp: pt_inv_def e hhdm_ok_def frame_ok_def)
qed

interpretation um: frame_mapper "\<lambda>s. pt_inv s r \<and> table_flags fl" pmm_alloc_page
  "\<lambda>va pa s. vmm_map_page (pa2kva s r) va pa fl s" free_frames "\<lambda>s. translate s r" for r fl
proof unfold_locales
  fix s :: "'a paging_scheme" and va va' pa
  assume i: "pt_inv s r \<and> table_flags fl"
  then have inv: "pt_inv s r" and fl: "table_flags fl" and pi: "pmm_inv s" by (simp_all add: pt_inv_def)
  show "pt_inv (snd (pmm_alloc_page s)) r \<and> table_flags fl" using pt_inv_alloc [OF inv] fl by simp
  show "fst (pmm_alloc_page s) \<noteq> 0 \<Longrightarrow> \<exists>f \<in> free_frames s. fst (pmm_alloc_page s) = pgidx2pa f
      \<and> free_frames (snd (pmm_alloc_page s)) = free_frames s - {f}"
    using pm.alloc_some [OF pi] pm.alloc_zero_iff [OF pi] by blast
  show "fst (pmm_alloc_page s) = 0 \<Longrightarrow> free_frames s = {} \<and> snd (pmm_alloc_page s) = s"
    using pm.alloc_zero_iff [OF pi] pm.alloc_none [OF pi] by simp
  show "fst (pmm_alloc_page s) AND PTE_ADDR_MASK = fst (pmm_alloc_page s)"
  proof (cases "fst (pmm_alloc_page s) = 0")
    case False
    then show ?thesis using frame_addr_mask alloc_frame(1) [OF pi] inv by (auto simp: pt_inv_def)
  qed simp
  show "translate (snd (pmm_alloc_page s)) r va = translate s r va"
    using pt_entry_cong [of "snd (pmm_alloc_page s)" s] by (simp add: translate_def va_pte_def)
  note sp = vmm_map_page_spec(1) [OF inv fl, where va = va and pa = pa]
  show "pt_inv (vmm_map_page (pa2kva s r) va pa fl s) r \<and> table_flags fl" using sp fl by (simp add: pt_next_def)
  show "free_frames (vmm_map_page (pa2kva s r) va pa fl s) \<subseteq> free_frames s" using sp by (simp add: pt_next_def)
  show "\<not> same_page va va' \<Longrightarrow> translate (vmm_map_page (pa2kva s r) va pa fl s) r va' = translate s r va'"
    using vmm_map_page_spec(3) [OF inv fl, where va = va and va' = va'] by (simp add: translate_def)
  show "paged va \<Longrightarrow> pa AND PTE_ADDR_MASK = pa \<Longrightarrow> free_frames (vmm_map_page (pa2kva s r) va pa fl s) \<noteq> {} \<Longrightarrow>
      translate (vmm_map_page (pa2kva s r) va pa fl s) r va = Some pa"
    using vmm_map_page_spec(2) [OF inv fl, where va = va and va' = va and pa = pa] va_pte_translate [of _ r va pa fl] fl
    by (simp add: table_flags_def same_page_def paged_def)
qed

text \<open>The range loop is that loop; when it fails it rolls back and frees the VMA.\<close>

definition range_pages :: "u64 \<Rightarrow> u64 \<Rightarrow> u64 \<Rightarrow> u64 list" where
  "range_pages start i n = map (\<lambda>k. start + (i + of_nat k) * PAGE_SIZE) [0..<unat (n - i)]"

lemma range_pages_step:
  assumes "i < n"
  shows "range_pages start i n = (start + i * PAGE_SIZE) # range_pages start (i + 1) n"
proof -
  have "unat (n - i) = Suc (unat (n - (i + 1)))"
    using assms unat_Suc_less [OF assms] inc_le [OF assms]
    by (simp add: unat_sub_le less_imp_le word_less_nat_alt Suc_diff_Suc)
  then show ?thesis by (simp add: range_pages_def upt_conv_Cons map_Suc_upt [symmetric] algebra_simps del: upt_Suc)
qed

lemma map_range_loop_fresh:
  assumes "i \<le> n" "pt_inv s r" "table_flags fl"
  shows "\<exists>k. map_range_loop (pa2kva s r) vma start fl n i s =
    (case map_fresh pmm_alloc_page (\<lambda>va pa s. vmm_map_page (pa2kva s r) va pa fl s) (range_pages start i n) s of
       (ok, s') \<Rightarrow> if ok then (True, s') else (False, kfree vma (rollback_loop (pa2kva s r) start k 0 s')))"
  using assms
proof (induction "unat (n - i)" arbitrary: i s)
  case 0
  then have "\<not> i < n" by (simp add: unat_eq_0)
  then show ?case using 0 by (auto simp: map_range_loop.simps range_pages_def unat_eq_0)
next
  case (Suc m)
  then have "i \<noteq> n" by auto
  with Suc.prems(1) have lt: "i < n" by simp
  have m: "m = unat (n - (i + 1))"
    using Suc.hyps(2) lt unat_Suc_less [OF lt] inc_le [OF lt] by (simp add: unat_sub_le less_imp_le word_less_nat_alt)
  let ?s1 = "snd (pmm_alloc_page s)"
  let ?s2 = "vmm_map_page (pa2kva s r) (start + i * PAGE_SIZE) (fst (pmm_alloc_page s)) fl ?s1"
  have k1: "pa2kva ?s1 r = pa2kva s r" by (simp add: pa2kva_def)
  have i1: "pt_inv ?s1 r" by (rule pt_inv_alloc [OF Suc.prems(2)])
  note nx = vmm_map_page_spec(1) [OF i1 Suc.prems(3), where va = "start + i * PAGE_SIZE" and pa = "fst (pmm_alloc_page s)", unfolded k1]
  have k2: "pa2kva ?s2 r = pa2kva s r" using nx k1 by (simp add: pt_next_def pa2kva_def)
  show ?case
  proof (cases "fst (pmm_alloc_page s) = 0")
    case True
    then show ?thesis using lt
      by (subst map_range_loop.simps) (auto simp: case_prod_unfold range_pages_step [OF lt])
  next
    case False
    then show ?thesis
      using Suc.hyps(1) [OF m inc_le [OF lt], of ?s2] nx Suc.prems(3) lt unfolding k2
      by (subst map_range_loop.simps) (auto simp: case_prod_unfold range_pages_step [OF lt] k1 pt_next_def)
  qed
qed

lemma range_page_unat:
  assumes "unat start + 4096 * unat n < 2 ^ 64" "k < unat n"
  shows "unat (start + (0 + of_nat k) * PAGE_SIZE) = unat start + 4096 * k"
proof -
  have k: "k < 2 ^ 52" using assms by simp
  then have "unat (of_nat k :: u64) = k" by (simp add: unat_of_nat)
  then have "unat (of_nat k * PAGE_SIZE) = k * 4096" using k by (simp add: unat_mult_no_overflow)
  then show ?thesis using assms by (simp add: unat_add_no_overflow)
qed

lemma range_pages_facts:
  assumes "paged start" "unat start + 4096 * unat n < 2 ^ 64" "4096 * unat n \<le> 2 ^ 48"
  shows "\<forall>v \<in> set (range_pages start 0 n). paged v" "distinct (range_pages start 0 n)"
    "\<forall>v \<in> set (range_pages start 0 n). \<forall>w \<in> set (range_pages start 0 n). same_page v w \<longrightarrow> v = w"
proof -
  have u: "unat (start + (0 + of_nat k) * PAGE_SIZE) = unat start + 4096 * k" if "k < unat n" for k
    using range_page_unat [OF assms(2) that] .
  have m: "v \<in> set (range_pages start 0 n) \<Longrightarrow> \<exists>k < unat n. v = start + (0 + of_nat k) * PAGE_SIZE" for v
    by (auto simp: range_pages_def)
  show pg: "\<forall>v \<in> set (range_pages start 0 n). paged v"
  proof
    fix v assume "v \<in> set (range_pages start 0 n)"
    then obtain k where k: "k < unat n" "v = start + (0 + of_nat k) * PAGE_SIZE" using m by blast
    show "paged v" using u [OF k(1)] assms(1) unfolding k(2) paged_unat by simp
  qed
  have "inj_on (\<lambda>k. start + (0 + of_nat k) * PAGE_SIZE) (set [0..<unat n])"
  proof (rule inj_onI)
    fix j k assume "j \<in> set [0..<unat n]" "k \<in> set [0..<unat n]" "start + (0 + of_nat j) * PAGE_SIZE = start + (0 + of_nat k) * PAGE_SIZE"
    then show "j = k" using u [of j] u [of k] by simp
  qed
  then show "distinct (range_pages start 0 n)" by (simp add: range_pages_def distinct_map)
  show "\<forall>v \<in> set (range_pages start 0 n). \<forall>w \<in> set (range_pages start 0 n). same_page v w \<longrightarrow> v = w"
  proof (intro ballI impI)
    fix v w assume vw: "v \<in> set (range_pages start 0 n)" "w \<in> set (range_pages start 0 n)" and sp: "same_page v w"
    obtain j k where j: "j < unat n" "unat v = unat start + 4096 * j" and k: "k < unat n" "unat w = unat start + 4096 * k"
      using m [OF vw(1)] m [OF vw(2)] u by metis
    have "unat v < unat w + 2 ^ 48" "unat w < unat v + 2 ^ 48" using j k assms(3) by linarith+
    then show "v = w"
      using same_page_unat [of v w] same_page_unat [of w v] sp pg vw by (cases "unat v \<le> unat w") (auto simp: same_page_def)
  qed
qed

lemma translate_same_page:
  assumes "same_page p a" "paged p" "translate s r p = Some pa" "pa AND 0xFFF = 0"
  shows "translate s r a = Some (pa OR (a AND 0xFFF))"
proof -
  have "va_pte s r a = va_pte s r p" using assms(1) unfolding same_page_path by (simp add: va_pte_def)
  then show ?thesis using assms(2,3) by (simp add: translate_def paged_def Let_def split: if_splits)
qed

lemma same_page_ALIGN_DOWN: "same_page (ALIGN_DOWN a PAGE_SIZE) a"
  unfolding same_page_bits ALIGN_DOWN_def page_mask by (simp add: bit_simps)

text \<open>The addresses of a requested range lie on the pages that are mapped.\<close>

lemma range_covered:
  assumes "unat va + unat sz + 4095 < 2 ^ 64" "va \<le> a" "unat a < unat va + unat sz"
  defines "start \<equiv> ALIGN_DOWN va PAGE_SIZE" and "end_va \<equiv> ALIGN_UP (va + sz) PAGE_SIZE"
  defines "n \<equiv> (end_va - start) div PAGE_SIZE"
  shows "ALIGN_DOWN a PAGE_SIZE \<in> set (range_pages start 0 n)"
    and "unat start + 4096 * unat n < 2 ^ 64" and "4096 * unat n \<le> unat sz + 8190"
proof -
  have us: "unat start = unat va div 4096 * 4096" unfolding start_def unat_ALIGN_DOWN_page by (simp add: minus_mod_eq_div_mult)
  have uv: "unat (va + sz) = unat va + unat sz" using assms(1) by (simp add: unat_add_no_overflow)
  have ue: "unat end_va = (unat va + unat sz + 4095) div 4096 * 4096"
    using unat_ALIGN_UP_page [of "va + sz"] assms(1) uv by (simp add: end_va_def minus_mod_eq_div_mult)
  have ua: "unat (ALIGN_DOWN a PAGE_SIZE) = unat a div 4096 * 4096"
    unfolding unat_ALIGN_DOWN_page by (simp add: minus_mod_eq_div_mult)
  have le: "unat va div 4096 \<le> (unat va + unat sz + 4095) div 4096" by (intro div_le_mono) simp
  have un: "unat n = (unat va + unat sz + 4095) div 4096 - unat va div 4096"
    using le by (simp add: n_def unat_div unat_sub_le word_le_nat_alt us ue diff_mult_distrib [symmetric])
  have "unat end_va < 2 ^ 64" using unat_lt_2p64 by simp
  then show no: "unat start + 4096 * unat n < 2 ^ 64" using le by (simp add: us ue un algebra_simps)
  show "4096 * unat n \<le> unat sz + 8190" using us un by linarith
  define k where "k = unat a div 4096 - unat va div 4096"
  have "unat va div 4096 \<le> unat a div 4096" using assms(2) by (intro div_le_mono) (simp add: word_le_nat_alt)
  moreover have "unat a div 4096 < (unat va + unat sz + 4095) div 4096" using assms(3) by linarith
  ultimately have k: "k < unat n" "unat a div 4096 = unat va div 4096 + k" unfolding k_def un by linarith+
  have "unat (start + (0 + of_nat k) * PAGE_SIZE) = unat (ALIGN_DOWN a PAGE_SIZE)"
    using range_page_unat [OF no k(1)] k(2) by (simp add: us ua algebra_simps)
  then have "ALIGN_DOWN a PAGE_SIZE = start + (0 + of_nat k) * PAGE_SIZE" by (simp add: word_unat_eq_iff)
  then show "ALIGN_DOWN a PAGE_SIZE \<in> set (range_pages start 0 n)" using k(1) by (auto simp: range_pages_def)
qed

lemma take_block_pages: "pages_same s (take_block x sz s)"
  unfolding take_block_def Let_def
  by (simp add: pages_same_def list_add_after_def list_add_between_def Let_def)

lemma take_block_mms: "mms (take_block x sz s) = mms s" "vmas (take_block x sz s) = vmas s"
  by (simp_all add: take_block_def list_add_after_def list_add_between_def Let_def)

lemma mm_map_range_spec:
  assumes inv: "pt_inv s r" and root: "mm_pml4 (mms s mm) = pa2kva s r" and mm: "mm \<noteq> 0" and sz: "sz \<noteq> 0"
    and nw: "unat va + unat sz + 4095 < 2 ^ 64" "unat sz + 8190 \<le> 2 ^ 48"
    and heap: "heap_inv s xs" "find (\<lambda>x. hb_free s x \<and> hb_size s x \<ge> ALIGN_UP sizeof_vma_struct 8) xs \<noteq> None"
  defines "pgs \<equiv> range_pages (ALIGN_DOWN va PAGE_SIZE) 0 ((ALIGN_UP (va + sz) PAGE_SIZE - ALIGN_DOWN va PAGE_SIZE) div PAGE_SIZE)"
  shows "\<exists>ok s'. mm_map_range mm va sz flags s = Some (ok, s') \<and> (ok \<longrightarrow> pt_inv s' r \<and> free_frames s' \<subseteq> free_frames s
    \<and> (\<forall>a. (\<forall>v \<in> set pgs. \<not> same_page v a) \<longrightarrow> translate s' r a = translate s r a)
    \<and> (free_frames s' \<noteq> {} \<longrightarrow> (\<exists>f. inj_on f (set pgs) \<and> (\<forall>v \<in> set pgs. f v \<in> free_frames s - free_frames s'
         \<and> translate s' r v = Some (pgidx2pa (f v))))))"
proof -
  let ?start = "ALIGN_DOWN va PAGE_SIZE" and ?stop = "ALIGN_UP (va + sz) PAGE_SIZE"
  let ?n = "(?stop - ?start) div PAGE_SIZE"
  obtain x where x: "find (\<lambda>x. hb_free s x \<and> hb_size s x \<ge> ALIGN_UP sizeof_vma_struct 8) xs = Some x" using heap(2) by auto
  define s1 where "s1 = take_block x (ALIGN_UP sizeof_vma_struct 8) s"
  have km: "kmalloc sizeof_vma_struct s = Some (x + HEADER_SIZE, s1)" unfolding s1_def by (rule kmalloc_fits [OF heap(1) x])
  have xin: "x \<in> set xs" using x by (auto simp: find_Some_iff)
  have vz: "x + HEADER_SIZE \<noteq> 0"
    using heap_block(6) [OF heap(1) xin] by (metis add_is_0 unat_0 zero_neq_numeral)
  let ?vma = "x + HEADER_SIZE"
  define s3 where "s3 = set_mm mm (\<lambda>r. r\<lparr>map_count := map_count r + 1\<rparr>) (list_add_before ?vma (vma_list mm)
      (s1\<lparr>vmas := (vmas s1)(?vma := \<lparr>vma_mm = mm, vm_start = ?start, vm_end = ?stop, vm_flags = flags\<rparr>)\<rparr>))"
  have same: "pages_same s s3"
    using take_block_pages [of s x "ALIGN_UP sizeof_vma_struct 8"]
    by (simp add: pages_same_def s3_def s1_def set_mm_def list_add_before_def list_add_between_def Let_def)
  note vw = pages_same_views [OF same]
  have p3: "mm_pml4 (mms s3 mm) = pa2kva s3 r"
    using root vw(3) by (simp add: s3_def set_mm_def list_add_before_def list_add_between_def Let_def s1_def take_block_mms)
  have run: "mm_map_range mm va sz flags s = Some (map_range_loop (pa2kva s3 r) ?vma ?start (pte_flags_of flags) ?n 0 s3)"
    using mm sz vz p3 unfolding mm_map_range_def km Let_def s3_def [symmetric] by (simp add: s3_def)
  have fl: "table_flags (pte_flags_of flags)" by (simp add: table_flags_def pte_flags_of_def)
  have inv3: "pt_inv s3 r" using inv vw(4) by simp
  let ?m = "map_fresh pmm_alloc_page (\<lambda>va pa s. vmm_map_page (pa2kva s r) va pa (pte_flags_of flags) s) pgs s3"
  obtain k where lp: "map_range_loop (pa2kva s3 r) ?vma ?start (pte_flags_of flags) ?n 0 s3 =
      (case ?m of (ok, s') \<Rightarrow> if ok then (True, s') else (False, kfree ?vma (rollback_loop (pa2kva s3 r) ?start k 0 s')))"
    using map_range_loop_fresh [OF _ inv3 fl, of 0 ?n ?vma ?start] unfolding pgs_def by auto
  show ?thesis
  proof (cases "fst ?m")
    case False
    then show ?thesis using run lp by (auto simp: case_prod_unfold)
  next
    case True
    have res: "mm_map_range mm va sz flags s = Some (True, snd ?m)" using run lp True by (simp add: case_prod_unfold)
    have i: "pt_inv s3 r \<and> table_flags (pte_flags_of flags)" using inv3 fl by simp
    note kp = um.map_fresh_keeps [OF i, of pgs]
    have cov: "unat ?start + 4096 * unat ?n < 2 ^ 64" "4096 * unat ?n \<le> unat sz + 8190"
      using range_covered(2,3) [OF nw(1), of va] sz by (simp_all add: unat_gt_0)
    have pf: "\<forall>v \<in> set pgs. paged v" "distinct pgs" "\<forall>v \<in> set pgs. \<forall>w \<in> set pgs. same_page v w \<longrightarrow> v = w"
      using range_pages_facts [OF paged_ALIGN(2) cov(1)] cov(2) nw(2) unfolding pgs_def by auto
    note mp = um.map_fresh_maps [OF i pf True]
    show ?thesis unfolding res using kp mp vw(1,5) by auto
  qed
qed

subsection \<open>A new address space\<close>

lemma copy_kernel_half_spec:
  assumes "paged dst" "paged src" "dst \<noteq> src"
  shows "j < 512 \<Longrightarrow> read64 (copy_kernel_half dst src i m) (dst + 8 * j) =
      (if i \<le> j then read64 m (src + 8 * j) else read64 m (dst + 8 * j))"
    and "paged t \<Longrightarrow> t \<noteq> dst \<Longrightarrow> j < 512 \<Longrightarrow> read64 (copy_kernel_half dst src i m) (t + 8 * j) = read64 m (t + 8 * j)"
proof -
  have "(j < 512 \<longrightarrow> read64 (copy_kernel_half dst src i m) (dst + 8 * j) =
      (if i \<le> j then read64 m (src + 8 * j) else read64 m (dst + 8 * j)))
    \<and> (paged t \<longrightarrow> t \<noteq> dst \<longrightarrow> j < 512 \<longrightarrow> read64 (copy_kernel_half dst src i m) (t + 8 * j) = read64 m (t + 8 * j))"
    using assms
  proof (induction dst src i m rule: copy_kernel_half.induct)
    case (1 dst src i m)
    show ?case
    proof (cases "i < 512")
      case False
      then have "j < 512 \<Longrightarrow> \<not> i \<le> j" by auto
      then show ?thesis using False by (simp add: copy_kernel_half.simps)
    next
      case True
      let ?m = "write64 m (dst + 8 * i) (read64 m (src + 8 * i))"
      have run: "copy_kernel_half dst src i m = copy_kernel_half dst src (i + 1) ?m"
        using True by (subst copy_kernel_half.simps) simp
      have w: "read64 ?m (u + 8 * k) = read64 m (u + 8 * k)" if "paged u" "k < 512" "\<not> (dst = u \<and> i = k)" for u k
        using read64_write64_entry [OF "1.prems"(1) that(1) True that(2,3)] .
      have st: "i \<le> j \<longleftrightarrow> i = j \<or> i + 1 \<le> j" using word_le_step [OF True, of j] by auto
      have "\<not> i + 1 \<le> i"
      proof
        assume "i + 1 \<le> i"
        then show False using unat_Suc_less [OF True] by (simp add: word_le_nat_alt)
      qed
      then show ?thesis
        using "1.IH" [OF True "1.prems"] w [of src j] w [of dst j] w [of t j] "1.prems" st unfolding run by auto
    qed
  qed
  then show "j < 512 \<Longrightarrow> read64 (copy_kernel_half dst src i m) (dst + 8 * j) =
      (if i \<le> j then read64 m (src + 8 * j) else read64 m (dst + 8 * j))"
    "paged t \<Longrightarrow> t \<noteq> dst \<Longrightarrow> j < 512 \<Longrightarrow> read64 (copy_kernel_half dst src i m) (t + 8 * j) = read64 m (t + 8 * j)" by blast+
qed

text \<open>A top-level table that shares the upper half of another one and is empty below.\<close>

lemma walk_shared:
  assumes sh: "\<And>i. i < 512 \<Longrightarrow> E p i = (if i < 256 then 0 else E r i)" and q: "tpath (i # q)"
  shows "walk E p (i # q) = (if i < 256 then None else walk E r (i # q))"
  using sh [of i] q by (simp add: tpath_def)

lemma tree_shared:
  assumes sh: "\<And>i. i < 512 \<Longrightarrow> E p i = (if i < 256 then 0 else E r i)" and tr: "tree E r" and p: "p \<notin> tables E r"
  shows "tree E p" "tables E p \<subseteq> insert p (tables E r)"
proof -
  have w: "walk E p q = Some x \<Longrightarrow> q = [] \<and> x = p \<or> q \<noteq> [] \<and> walk E r q = Some x" if "tpath q" for q x
    using walk_shared [of E p r] sh that by (cases q) (auto split: if_splits)
  show "tables E p \<subseteq> insert p (tables E r)" unfolding tables_def using w by blast
  show "tree E p" unfolding tree_def
  proof (intro allI impI)
    fix q q' assume t: "tpath q" "tpath q'" and n: "walk E p q \<noteq> None" "walk E p q = walk E p q'"
    then obtain x where x: "walk E p q = Some x" "walk E p q' = Some x" by auto
    from w [OF t(1) x(1)] w [OF t(2) x(2)] show "q = q'"
      using treeD [OF tr t] tablesI [OF t(1)] tablesI [OF t(2)] p by blast
  qed
qed

lemma va_pte_shared:
  assumes "\<And>i. i < 512 \<Longrightarrow> pt_entry s p i = (if i < 256 then 0 else pt_entry s r i)"
  shows "va_pte s p va = (if PML4_IDX va < 256 then 0 else va_pte s r va)"
  using walk_shared [OF assms va_path_tpath(1)] by (simp add: va_pte_def pte_at_def)

lemma walk_agree:
  assumes "\<And>x j. x \<in> tables E r \<Longrightarrow> j < 512 \<Longrightarrow> E' x j = E x j" "tpath q"
  shows "walk E' r q = walk E r q"
  using assms(2)
proof (induction q rule: rev_induct)
  case (snoc j q)
  note tq = tpath_snocD [OF snoc.prems]
  have "E' x j = E x j" if "walk E r q = Some x" for x using assms(1) tablesI [OF tq(1) that] tq(2) by blast
  then show ?case using snoc.IH [OF tq(1)] by (auto simp: walk_snoc split: option.split)
qed simp

text \<open>Memory that agrees on the tables of \<open>r\<close> holds the same page tables.\<close>

lemma pt_inv_agree:
  assumes inv: "pt_inv s r" and ag: "\<And>x j. x \<in> tables (pt_entry s) r \<Longrightarrow> j < 512 \<Longrightarrow> pt_entry s' x j = pt_entry s x j"
    and pi: "pmm_inv s'" and fr: "free_frames s' \<subseteq> free_frames s" and h: "HHDM_OFFSET s' = HHDM_OFFSET s" "total_pages s' = total_pages s"
  shows "pt_inv s' r" "va_pte s' r va = va_pte s r va" "tables (pt_entry s') r = tables (pt_entry s) r"
proof -
  have w: "walk (pt_entry s') r q = walk (pt_entry s) r q" if "tpath q" for q
    using ag that by (rule walk_agree)
  show tb: "tables (pt_entry s') r = tables (pt_entry s) r" using w by (auto simp: tables_def)
  have "tree (pt_entry s) r" using inv by (simp add: pt_inv_def)
  then have "tree (pt_entry s') r" unfolding tree_def by (metis w)
  then show "pt_inv s' r" using inv pi fr h tb by (auto simp: pt_inv_def hhdm_ok_def frame_ok_def)
  show "va_pte s' r va = va_pte s r va"
  proof (cases "walk (pt_entry s) r (va_path va)")
    case None
    then show ?thesis using w [OF va_path_tpath(1)] by (simp only: va_pte_def pte_at_def option.case)
  next
    case (Some t)
    then show ?thesis using w [OF va_path_tpath(1)] ag [OF tablesI [OF va_path_tpath(1) Some] index_bounds(4)]
      by (simp only: va_pte_def pte_at_def option.case)
  qed
qed

lemma list_init_vmm: "pages_same s (list_init h s)" "mms (list_init h s) = mms s" "dll (list_init h s) h []"
  by (simp_all add: pages_same_def list_init_def list_init_dll) (rule list_init_dll [unfolded list_init_def])

lemma mm_alloc_spec:
  assumes km: "kmalloc sizeof_mm_struct s = Some (mm, s1)" "mm \<noteq> 0"
    and k: "kernel_ok s1 r" and ne: "free_frames s1 \<noteq> {}"
  shows "\<exists>s' p. mm_alloc s = Some (mm, s') \<and> mm_pml4_pa (mms s' mm) = p \<and> mm_pml4 (mms s' mm) = pa2kva s' p
    \<and> pa2pgidx p \<in> free_frames s1 - free_frames s' \<and> dll s' (vma_list mm) [] \<and> map_count (mms s' mm) = 0
    \<and> pt_inv s' p \<and> kernel_ok s' r
    \<and> (\<forall>va. translate s' p va = (if PML4_IDX va < 256 then None else translate s1 r va) \<and> translate s' r va = translate s1 r va)"
proof -
  define s2 where "s2 = s1\<lparr>mms := (mms s1)(mm := zero_mm), l_next := (l_next s1)(vma_list mm := 0), l_prev := (l_prev s1)(vma_list mm := 0)\<rparr>"
  have same2: "pages_same s1 s2" by (simp add: pages_same_def s2_def)
  note vw2 = pages_same_views [OF same2]
  have inv2: "pt_inv s2 r" and k2: "kernel_pml4 s2 = pa2kva s2 r"
    using k kernel_ok_same [OF same2, of r] unfolding kernel_ok_def by blast+
  have pi: "pmm_inv s2" and h: "hhdm_ok s2" using inv2 by (simp_all add: pt_inv_def)
  define p where "p = fst (pmm_alloc_page s2)"
  define s3 where "s3 = snd (pmm_alloc_page s2)"
  have p0: "p \<noteq> 0" using pm.alloc_zero_iff [OF pi] ne vw2(1) by (simp add: p_def)
  note fr = alloc_frame [OF pi p0 [unfolded p_def], folded p_def]
  have inv3: "pt_inv s3 r" unfolding s3_def by (rule pt_inv_alloc [OF inv2])
  have f3: "free_frames s3 = free_frames s2 - {pa2pgidx p}" using pm.alloc_fresh(2) [OF pi p0 [unfolded p_def]] by (simp add: s3_def p_def)
  have fld3: "kmem s3 = kmem s2" "HHDM_OFFSET s3 = HHDM_OFFSET s2" "kernel_pml4 s3 = kernel_pml4 s2" "total_pages s3 = total_pages s2"
    by (simp_all add: s3_def)
  have ok3: "frame_ok s3 p" "hhdm_ok s3" using fr(1) h fld3 by (simp_all add: frame_ok_def hhdm_ok_def)
  have rT: "r \<in> tables (pt_entry s3) r" using tablesI [OF va_path_tpath(2)] by simp
  have okr: "frame_ok s3 x" "x \<noteq> p" if "x \<in> tables (pt_entry s3) r" for x
  proof -
    have "x \<in> tables (pt_entry s2) r" using that pt_entry_cong [OF fld3(1,2)] by simp
    then have "pa2pgidx x \<notin> free_frames s2" using inv2 by (simp add: pt_inv_def)
    then show "x \<noteq> p" using fr(2) by auto
    show "frame_ok s3 x" using inv3 that by (simp add: pt_inv_def)
  qed
  have kk: "kernel_pml4 s3 = pa2kva s3 r" using k2 fld3 by (simp add: pa2kva_def)
  note pgp = frame_kva(2) [OF ok3(2,1)]
  have pgx: "paged (pa2kva s3 x)" if "x \<in> tables (pt_entry s3) r" for x using frame_kva(2) [OF ok3(2) okr(1) [OF that]] .
  define m where "m = copy_kernel_half (pa2kva s3 p) (pa2kva s3 r) 256 (memset (kmem s3) (pa2kva s3 p) 0 PAGE_SIZE)"
  have ne: "pa2kva s3 p \<noteq> pa2kva s3 r" using okr(2) [OF rT] by auto
  have mp: "read64 m (pa2kva s3 p + 8 * j) = (if j < 256 then 0 else read64 (kmem s3) (pa2kva s3 r + 8 * j))" if "j < 512" for j
    unfolding m_def copy_kernel_half_spec(1) [OF pgp pgx [OF rT] ne that]
    using that ne by (simp add: read64_memset_same read64_memset_other pgp pgx [OF rT] not_le leD)
  have mx: "read64 m (pa2kva s3 x + 8 * j) = read64 (kmem s3) (pa2kva s3 x + 8 * j)" if "x \<in> tables (pt_entry s3) r" "j < 512" for x j
  proof -
    have "pa2kva s3 x \<noteq> pa2kva s3 p" using okr(2) [OF that(1)] by simp
    then show ?thesis unfolding m_def
      using copy_kernel_half_spec(2) [OF pgp pgx [OF rT] ne pgx [OF that(1)] _ that(2)] that
      by (simp add: read64_memset_other pgp pgx)
  qed
  let ?s4 = "set_mm mm (\<lambda>r. r\<lparr>mm_pml4_pa := p, mm_pml4 := p + HHDM_OFFSET s3\<rparr>) s3"
  define s' where "s' = set_mm mm (\<lambda>r. zero_mm\<lparr>mm_pml4 := mm_pml4 r, mm_pml4_pa := mm_pml4_pa r\<rparr>) (list_init (vma_list mm) (?s4\<lparr>kmem := m\<rparr>))"
  have run: "mm_alloc s = Some (mm, s')"
    using km p0 kk unfolding mm_alloc_def s'_def m_def
    by (simp add: s2_def [symmetric] case_prod_unfold p_def [symmetric] s3_def [symmetric] pa2kva_def set_mm_def Let_def)
  have fld: "kmem s' = m" "HHDM_OFFSET s' = HHDM_OFFSET s3" "kernel_pml4 s' = kernel_pml4 s3" "total_pages s' = total_pages s3"
      "bitmap s' = bitmap s3" "free_pages s' = free_pages s3" "last_free_index s' = last_free_index s3"
    by (simp_all add: s'_def set_mm_def list_init_def)
  have mmf: "mm_pml4_pa (mms s' mm) = p" "mm_pml4 (mms s' mm) = pa2kva s' p" "map_count (mms s' mm) = 0"
    by (simp_all add: s'_def set_mm_def list_init_def zero_mm_def pa2kva_def)
  have dl: "dll s' (vma_list mm) []" unfolding s'_def set_mm_def by (simp add: dll_def list_init_def)
  have ff: "free_frames s' = free_frames s3" using fld by (simp add: free_frames_def bit_test_def)
  have pi': "pmm_inv s'" using inv3 fld ff by (simp add: pt_inv_def pmm_inv_def)
  have kva: "pa2kva s' = pa2kva s3" using fld by (simp add: pa2kva_def fun_eq_iff)
  have ag: "pt_entry s' x j = pt_entry s3 x j" if "x \<in> tables (pt_entry s3) r" "j < 512" for x j
    using mx [OF that] fld kva by (simp add: pt_entry_def)
  have invr: "pt_inv s' r" "\<And>va. va_pte s' r va = va_pte s3 r va" "tables (pt_entry s') r = tables (pt_entry s3) r"
    using pt_inv_agree [OF inv3 ag pi'] ff fld by simp_all
  have sh: "pt_entry s' p i = (if i < 256 then 0 else pt_entry s' r i)" if "i < 512" for i
    using mp [OF that] mx [OF rT that] fld kva by (simp add: pt_entry_def)
  have "p \<notin> tables (pt_entry s') r" "tree (pt_entry s') r" using okr(2) invr(1,3) by (auto simp: pt_inv_def)
  then have "tree (pt_entry s') p" "tables (pt_entry s') p \<subseteq> insert p (tables (pt_entry s') r)"
    using tree_shared [of "pt_entry s'" p r] sh by blast+
  then have invp: "pt_inv s' p"
    using invr(1) ok3(1) f3 ff fld(4) by (auto simp: pt_inv_def frame_ok_def)
  have tr: "translate s' p va = (if PML4_IDX va < 256 then None else translate s1 r va) \<and> translate s' r va = translate s1 r va" for va
  proof -
    have "va_pte s3 r va = va_pte s2 r va" using pt_entry_cong [OF fld3(1,2)] by (simp add: va_pte_def)
    then have "translate s' r va = translate s1 r va" using invr(2) [of va] vw2(5) [of r va] by (simp add: translate_def)
    moreover have "translate s' p va = (if PML4_IDX va < 256 then None else translate s' r va)"
      using va_pte_shared [of s' p r va] sh by (simp add: translate_def)
    ultimately show ?thesis by simp
  qed
  have "kernel_ok s' r" using invr(1) kk fld kva by (simp add: kernel_ok_def)
  moreover have "pa2pgidx p \<in> free_frames s1 - free_frames s'" using fr(2) f3 ff vw2(1) by simp
  ultimately show ?thesis using run mmf dl invp tr by blast
qed

subsection \<open>An example\<close>

definition example_vmm :: vmm where
  "example_vmm = kheap.extend example_kheap
     \<lparr>mms = (\<lambda>_. zero_mm)(0xFFFF900000000020 := zero_mm\<lparr>mm_pml4 := 0xFFFF800000001000, mm_pml4_pa := 0x1000\<rparr>),
      vmas = (\<lambda>_. \<lparr>vma_mm = 0, vm_start = 0, vm_end = 0, vm_flags = 0\<rparr>)\<rparr>"

lemma example_vmm_same:
  "pages_same example_kheap example_vmm" "heap_inv example_vmm [0xFFFF900000000000, 0xFFFF900000000060]"
  "hb_free example_vmm = hb_free example_kheap" "hb_size example_vmm = hb_size example_kheap"
  "mms example_vmm 0xFFFF900000000020 = zero_mm\<lparr>mm_pml4 := 0xFFFF800000001000, mm_pml4_pa := 0x1000\<rparr>"
proof -
  show "pages_same example_kheap example_vmm"
    by (simp add: pages_same_def) (simp add: example_vmm_def example_kheap_def kheap.extend_def paging.extend_def)
  have "l_next example_vmm = l_next example_kheap" "l_prev example_vmm = l_prev example_kheap"
    "kheap_list example_vmm = kheap_list example_kheap" "kheap_top example_vmm = kheap_top example_kheap"
    and hs: "hb_size example_vmm = hb_size example_kheap"
    by (simp_all add: example_vmm_def example_kheap_def kheap.extend_def paging.extend_def)
  then show "heap_inv example_vmm [0xFFFF900000000000, 0xFFFF900000000060]"
    using heap_inv_cong [of example_vmm example_kheap] example_heap_inv by simp
  show "hb_size example_vmm = hb_size example_kheap" by (rule hs)
qed (simp_all add: example_vmm_def example_kheap_def kheap.extend_def paging.extend_def)

lemma example_vmm_kernel: "kernel_ok example_vmm 0x1000" "free_frames example_vmm \<noteq> {}"
  "pa2kva example_vmm 0x1000 = 0xFFFF800000001000" "pt_inv example_vmm 0x1000"
proof -
  show k: "kernel_ok example_vmm 0x1000" using kernel_ok_same [OF example_vmm_same(1)] example_kernel_ok by blast
  then show "pt_inv example_vmm 0x1000" by (simp add: kernel_ok_def)
  have "card (free_frames example_vmm) = 14"
    using pages_same_views(1) [OF example_vmm_same(1)] example_kheap_frames by simp
  then show "free_frames example_vmm \<noteq> {}" by auto
  show "pa2kva example_vmm 0x1000 = 0xFFFF800000001000"
    using pages_same_views(3) [OF example_vmm_same(1)] by (simp add: pa2kva_def example_kheap_fields)
qed

lemma example_vmm_fit:
  "find (\<lambda>x. hb_free example_vmm x \<and> hb_size example_vmm x \<ge> ALIGN_UP n 8) [0xFFFF900000000000, 0xFFFF900000000060] = Some 0xFFFF900000000060"
  if "n \<in> {48, 104}"
proof -
  have "ALIGN_UP 48 8 = 48" "ALIGN_UP 104 8 = 104" by code_simp+
  then show ?thesis using that by (auto simp: example_vmm_same example_kheap_fields)
qed

subsection \<open>Properties\<close>



text \<open>
  C28: a successful \<^verbatim>\<open>mm_alloc\<close> makes an address space with an empty VMA list whose top-level table, in a
  frame that was free, is well formed, translates no address of the lower half and every address of
  the upper half like the kernel's table; the kernel's own translations do not change.
\<close>

theorem mm_alloc_shares_kernel_half:
  assumes "kmalloc sizeof_mm_struct s = Some (mm, s1)" "mm \<noteq> 0" "kernel_ok s1 r" "free_frames s1 \<noteq> {}"
  shows "\<exists>s' p. mm_alloc s = Some (mm, s') \<and> mm_pml4_pa (mms s' mm) = p \<and> mm_pml4 (mms s' mm) = pa2kva s' p
    \<and> pa2pgidx p \<in> free_frames s1 - free_frames s' \<and> dll s' (vma_list mm) [] \<and> map_count (mms s' mm) = 0
    \<and> pt_inv s' p \<and> kernel_ok s' r
    \<and> (\<forall>va. translate s' p va = (if PML4_IDX va < 256 then None else translate s1 r va) \<and> translate s' r va = translate s1 r va)"
  by (rule mm_alloc_spec [OF assms])

theorem mm_alloc_shares_kernel_half_witness:
  "\<exists>s' p. mm_alloc example_vmm = Some (0xFFFF900000000080, s') \<and> pt_inv s' p"
proof -
  have "kmalloc sizeof_mm_struct example_vmm = Some (0xFFFF900000000080, take_block 0xFFFF900000000060 (ALIGN_UP 104 8) example_vmm)"
    using kmalloc_fits [OF example_vmm_same(2) example_vmm_fit] by simp
  moreover have same: "pages_same example_vmm (take_block 0xFFFF900000000060 (ALIGN_UP 104 8) example_vmm)" by (rule take_block_pages)
  moreover have "kernel_ok (take_block 0xFFFF900000000060 (ALIGN_UP 104 8) example_vmm) 0x1000"
    using kernel_ok_same [OF same] example_vmm_kernel(1) by blast
  ultimately show ?thesis
    using mm_alloc_shares_kernel_half [of example_vmm "0xFFFF900000000080"] pages_same_views(1) [OF same] example_vmm_kernel(2) by fastforce
qed

end
