(* ===== verification/Sched.thy ===== *)
theory Sched
  imports Vmm
begin

text \<open>
  Process control blocks, the round-robin scheduler and the clock: the data of \<^verbatim>\<open>proc/proc.h\<close> and
  \<^verbatim>\<open>arch/trap.h\<close>, \<^verbatim>\<open>proc/sche.c\<close> with the register switch it ends in, \<^verbatim>\<open>arch/timer.c\<close> and
  \<^verbatim>\<open>kthread_exit\<close>. A PCB, a saved context and a trap frame are records held at their addresses; the two
  list nodes of a PCB are nodes of the link memory at the PCB's address plus the field's offset, and
  its name lies in byte memory. The processor is the callee-saved registers with the return address
  of the running code (\<open>regs\<close>), its stack pointer, the interrupt flag and \<^verbatim>\<open>tss.rsp0\<close>. An operation
  that does not come back (an endless loop, a page fault on a \<^verbatim>\<open>NULL\<close> pointer) has the value \<open>None\<close>.
\<close>

subsection \<open>Data\<close>

record context_t =
  c_r15 :: u64
  c_r14 :: u64
  c_r13 :: u64
  c_r12 :: u64
  c_rbx :: u64
  c_rbp :: u64
  c_rdi :: u64
  c_rip :: u64

record trap_frame =
  tf_r15 :: u64
  tf_r14 :: u64
  tf_r13 :: u64
  tf_r12 :: u64
  tf_r11 :: u64
  tf_r10 :: u64
  tf_r9 :: u64
  tf_r8 :: u64
  tf_rbp :: u64
  tf_rdi :: u64
  tf_rsi :: u64
  tf_rdx :: u64
  tf_rcx :: u64
  tf_rbx :: u64
  tf_rax :: u64
  int_no :: u64
  err_code :: u64
  tf_rip :: u64
  tf_cs :: u64
  tf_rflags :: u64
  tf_rsp :: u64
  tf_ss :: u64

datatype proc_state = PROC_RUNNING | PROC_READY | PROC_BLOCKED | PROC_ZOMBIE

text \<open>
  An entry of \<^verbatim>\<open>fd_table\<close> is \<^verbatim>\<open>NULL\<close> or points into the system's table of open files; it is the index there.
\<close>

record pcb =
  pcb_rsp :: u64
  kstack_base :: u64
  pcb_context :: u64
  pcb_trap_frame :: u64
  pcb_mm :: u64
  total_runtime :: u64
  time_slice :: int
  pid :: int
  parent :: u64
  pcb_state :: proc_state
  fd_table :: "nat option list"
  cwd_inode :: int
  exit_code :: int

text \<open>\<^verbatim>\<open>&proc->proc_list_node\<close>, \<^verbatim>\<open>&proc->sched_node\<close> and \<^verbatim>\<open>proc->name\<close>.\<close>

abbreviation (input) proc_list_node :: "u64 \<Rightarrow> u64" where "proc_list_node p \<equiv> p + 40"
abbreviation (input) sched_node :: "u64 \<Rightarrow> u64" where "sched_node p \<equiv> p + 56"
abbreviation (input) proc_name :: "u64 \<Rightarrow> u64" where "proc_name p \<equiv> p + 100"

abbreviation (input) sizeof_pcb :: u64 where "sizeof_pcb \<equiv> 272"
abbreviation (input) sizeof_context :: u64 where "sizeof_context \<equiv> 64"
abbreviation (input) sizeof_trap_frame :: u64 where "sizeof_trap_frame \<equiv> 176"
abbreviation (input) TIME_SLICE_DEFAULT :: int where "TIME_SLICE_DEFAULT \<equiv> 10"

text \<open>
  \<open>proc_list\<close> and \<open>ready_queue\<close> are the addresses of the two list heads; the last three fields are the
  addresses of the assembly entry points.
\<close>

record proc = vmm +
  pcbs :: "u64 \<Rightarrow> pcb"
  contexts :: "u64 \<Rightarrow> context_t"
  trap_frames :: "u64 \<Rightarrow> trap_frame"
  proc_list :: u64
  ready_queue :: u64
  current_proc :: u64
  idle_proc :: u64
  next_pid :: int
  ticks :: u64
  tss_rsp0 :: u64
  if_flag :: bool
  regs :: context_t
  cpu_rsp :: u64
  kernel_thread_entry :: u64
  user_entry_addr :: u64
  fork_ret_entry :: u64

definition set_pcb :: "u64 \<Rightarrow> (pcb \<Rightarrow> pcb) \<Rightarrow> 'a proc_scheme \<Rightarrow> 'a proc_scheme" where
  "set_pcb p f s = s\<lparr>pcbs := (pcbs s)(p := f (pcbs s p))\<rparr>"

subsection \<open>The register switch\<close>

definition set_tss_stack :: "u64 \<Rightarrow> 'a proc_scheme \<Rightarrow> 'a proc_scheme" where
  "set_tss_stack kernel_stack s = s\<lparr>tss_rsp0 := kernel_stack\<rparr>"

text \<open>
  \<^verbatim>\<open>switch_to(&prev->context, next_ctx)\<close>: the call has pushed the return address, the routine pushes
  seven registers (of which \<^verbatim>\<open>rdi\<close> is its first argument), which together are a \<^verbatim>\<open>context_t\<close> on the old
  stack; the new stack pointer is loaded and the same eight words are popped from there.
\<close>

definition switch_to :: "u64 \<Rightarrow> u64 \<Rightarrow> 'a proc_scheme \<Rightarrow> 'a proc_scheme" where
  "switch_to prev next_ctx s =
     (let saved = cpu_rsp s - sizeof_context;
          s1 = s\<lparr>contexts := (contexts s)(saved := (regs s)\<lparr>c_rdi := prev + 16\<rparr>)\<rparr>;
          s2 = set_pcb prev (\<lambda>p. p\<lparr>pcb_context := saved\<rparr>) s1
      in s2\<lparr>regs := contexts s2 next_ctx, cpu_rsp := next_ctx + sizeof_context\<rparr>)"

subsection \<open>The scheduler\<close>

text \<open>Step 2 of \<^verbatim>\<open>schedule\<close>: a running process whose slice is used up goes to the back of the queue.\<close>

definition sched_requeue :: "u64 \<Rightarrow> 'a proc_scheme \<Rightarrow> 'a proc_scheme" where
  "sched_requeue prev s =
     (if pcb_state (pcbs s prev) = PROC_RUNNING \<and> prev \<noteq> idle_proc s
      then list_add_before (sched_node prev) (ready_queue s)
             (set_pcb prev (\<lambda>p. p\<lparr>pcb_state := PROC_READY, time_slice := TIME_SLICE_DEFAULT\<rparr>) s)
      else s)"

text \<open>Step 3: the idle process when the queue is empty, else the front of the queue, which is taken out.\<close>

definition sched_pick :: "'a proc_scheme \<Rightarrow> (u64 \<times> 'a proc_scheme) option" where
  "sched_pick s =
     (if l_next s (ready_queue s) = ready_queue s
      then if idle_proc s = 0 then None
           else Some (idle_proc s, set_pcb (idle_proc s) (\<lambda>p. p\<lparr>pcb_state := PROC_RUNNING, time_slice := TIME_SLICE_DEFAULT\<rparr>) s)
      else let next_node = l_next s (ready_queue s)
           in Some (next_node - 56, list_del next_node s))"

text \<open>Step 4: make \<open>next\<close> current, point the TSS at its stack, load its page table and switch to it.\<close>

definition sched_switch :: "u64 \<Rightarrow> u64 \<Rightarrow> 'a proc_scheme \<Rightarrow> 'a proc_scheme" where
  "sched_switch prev nxt s =
     (let s1 = (set_pcb nxt (\<lambda>p. p\<lparr>pcb_state := PROC_RUNNING, time_slice := TIME_SLICE_DEFAULT\<rparr>) s)\<lparr>current_proc := nxt\<rparr>;
          s2 = set_tss_stack (kstack_base (pcbs s1 nxt) + KSTACK_SIZE) s1;
          mm = pcb_mm (pcbs s2 nxt);
          s3 = (if mm \<noteq> 0 \<and> (pcb_mm (pcbs s2 prev) = 0 \<or> pcb_mm (pcbs s2 prev) \<noteq> mm)
                then s2\<lparr>cr3 := mm_pml4_pa (mms s2 mm)\<rparr> else s2)
      in switch_to prev (pcb_context (pcbs s3 nxt)) s3)"

text \<open>
  The whole of \<^verbatim>\<open>schedule\<close>. When it switches, the result is the state in which the next thread goes on,
  with interrupts off; that thread restores its own interrupt flag at the end of its own call.
\<close>

definition sched_restore :: "bool \<Rightarrow> 'a proc_scheme \<Rightarrow> 'a proc_scheme" where
  "sched_restore interrupts_enabled s = (if interrupts_enabled then s\<lparr>if_flag := True\<rparr> else s)"

definition schedule :: "'a proc_scheme \<Rightarrow> 'a proc_scheme option" where
  "schedule s =
     (let interrupts_enabled = if_flag s; s0 = s\<lparr>if_flag := False\<rparr>; prev = current_proc s0
      in if prev = 0 then None
         else if pcb_state (pcbs s0 prev) = PROC_RUNNING \<and> prev \<noteq> idle_proc s0 \<and> \<not> time_slice (pcbs s0 prev) \<le> 0
         then Some (sched_restore interrupts_enabled s0)
         else map_option
           (\<lambda>(nxt, s2). if prev \<noteq> nxt then sched_switch prev nxt s2 else sched_restore interrupts_enabled s2)
           (sched_pick (sched_requeue prev s0)))"

definition kthread_exit :: "int \<Rightarrow> 'a proc_scheme \<Rightarrow> 'a proc_scheme option" where
  "kthread_exit code s =
     (let s0 = s\<lparr>if_flag := False\<rparr>; p = current_proc s0
      in if p = 0 then None
         else schedule (set_pcb p (\<lambda>r. r\<lparr>pcb_state := PROC_ZOMBIE, exit_code := code\<rparr>) s0))"

subsection \<open>The clock\<close>

definition timer_callback :: "'a proc_scheme \<Rightarrow> 'a proc_scheme option" where
  "timer_callback s =
     (let s0 = s\<lparr>ticks := ticks s + 1\<rparr>; p = current_proc s0
      in if p \<noteq> 0 \<and> pcb_state (pcbs s0 p) = PROC_RUNNING
         then let s1 = set_pcb p (\<lambda>r. r\<lparr>total_runtime := total_runtime r + 1, time_slice := time_slice r - 1\<rparr>) s0
              in if time_slice (pcbs s1 p) \<le> 0 then schedule s1 else Some s1
         else Some s0)"

text \<open>
  \<^verbatim>\<open>init_timer\<close> writes to the ports of the interval timer and of the interrupt controller; the writes are
  listed as pairs of a port and a byte, \<open>imr\<close> is the mask read from port 0x21. The code divides by the
  frequency: for 0 it faults.
\<close>

definition init_timer :: "u32 \<Rightarrow> u8 \<Rightarrow> (u16 \<times> u8) list option" where
  "init_timer frequency imr =
     (if frequency = 0 then None
      else let divisor = 1193180 div frequency
           in Some [(0x43, 0x36), (0x40, ucast (divisor AND 0xFF)), (0x40, ucast (drop_bit 8 divisor AND 0xFF)),
                    (0x21, imr AND NOT 0x01)])"

subsection \<open>The scheduler's invariant\<close>

text \<open>
  \<open>sched_inv s q\<close>: the ready queue carries the scheduling nodes of the processes \<open>q\<close>, all of them ready,
  none of them current or idle.
\<close>

definition schedulable :: "'a proc_scheme \<Rightarrow> u64 \<Rightarrow> bool" where
  "schedulable s p \<longleftrightarrow> p \<noteq> 0 \<and> p \<noteq> idle_proc s \<and> sched_node p \<noteq> ready_queue s"

definition sched_inv :: "'a proc_scheme \<Rightarrow> u64 list \<Rightarrow> bool" where
  "sched_inv s q \<longleftrightarrow> dll s (ready_queue s) (map sched_node q) \<and> current_proc s \<notin> set q
     \<and> current_proc s \<noteq> 0 \<and> idle_proc s \<noteq> 0 \<and> (current_proc s \<noteq> idle_proc s \<longrightarrow> schedulable s (current_proc s))
     \<and> (\<forall>p \<in> set q. schedulable s p \<and> pcb_state (pcbs s p) = PROC_READY)"

lemma list_ops_keep_proc [simp]:
  "pcbs (list_add_before x h s) = pcbs s" "pcbs (list_del x s) = pcbs s" "pcbs (list_add_after x h s) = pcbs s"
  "current_proc (list_add_before x h s) = current_proc s" "current_proc (list_del x s) = current_proc s"
  "current_proc (list_add_after x h s) = current_proc s"
  "idle_proc (list_add_before x h s) = idle_proc s" "idle_proc (list_del x s) = idle_proc s"
  "idle_proc (list_add_after x h s) = idle_proc s"
  "ready_queue (list_add_before x h s) = ready_queue s" "ready_queue (list_del x s) = ready_queue s"
  "ready_queue (list_add_after x h s) = ready_queue s"
  "contexts (list_add_before x h s) = contexts s" "contexts (list_del x s) = contexts s"
  "mms (list_add_before x h s) = mms s" "mms (list_del x s) = mms s"
  "if_flag (list_add_before x h s) = if_flag s" "if_flag (list_del x s) = if_flag s"
  "cr3 (list_add_before x h s) = cr3 s" "cr3 (list_del x s) = cr3 s"
  by (simp_all add: list_del_def list_add_before_def list_add_after_def list_add_between_def Let_def)

lemma set_pcb_fields [simp]:
  "l_next (set_pcb p f s) = l_next s" "l_prev (set_pcb p f s) = l_prev s" "pcbs (set_pcb p f s) = (pcbs s)(p := f (pcbs s p))"
  "current_proc (set_pcb p f s) = current_proc s" "idle_proc (set_pcb p f s) = idle_proc s"
  "ready_queue (set_pcb p f s) = ready_queue s" "contexts (set_pcb p f s) = contexts s" "mms (set_pcb p f s) = mms s"
  "cpu_rsp (set_pcb p f s) = cpu_rsp s" "regs (set_pcb p f s) = regs s" "cr3 (set_pcb p f s) = cr3 s"
  "if_flag (set_pcb p f s) = if_flag s" "tss_rsp0 (set_pcb p f s) = tss_rsp0 s" "ticks (set_pcb p f s) = ticks s" "dll (set_pcb p f s) h xs = dll s h xs"
  by (simp_all add: set_pcb_def) (rule dll_cong; simp)

lemma sched_node_inj [simp]: "sched_node p = sched_node p' \<longleftrightarrow> p = p'"
  by simp

text \<open>What a switch leaves of the state: only the current process, the two PCBs, the contexts and the processor change.\<close>

lemma sched_switch_fields:
  assumes "prev \<noteq> nxt"
  shows "l_next (sched_switch prev nxt s) = l_next s" "l_prev (sched_switch prev nxt s) = l_prev s"
    "current_proc (sched_switch prev nxt s) = nxt" "idle_proc (sched_switch prev nxt s) = idle_proc s"
    "ready_queue (sched_switch prev nxt s) = ready_queue s" "if_flag (sched_switch prev nxt s) = if_flag s"
    "pcbs (sched_switch prev nxt s) = (pcbs s)
       (nxt := (pcbs s nxt)\<lparr>pcb_state := PROC_RUNNING, time_slice := TIME_SLICE_DEFAULT\<rparr>,
        prev := (pcbs s prev)\<lparr>pcb_context := cpu_rsp s - sizeof_context\<rparr>)"
    "contexts (sched_switch prev nxt s) = (contexts s)(cpu_rsp s - sizeof_context := (regs s)\<lparr>c_rdi := prev + 16\<rparr>)"
    "regs (sched_switch prev nxt s) = contexts (sched_switch prev nxt s) (pcb_context (pcbs s nxt))"
    "cpu_rsp (sched_switch prev nxt s) = pcb_context (pcbs s nxt) + sizeof_context"
    "tss_rsp0 (sched_switch prev nxt s) = kstack_base (pcbs s nxt) + KSTACK_SIZE"
    "cr3 (sched_switch prev nxt s) =
       (if pcb_mm (pcbs s nxt) \<noteq> 0 \<and> pcb_mm (pcbs s prev) \<noteq> pcb_mm (pcbs s nxt) then mm_pml4_pa (mms s (pcb_mm (pcbs s nxt))) else cr3 s)"
  using assms by (auto simp: sched_switch_def switch_to_def set_tss_stack_def Let_def fun_eq_iff)

lemma sched_inv_nodes:
  assumes "sched_inv s q"
  shows "dll s (ready_queue s) (map sched_node q)" "distinct q" "current_proc s \<noteq> 0" "idle_proc s \<noteq> 0"
  using assms by (auto simp: sched_inv_def dll_def distinct_map)

text \<open>The queue after the requeueing step.\<close>

definition requeued :: "'a proc_scheme \<Rightarrow> u64 list \<Rightarrow> u64 list" where
  "requeued s q =
     (if pcb_state (pcbs s (current_proc s)) = PROC_RUNNING \<and> current_proc s \<noteq> idle_proc s then q @ [current_proc s] else q)"

lemma sched_requeue_queue:
  assumes "sched_inv s q"
  shows "dll (sched_requeue (current_proc s) s) (ready_queue s) (map sched_node (requeued s q))"
    and "ready_queue (sched_requeue (current_proc s) s) = ready_queue s"
    and "idle_proc (sched_requeue (current_proc s) s) = idle_proc s"
    and "current_proc (sched_requeue (current_proc s) s) = current_proc s"
    and "if_flag (sched_requeue (current_proc s) s) = if_flag s"
    and "p \<noteq> current_proc s \<Longrightarrow> pcbs (sched_requeue (current_proc s) s) p = pcbs s p"
    and "p \<in> set (requeued s q) \<Longrightarrow> schedulable s p \<and> pcb_state (pcbs (sched_requeue (current_proc s) s) p) = PROC_READY"
    and "distinct (requeued s q)"
proof -
  let ?c = "current_proc s"
  let ?s = "set_pcb ?c (\<lambda>p. p\<lparr>pcb_state := PROC_READY, time_slice := TIME_SLICE_DEFAULT\<rparr>) s"
  have d: "dll s (ready_queue s) (map sched_node q)" and c: "?c \<notin> set q" using assms by (auto simp: sched_inv_def)
  show "dll (sched_requeue ?c s) (ready_queue s) (map sched_node (requeued s q))"
  proof (cases "pcb_state (pcbs s ?c) = PROC_RUNNING \<and> ?c \<noteq> idle_proc s")
    case True
    then have "sched_node ?c \<notin> set (map sched_node q)" "sched_node ?c \<noteq> ready_queue s"
      using assms c by (auto simp: sched_inv_def schedulable_def)
    then have "dll (list_add_before (sched_node ?c) (ready_queue s) ?s) (ready_queue s) (map sched_node q @ [sched_node ?c])"
      using d by (intro kq.repr_enq) simp_all
    then show ?thesis using True by (simp add: sched_requeue_def requeued_def)
  next
    case False
    then show ?thesis using d by (auto simp: sched_requeue_def requeued_def)
  qed
qed (use assms in \<open>auto simp: sched_requeue_def requeued_def sched_inv_def dll_def distinct_map split: if_splits\<close>)


lemma sched_switch_inv:
  assumes "dll s (ready_queue s) (map sched_node q)" "prev \<noteq> nxt" "nxt \<noteq> 0" "idle_proc s \<noteq> 0" "nxt \<notin> set q"
    and "nxt \<noteq> idle_proc s \<Longrightarrow> schedulable s nxt" and "\<And>p. p \<in> set q \<Longrightarrow> schedulable s p \<and> pcb_state (pcbs s p) = PROC_READY"
  shows "sched_inv (sched_switch prev nxt s) q"
proof -
  let ?s = "sched_switch prev nxt s"
  note f = sched_switch_fields [OF assms(2), of s]
  have d: "dll ?s (ready_queue s) (map sched_node q)" using assms(1) dll_cong [of "ready_queue s" "map sched_node q" ?s s] f(1,2) by simp
  have sch: "schedulable ?s p = schedulable s p" for p by (simp add: schedulable_def f)
  show ?thesis unfolding sched_inv_def f(3-5) sch using d assms(3-7) by (auto simp: f(7))
qed

lemma dll_sched_restore [simp]: "dll (sched_restore e s) h xs = dll s h xs"
  by (rule dll_cong) (simp add: sched_restore_def)

lemma sched_restore_fields [simp]:
  "pcbs (sched_restore e s) = pcbs s" "current_proc (sched_restore e s) = current_proc s" "idle_proc (sched_restore e s) = idle_proc s"
  "ready_queue (sched_restore e s) = ready_queue s" "if_flag (sched_restore e s) = (e \<or> if_flag s)"
  by (simp_all add: sched_restore_def)

lemma sched_inv_if_flag [simp]: "sched_inv (s\<lparr>if_flag := b\<rparr>) q = sched_inv s q" "requeued (s\<lparr>if_flag := b\<rparr>) q = requeued s q"
  "dll (s\<lparr>if_flag := b\<rparr>) h xs = dll s h xs"
proof -
  show d: "dll (s\<lparr>if_flag := b\<rparr>) h xs = dll s h xs" for h xs by (rule dll_cong) simp
  show "sched_inv (s\<lparr>if_flag := b\<rparr>) q = sched_inv s q" by (simp add: sched_inv_def schedulable_def d)
qed (simp add: requeued_def)

text \<open>The three outcomes of \<^verbatim>\<open>schedule\<close>.\<close>

lemma schedule_keeps:
  assumes "current_proc s \<noteq> 0" "pcb_state (pcbs s (current_proc s)) = PROC_RUNNING" "current_proc s \<noteq> idle_proc s"
    "0 < time_slice (pcbs s (current_proc s))"
  shows "schedule s = Some s"
proof -
  have "sched_restore (if_flag s) (s\<lparr>if_flag := False\<rparr>) = s" by (simp add: sched_restore_def)
  then show ?thesis using assms by (simp add: schedule_def Let_def)
qed

abbreviation (input) keeps_running :: "'a proc_scheme \<Rightarrow> bool" where
  "keeps_running s \<equiv> pcb_state (pcbs s (current_proc s)) = PROC_RUNNING \<and> current_proc s \<noteq> idle_proc s
     \<and> 0 < time_slice (pcbs s (current_proc s))"

lemma schedule_next:
  assumes inv: "sched_inv s q" and gone: "\<not> keeps_running s" and q: "requeued s q = nxt # r"
  obtains s1 where "schedule s = Some (if nxt = current_proc s then sched_restore (if_flag s) s1 else sched_switch (current_proc s) nxt s1)"
    "dll s1 (ready_queue s1) (map sched_node r)" "ready_queue s1 = ready_queue s" "idle_proc s1 = idle_proc s"
    "current_proc s1 = current_proc s" "if_flag s1 = False"
    "pcbs s1 = pcbs (sched_requeue (current_proc s) s)"
proof -
  let ?off = "s\<lparr>if_flag := False\<rparr>"
  let ?s = "sched_requeue (current_proc s) ?off"
  have inv0: "sched_inv ?off q" and q0: "requeued ?off q = nxt # r" using inv q by simp_all
  note rq = sched_requeue_queue [OF inv0, simplified]
  have d: "dll ?s (ready_queue s) (sched_node nxt # map sched_node r)" using rq(1) q by simp
  then have nx: "l_next ?s (ready_queue s) = sched_node nxt" and ne: "sched_node nxt \<noteq> ready_queue s"
    and d': "dll (list_del (sched_node nxt) ?s) (ready_queue s) (map sched_node r)"
    using kq.repr_front [OF d] kq.repr_deq [OF d] by (auto simp: dll_def)
  have pk: "sched_pick ?s = Some (nxt, list_del (sched_node nxt) ?s)"
    using nx ne rq(2) by (simp add: sched_pick_def Let_def)
  have pc: "pcbs ?s = pcbs (sched_requeue (current_proc s) s)" by (simp add: sched_requeue_def)
  have "schedule s = Some (if nxt = current_proc s then sched_restore (if_flag s) (list_del (sched_node nxt) ?s)
      else sched_switch (current_proc s) nxt (list_del (sched_node nxt) ?s))"
    using gone sched_inv_nodes(3) [OF inv] pk by (auto simp: schedule_def Let_def)
  then show thesis by (rule that) (use rq d' pc in simp_all)
qed

lemma schedule_idles:
  assumes inv: "sched_inv s q" and gone: "\<not> keeps_running s" and q: "requeued s q = []"
  obtains s1 where "schedule s = Some (if idle_proc s = current_proc s then sched_restore (if_flag s) s1 else sched_switch (current_proc s) (idle_proc s) s1)"
    "dll s1 (ready_queue s1) []" "ready_queue s1 = ready_queue s" "idle_proc s1 = idle_proc s"
    "current_proc s1 = current_proc s" "if_flag s1 = False"
    "pcbs s1 = (pcbs s)(idle_proc s := (pcbs s (idle_proc s))\<lparr>pcb_state := PROC_RUNNING, time_slice := TIME_SLICE_DEFAULT\<rparr>)"
proof -
  let ?off = "s\<lparr>if_flag := False\<rparr>"
  let ?idl = "set_pcb (idle_proc s) (\<lambda>p. p\<lparr>pcb_state := PROC_RUNNING, time_slice := TIME_SLICE_DEFAULT\<rparr>) ?off"
  have rq: "sched_requeue (current_proc s) ?off = ?off" using q by (auto simp: sched_requeue_def requeued_def split: if_splits)
  have q0: "q = []" using q by (simp add: requeued_def split: if_splits)
  have d: "dll s (ready_queue s) []" using inv q0 by (simp add: sched_inv_def)
  have pk: "sched_pick ?off = Some (idle_proc s, ?idl)" using kq.repr_empty [OF d] inv by (simp add: sched_pick_def sched_inv_def)
  have "schedule s = Some (if idle_proc s = current_proc s then sched_restore (if_flag s) ?idl else sched_switch (current_proc s) (idle_proc s) ?idl)"
    using gone sched_inv_nodes(3) [OF inv] pk rq by (auto simp: schedule_def Let_def)
  then show thesis by (rule that) (use d in simp_all)
qed

lemma schedule_inv:
  assumes inv: "sched_inv s q"
  obtains s' where "schedule s = Some s'"
    "sched_inv s' (if keeps_running s then q else tl (requeued s q))"
    "current_proc s' = (if keeps_running s then current_proc s else if requeued s q = [] then idle_proc s else hd (requeued s q))"
    "idle_proc s' = idle_proc s"
    "current_proc s' \<noteq> current_proc s \<longrightarrow> pcb_state (pcbs s' (current_proc s')) = PROC_RUNNING \<and> time_slice (pcbs s' (current_proc s')) = TIME_SLICE_DEFAULT
       \<and> tss_rsp0 s' = kstack_base (pcbs s' (current_proc s')) + KSTACK_SIZE
       \<and> regs s' = contexts s' (pcb_context (pcbs s' (current_proc s')))"
proof (cases "keeps_running s")
  case True
  then show thesis using that [of s] schedule_keeps [of s] inv by (simp add: sched_inv_def)
next
  case gone: False
  show thesis
  proof (cases "requeued s q")
    case Nil
    then have q: "q = []" by (simp add: requeued_def split: if_splits)
    obtain s1 where s1: "schedule s = Some (if idle_proc s = current_proc s then sched_restore (if_flag s) s1 else sched_switch (current_proc s) (idle_proc s) s1)"
      "dll s1 (ready_queue s1) []" "ready_queue s1 = ready_queue s" "idle_proc s1 = idle_proc s"
      "current_proc s1 = current_proc s" "if_flag s1 = False"
      "pcbs s1 = (pcbs s)(idle_proc s := (pcbs s (idle_proc s))\<lparr>pcb_state := PROC_RUNNING, time_slice := TIME_SLICE_DEFAULT\<rparr>)"
      by (rule schedule_idles [OF inv gone Nil])
    show thesis
    proof (cases "idle_proc s = current_proc s")
      case True
      have "sched_inv (sched_restore (if_flag s) s1) []"
        using s1 inv True by (simp add: sched_inv_def)
      then show thesis using s1 gone Nil True by (intro that [OF s1(1)]) auto
    next
      case False
      have "sched_inv (sched_switch (current_proc s) (idle_proc s) s1) []"
        using s1 inv False by (intro sched_switch_inv) (auto simp: sched_inv_def)
      then show thesis using s1 gone Nil False sched_switch_fields [of "current_proc s" "idle_proc s" s1]
        by (intro that [OF s1(1)]) auto
    qed
  next
    case (Cons nxt r)
    obtain s1 where s1: "schedule s = Some (if nxt = current_proc s then sched_restore (if_flag s) s1 else sched_switch (current_proc s) nxt s1)"
      "dll s1 (ready_queue s1) (map sched_node r)" "ready_queue s1 = ready_queue s" "idle_proc s1 = idle_proc s"
      "current_proc s1 = current_proc s" "if_flag s1 = False"
      "pcbs s1 = pcbs (sched_requeue (current_proc s) s)"
      by (rule schedule_next [OF inv gone Cons])
    have mem: "schedulable s p \<and> pcb_state (pcbs s1 p) = PROC_READY" if "p \<in> set (nxt # r)" for p
      using sched_requeue_queue(7) [OF inv, of p] that Cons s1(7) by simp
    have sch: "schedulable s1 p = schedulable s p" for p by (simp add: schedulable_def s1)
    have nr: "nxt \<notin> set r" using sched_requeue_queue(8) [OF inv] Cons by simp
    show thesis
    proof (cases "nxt = current_proc s")
      case True
      have "sched_inv (sched_restore (if_flag s) s1) r"
        using s1 mem nr True sch inv by (simp add: sched_inv_def schedulable_def)
      then show thesis using s1 gone Cons True by (intro that [OF s1(1)]) auto
    next
      case False
      have "sched_inv (sched_switch (current_proc s) nxt s1) r"
        using s1 mem nr False sch inv mem [of nxt] by (intro sched_switch_inv) (auto simp: sched_inv_def schedulable_def)
      then show thesis using s1 gone Cons False sched_switch_fields [of "current_proc s" nxt s1]
        by (intro that [OF s1(1)]) auto
    qed
  qed
qed

lemma schedule_other_pcbs:
  assumes inv: "sched_inv s q" and run: "schedule s = Some s'" and p: "p \<noteq> current_proc s" "p \<noteq> current_proc s'"
  shows "pcbs s' p = pcbs s p"
proof (cases "keeps_running s")
  case True
  then show ?thesis using run schedule_keeps [of s] sched_inv_nodes(3) [OF inv] by simp
next
  case gone: False
  show ?thesis
  proof (cases "requeued s q")
    case Nil
    show ?thesis by (rule schedule_idles [OF inv gone Nil])
        (use run p in \<open>auto simp: sched_switch_fields split: if_splits\<close>)
  next
    case (Cons nxt r)
    show ?thesis by (rule schedule_next [OF inv gone Cons])
        (use run p sched_requeue_queue(6) [OF inv p(1)] in \<open>auto simp: sched_switch_fields split: if_splits\<close>)
  qed
qed


subsection \<open>Time slices\<close>

text \<open>
  What a clock with a run queue promises: a tick uses up one unit of the slice of the running process,
  and the tick that uses up the last one makes the front of the queue run with a fresh slice and sends
  the process to the back. Then every queued process gets its turn, in order, after its predecessors'
  slices.
\<close>

primrec run_ticks :: "('s \<Rightarrow> 's option) \<Rightarrow> nat \<Rightarrow> 's \<Rightarrow> 's option" where
  "run_ticks tick 0 s = Some s"
| "run_ticks tick (Suc n) s = Option.bind (tick s) (run_ticks tick n)"

lemma run_ticks_add: "run_ticks tick (m + n) s = Option.bind (run_ticks tick m s) (run_ticks tick n)"
  by (induction m arbitrary: s) (auto split: bind_splits)

locale time_slicing =
  fixes tick :: "'s \<Rightarrow> 's option"
    and running :: "'s \<Rightarrow> 'p \<Rightarrow> nat \<Rightarrow> 'p list \<Rightarrow> bool"
    and quantum :: nat
  assumes tick_down: "running s c (Suc (Suc k)) q \<Longrightarrow> \<exists>s'. tick s = Some s' \<and> running s' c (Suc k) q"
    and tick_out: "running s c (Suc 0) (p # q) \<Longrightarrow> \<exists>s'. tick s = Some s' \<and> running s' p quantum (q @ [c])"
    and quantum_pos: "0 < quantum"
begin

lemma slice_runs:
  assumes "running s c k q" and "j < k"
  shows "\<exists>s'. run_ticks tick j s = Some s' \<and> running s' c (k - j) q"
  using assms
proof (induction j arbitrary: s k)
  case 0
  then show ?case by simp
next
  case (Suc j)
  then have "k = Suc (Suc (k - 2))" by simp
  then obtain k' where k: "k = Suc (Suc k')" by blast
  then obtain s1 where "tick s = Some s1" "running s1 c (Suc k') q" using tick_down [of s c k' q] Suc.prems(1) by blast
  then show ?case using Suc.IH [of s1 "Suc k'"] Suc.prems(2) k by simp
qed

lemma slice_ends:
  assumes "running s c k (p # q)" and "0 < k"
  shows "\<exists>s'. run_ticks tick k s = Some s' \<and> running s' p quantum (q @ [c])"
proof -
  obtain s1 where s1: "run_ticks tick (k - 1) s = Some s1" "running s1 c (Suc 0) (p # q)"
    using slice_runs [OF assms(1), of "k - 1"] assms(2) by (auto simp: Suc_diff_Suc)
  obtain s2 where "tick s1 = Some s2" "running s2 p quantum (q @ [c])" using tick_out [OF s1(2)] by blast
  moreover have "run_ticks tick (k - 1 + 1) s = Option.bind (Some s1) (run_ticks tick 1)" using run_ticks_add s1(1) by metis
  ultimately show ?thesis using assms(2) by simp
qed

lemma turn_comes:
  assumes "running s c k q" and "0 < k" and "i < length q"
  shows "\<exists>s'. run_ticks tick (k + quantum * i) s = Some s' \<and> running s' (q ! i) quantum (drop (Suc i) q @ c # take i q)"
  using assms
proof (induction i arbitrary: s c k q)
  case 0
  then obtain p r where "q = p # r" by (cases q) auto
  then show ?case using slice_ends [of s c k p r] 0 by auto
next
  case (Suc i)
  then obtain p r where q: "q = p # r" by (cases q) auto
  obtain s1 where s1: "run_ticks tick k s = Some s1" "running s1 p quantum (r @ [c])"
    using slice_ends [of s c k p r] Suc.prems q by auto
  obtain s2 where s2: "run_ticks tick (quantum + quantum * i) s1 = Some s2"
    "running s2 ((r @ [c]) ! i) quantum (drop (Suc i) (r @ [c]) @ p # take i (r @ [c]))"
    using Suc.IH [OF s1(2) quantum_pos] Suc.prems(3) q by auto
  have "run_ticks tick (k + (quantum + quantum * i)) s = Some s2" using s1(1) s2(1) by (simp add: run_ticks_add [of tick k])
  moreover have "(r @ [c]) ! i = q ! Suc i" "drop (Suc i) (r @ [c]) @ p # take i (r @ [c]) = drop (Suc (Suc i)) q @ c # take (Suc i) q"
    using Suc.prems(3) q by (simp_all add: nth_append)
  ultimately show ?case using s2(2) by (simp add: ac_simps)
qed

end

definition runs :: "'a proc_scheme \<Rightarrow> u64 \<Rightarrow> nat \<Rightarrow> u64 list \<Rightarrow> bool" where
  "runs s c k q \<longleftrightarrow> sched_inv s q \<and> current_proc s = c \<and> c \<noteq> idle_proc s
     \<and> pcb_state (pcbs s c) = PROC_RUNNING \<and> time_slice (pcbs s c) = int k"

lemma sched_inv_ticks [simp]: "sched_inv (s\<lparr>ticks := t\<rparr>) q = sched_inv s q"
proof -
  have "dll (s\<lparr>ticks := t\<rparr>) h xs = dll s h xs" for h xs by (rule dll_cong) simp
  then show ?thesis by (simp add: sched_inv_def schedulable_def)
qed

lemma sched_inv_current_pcb:
  assumes "sched_inv s q"
  shows "sched_inv (set_pcb (current_proc s) f s) q"
  using assms by (auto simp: sched_inv_def schedulable_def)

text \<open>The state in which the clock interrupt has been counted.\<close>

definition ticked :: "'a proc_scheme \<Rightarrow> 'a proc_scheme" where
  "ticked s = set_pcb (current_proc s) (\<lambda>r. r\<lparr>total_runtime := total_runtime r + 1, time_slice := time_slice r - 1\<rparr>) (s\<lparr>ticks := ticks s + 1\<rparr>)"

lemma timer_callback_ticked:
  assumes "current_proc s \<noteq> 0" "pcb_state (pcbs s (current_proc s)) = PROC_RUNNING"
  shows "timer_callback s = (if time_slice (pcbs s (current_proc s)) \<le> 1 then schedule (ticked s) else Some (ticked s))"
  using assms by (auto simp: timer_callback_def ticked_def Let_def)

lemma ticked_fields [simp]:
  "current_proc (ticked s) = current_proc s" "idle_proc (ticked s) = idle_proc s"
  "pcb_state (pcbs (ticked s) p) = pcb_state (pcbs s p)"
  "time_slice (pcbs (ticked s) p) = (if p = current_proc s then time_slice (pcbs s p) - 1 else time_slice (pcbs s p))"
  "requeued (ticked s) q = requeued s q"
  by (simp_all add: ticked_def requeued_def)

lemma ticked_inv: "sched_inv s q \<Longrightarrow> sched_inv (ticked s) q"
  using sched_inv_current_pcb [of "s\<lparr>ticks := ticks s + 1\<rparr>"] by (simp add: ticked_def)

interpretation clock: time_slicing timer_callback runs 10
proof unfold_locales
  fix s :: "'a proc_scheme" and c k q
  assume r: "runs s c (Suc (Suc k)) q"
  then have "timer_callback s = Some (ticked s)"
    using timer_callback_ticked [of s] sched_inv_nodes(3) [of s q] by (simp add: runs_def)
  moreover have "runs (ticked s) c (Suc k) q"
  proof -
    have f: "sched_inv (ticked s) q" "current_proc s = c" "c \<noteq> idle_proc s" "pcb_state (pcbs s c) = PROC_RUNNING"
    "time_slice (pcbs s c) = int (Suc (Suc k))" using r ticked_inv [of s q] unfolding runs_def by blast+
    then show ?thesis by (simp add: runs_def)
  qed
  ultimately show "\<exists>s'. timer_callback s = Some s' \<and> runs s' c (Suc k) q" by blast
next
  fix s :: "'a proc_scheme" and c p q
  assume r: "runs s c (Suc 0) (p # q)"
  then have rf: "sched_inv s (p # q)" "current_proc s = c" "c \<noteq> idle_proc s" "pcb_state (pcbs s c) = PROC_RUNNING"
    "time_slice (pcbs s c) = 1" unfolding runs_def by simp_all
  have i: "sched_inv (ticked s) (p # q)" by (rule ticked_inv [OF rf(1)])
  have gone: "\<not> keeps_running (ticked s)" using rf by simp
  have nz: "current_proc s \<noteq> 0" by (rule sched_inv_nodes(3) [OF rf(1)])
  have rq: "requeued (ticked s) (p # q) = p # q @ [c]" using rf by (simp add: requeued_def)
  have pc: "p \<noteq> c" "p \<noteq> idle_proc s" using rf(1,2) by (auto simp: sched_inv_def schedulable_def)
  obtain s' where s': "schedule (ticked s) = Some s'"
    "sched_inv s' (if keeps_running (ticked s) then p # q else tl (requeued (ticked s) (p # q)))"
    "current_proc s' = (if keeps_running (ticked s) then current_proc (ticked s) else if requeued (ticked s) (p # q) = [] then idle_proc (ticked s) else hd (requeued (ticked s) (p # q)))"
    "idle_proc s' = idle_proc (ticked s)"
    "current_proc s' \<noteq> current_proc (ticked s) \<longrightarrow> pcb_state (pcbs s' (current_proc s')) = PROC_RUNNING \<and> time_slice (pcbs s' (current_proc s')) = TIME_SLICE_DEFAULT
       \<and> tss_rsp0 s' = kstack_base (pcbs s' (current_proc s')) + KSTACK_SIZE
       \<and> regs s' = contexts s' (pcb_context (pcbs s' (current_proc s')))"
    by (rule schedule_inv [OF i])
  have cur: "current_proc s' = p" and inv': "sched_inv s' (q @ [c])" using s'(2,3) unfolding if_not_P [OF gone] rq by simp_all
  have "runs s' p 10 (q @ [c])"
    using inv' cur s'(4,5) pc r unfolding runs_def by simp
  moreover have "timer_callback s = Some s'" using timer_callback_ticked [of s] nz r s'(1) by (simp add: runs_def)
  ultimately show "\<exists>s'. timer_callback s = Some s' \<and> runs s' p 10 (q @ [c])" by blast
qed simp

subsection \<open>Sleeping\<close>

text \<open>
  \<^verbatim>\<open>sleep\<close> halts the processor until enough clock ticks have passed. What happens while it is halted is
  the argument \<open>hlt\<close>: the state in which the code goes on after an interrupt.
\<close>

partial_function (option) sleep_loop :: "('a proc_scheme \<Rightarrow> 'a proc_scheme) \<Rightarrow> u64 \<Rightarrow> 'a proc_scheme \<Rightarrow> 'a proc_scheme option" where
  "sleep_loop hlt end_tick s = (if ticks s < end_tick then sleep_loop hlt end_tick (hlt s) else Some s)"

definition sleep :: "('a proc_scheme \<Rightarrow> 'a proc_scheme) \<Rightarrow> u32 \<Rightarrow> 'a proc_scheme \<Rightarrow> 'a proc_scheme option" where
  "sleep hlt ms s = sleep_loop hlt (ticks s + ucast (ms div 10)) s"

lemma sleep_loop_returns:
  assumes tick: "\<And>t. ticks (hlt t) = ticks t + 1" and le: "unat (ticks s) + n \<le> unat end_tick" "unat end_tick \<le> unat (ticks s) + n"
  shows "sleep_loop hlt end_tick s = Some ((hlt ^^ n) s)"
  using le
proof (induction n arbitrary: s)
  case 0
  then show ?case by (simp add: sleep_loop.simps word_less_nat_alt)
next
  case (Suc n)
  have "unat (ticks s + 1) = unat (ticks s) + 1"
    using Suc.prems unat_lt_2p64 [of end_tick] by (subst unat_add_no_overflow) auto
  then have "sleep_loop hlt end_tick (hlt s) = Some ((hlt ^^ n) (hlt s))" using Suc by (simp add: tick)
  then show ?case using Suc.prems by (simp add: sleep_loop.simps [of _ _ s] word_less_nat_alt funpow_swap1)
qed

lemma sleep_counts_ticks:
  assumes tick: "\<And>t. ticks (hlt t) = ticks t + 1" and bound: "unat (ticks s) + unat ms div 10 < 2 ^ 64"
  shows "sleep hlt ms s = Some ((hlt ^^ (unat ms div 10)) s)"
proof -
  have m: "unat (ucast (ms div 10) :: u64) = unat ms div 10"
    using unsigned_less [where 'a = nat, of ms] by (simp add: unsigned_ucast_eq unat_div take_bit_nat_eq_self)
  have "unat (ticks s + ucast (ms div 10)) = unat (ticks s) + unat ms div 10"
    using bound by (subst unat_add_no_overflow) (auto simp: m)
  then show ?thesis unfolding sleep_def by (intro sleep_loop_returns [OF tick]) auto
qed

subsection \<open>Steps of the scheduler\<close>

text \<open>
  The events that move the scheduler: a clock interrupt, a call of \<^verbatim>\<open>schedule\<close>, the end of a thread, and
  the last step of creating a process, which queues it.
\<close>

inductive sched_step :: "'a proc_scheme \<Rightarrow> 'a proc_scheme \<Rightarrow> bool" where
  tick: "timer_callback s = Some s' \<Longrightarrow> sched_step s s'"
| yield: "schedule s = Some s' \<Longrightarrow> sched_step s s'"
| finish: "kthread_exit code s = Some s' \<Longrightarrow> sched_step s s'"
| admit: "schedulable s p \<Longrightarrow> p \<noteq> current_proc s \<Longrightarrow> pcb_state (pcbs s p) = PROC_READY
    \<Longrightarrow> (\<And>q. dll s (ready_queue s) (map sched_node q) \<Longrightarrow> p \<notin> set q)
    \<Longrightarrow> sched_step s (list_add_before (sched_node p) (ready_queue s) s)"

definition sched_ok :: "'a proc_scheme \<Rightarrow> bool" where
  "sched_ok s \<longleftrightarrow> (\<exists>q. sched_inv s q) \<and> pcb_state (pcbs s (current_proc s)) \<in> {PROC_RUNNING, PROC_READY}"

lemma schedule_ok:
  assumes inv: "sched_inv s q" and run: "schedule s = Some s'"
    and st: "pcb_state (pcbs s (current_proc s)) \<in> {PROC_RUNNING, PROC_READY, PROC_ZOMBIE}"
  shows "sched_ok s'"
proof (cases "keeps_running s")
  case True
  then show ?thesis using run schedule_keeps [of s] inv sched_inv_nodes(3) [OF inv] by (auto simp: sched_ok_def)
next
  case gone: False
  obtain s2 where s2: "schedule s = Some s2" "sched_inv s2 (if keeps_running s then q else tl (requeued s q))"
    "current_proc s2 = (if keeps_running s then current_proc s else if requeued s q = [] then idle_proc s else hd (requeued s q))"
    "current_proc s2 \<noteq> current_proc s \<longrightarrow> pcb_state (pcbs s2 (current_proc s2)) = PROC_RUNNING"
    by (rule schedule_inv [OF inv]) blast
  have eq: "s2 = s'" using run s2(1) by simp
  show ?thesis
  proof (cases "current_proc s' = current_proc s")
    case False
    then show ?thesis using s2 eq by (auto simp: sched_ok_def)
  next
    case same: True
    have "pcb_state (pcbs s' (current_proc s)) \<in> {PROC_RUNNING, PROC_READY}"
    proof (cases "requeued s q")
      case Nil
      then have "idle_proc s = current_proc s" using s2(3) eq same unfolding if_not_P [OF gone] by simp
      then show ?thesis by (rule_tac schedule_idles [OF inv gone Nil]) (use run in auto)
    next
      case (Cons nxt r)
      then have "nxt = current_proc s" using s2(3) eq same unfolding if_not_P [OF gone] by simp
      then show ?thesis using sched_requeue_queue(7) [OF inv, of nxt] Cons
        by (rule_tac schedule_next [OF inv gone Cons]) (use run in auto)
    qed
    then show ?thesis using s2(2) eq same by (auto simp: sched_ok_def)
  qed
qed

lemma sched_step_ok:
  assumes "sched_step s s'" and "sched_ok s"
  shows "sched_ok s'"
  using assms
proof (induction rule: sched_step.induct)
  case (tick s s')
  then obtain q where q: "sched_inv s q" by (auto simp: sched_ok_def)
  have nz: "current_proc s \<noteq> 0" by (rule sched_inv_nodes(3) [OF q])
  show ?case
  proof (cases "pcb_state (pcbs s (current_proc s)) = PROC_RUNNING")
    case True
    then show ?thesis
      using tick timer_callback_ticked [OF nz True] ticked_inv [OF q] schedule_ok [OF ticked_inv [OF q], of s']
      by (cases "time_slice (pcbs s (current_proc s)) \<le> 1") (auto simp: sched_ok_def)
  next
    case False
    then show ?thesis using tick q by (auto simp: timer_callback_def Let_def sched_ok_def)
  qed
next
  case (yield s s')
  then show ?case using schedule_ok by (auto simp: sched_ok_def)
next
  case (finish code s s')
  then obtain q where q: "sched_inv s q" by (auto simp: sched_ok_def)
  let ?z = "set_pcb (current_proc s) (\<lambda>r. r\<lparr>pcb_state := PROC_ZOMBIE, exit_code := code\<rparr>) (s\<lparr>if_flag := False\<rparr>)"
  have "sched_inv ?z q" using sched_inv_current_pcb [of "s\<lparr>if_flag := False\<rparr>" q] q by simp
  moreover have "schedule ?z = Some s'" using finish sched_inv_nodes(3) [OF q] by (simp add: kthread_exit_def Let_def)
  ultimately show ?case using schedule_ok [of ?z q s'] by simp
next
  case (admit s p)
  then obtain q where q: "sched_inv s q" by (auto simp: sched_ok_def)
  have "p \<notin> set q" using admit(4) q by (auto simp: sched_inv_def)
  moreover have "sched_node p \<noteq> ready_queue s" using admit(1) by (simp add: schedulable_def)
  ultimately have "dll (list_add_before (sched_node p) (ready_queue s) s) (ready_queue s) (map sched_node q @ [sched_node p])"
    using q by (intro kq.repr_enq) (auto simp: sched_inv_def)
  then have "sched_inv (list_add_before (sched_node p) (ready_queue s) s) (q @ [p])"
    using q admit(1-3) by (auto simp: sched_inv_def schedulable_def)
  then show ?case using admit by (auto simp: sched_ok_def)
qed

text \<open>When the current process is not running, the clock only counts.\<close>

lemma ticks_ignored:
  assumes "pcb_state (pcbs s (current_proc s)) \<noteq> PROC_RUNNING"
  shows "run_ticks timer_callback n s = Some (s\<lparr>ticks := ticks s + of_nat n\<rparr>)"
  using assms
proof (induction n arbitrary: s)
  case 0
  then show ?case by simp
next
  case (Suc n)
  have "timer_callback s = Some (s\<lparr>ticks := ticks s + 1\<rparr>)" using Suc.prems by (simp add: timer_callback_def Let_def)
  then show ?case using Suc.IH [of "s\<lparr>ticks := ticks s + 1\<rparr>"] Suc.prems by (simp add: ac_simps)
qed

lemma lone_slice_out:
  assumes r: "runs s c (Suc 0) []"
  obtains s' where "timer_callback s = Some s'" "current_proc s' = c" "pcb_state (pcbs s' c) = PROC_READY" "sched_inv s' []"
    "idle_proc s' = idle_proc s"
proof -
  have rf: "sched_inv s []" "current_proc s = c" "c \<noteq> idle_proc s" "pcb_state (pcbs s c) = PROC_RUNNING"
    "time_slice (pcbs s c) = 1" using r unfolding runs_def by simp_all
  have i: "sched_inv (ticked s) []" by (rule ticked_inv [OF rf(1)])
  have gone: "\<not> keeps_running (ticked s)" using rf by simp
  have rq: "requeued (ticked s) [] = [c]" using rf by (simp add: requeued_def)
  have tc: "timer_callback s = schedule (ticked s)"
    using timer_callback_ticked [of s] rf sched_inv_nodes(3) [OF rf(1)] by simp
  show thesis
  proof (rule schedule_next [OF i gone rq])
    fix s1
    assume s1: "schedule (ticked s) = Some (if c = current_proc (ticked s) then sched_restore (if_flag (ticked s)) s1 else sched_switch (current_proc (ticked s)) c s1)"
      "dll s1 (ready_queue s1) (map sched_node [])" "ready_queue s1 = ready_queue (ticked s)" "idle_proc s1 = idle_proc (ticked s)"
      "current_proc s1 = current_proc (ticked s)" "pcbs s1 = pcbs (sched_requeue (current_proc (ticked s)) (ticked s))"
    have st: "pcb_state (pcbs s1 c) = PROC_READY"
      using sched_requeue_queue(7) [OF i, of c] rq s1(6) by simp
    have "sched_inv (sched_restore (if_flag (ticked s)) s1) []"
      using s1 i rf(2) by (auto simp: sched_inv_def schedulable_def)
    then show thesis using s1 tc rf(2) st by (intro that [of "sched_restore (if_flag (ticked s)) s1"]) simp_all
  qed
qed

lemma unat_low_byte: "unat (ucast (w AND 0xFF) :: u8) = unat w mod 256" for w :: u32
proof -
  have "(ucast (w AND 0xFF) :: u8) = ucast w"
    by (rule bit_word_eqI) (auto simp: bit_simps bit_numeral_rec(1) simp flip: mask_eq_exp_minus_1 simp: less_Suc_eq numeral_eq_Suc)
  then show ?thesis by (simp add: unsigned_ucast_eq take_bit_eq_mod)
qed

subsection \<open>An example\<close>

text \<open>Process 0x2000 runs, 0x3000 is queued, 0x1000 is the idle process.\<close>

definition zero_pcb :: pcb where
  "zero_pcb = \<lparr>pcb_rsp = 0, kstack_base = 0, pcb_context = 0, pcb_trap_frame = 0, pcb_mm = 0, total_runtime = 0, time_slice = 0,
     pid = 0, parent = 0, pcb_state = PROC_RUNNING, fd_table = replicate 16 None, cwd_inode = 0, exit_code = 0\<rparr>"

definition zero_context :: context_t where
  "zero_context = \<lparr>c_r15 = 0, c_r14 = 0, c_r13 = 0, c_r12 = 0, c_rbx = 0, c_rbp = 0, c_rdi = 0, c_rip = 0\<rparr>"

definition zero_trap_frame :: trap_frame where
  "zero_trap_frame = \<lparr>tf_r15 = 0, tf_r14 = 0, tf_r13 = 0, tf_r12 = 0, tf_r11 = 0, tf_r10 = 0, tf_r9 = 0, tf_r8 = 0, tf_rbp = 0,
     tf_rdi = 0, tf_rsi = 0, tf_rdx = 0, tf_rcx = 0, tf_rbx = 0, tf_rax = 0, int_no = 0, err_code = 0, tf_rip = 0, tf_cs = 0,
     tf_rflags = 0, tf_rsp = 0, tf_ss = 0\<rparr>"

definition example_proc :: proc where
  "example_proc = vmm.extend (example_vmm\<lparr>l_next := (l_next example_vmm)(0x9000 := 0x3038, 0x3038 := 0x9000, 0xA000 := 0xA000),
        l_prev := (l_prev example_vmm)(0x9000 := 0x3038, 0x3038 := 0x9000, 0xA000 := 0xA000)\<rparr>)
     \<lparr>pcbs = (\<lambda>_. zero_pcb\<lparr>pcb_state := PROC_READY\<rparr>)(0x2000 := zero_pcb\<lparr>time_slice := 3\<rparr>, 0x3000 := zero_pcb\<lparr>pcb_state := PROC_READY, pcb_context := 0x7000\<rparr>),
      contexts = (\<lambda>_. zero_context), trap_frames = (\<lambda>_. zero_trap_frame), proc_list = 0xA000, ready_queue = 0x9000,
      current_proc = 0x2000, idle_proc = 0x1000, next_pid = 3, ticks = 0, tss_rsp0 = 0, if_flag = True, regs = zero_context, cpu_rsp = 0x8000,
      kernel_thread_entry = 0, user_entry_addr = 0, fork_ret_entry = 0\<rparr>"

lemma example_proc_fields:
  "l_next example_proc = (l_next example_vmm)(0x9000 := 0x3038, 0x3038 := 0x9000, 0xA000 := 0xA000)"
  "l_prev example_proc = (l_prev example_vmm)(0x9000 := 0x3038, 0x3038 := 0x9000, 0xA000 := 0xA000)"
  "pcbs example_proc = (\<lambda>_. zero_pcb\<lparr>pcb_state := PROC_READY\<rparr>)(0x2000 := zero_pcb\<lparr>time_slice := 3\<rparr>, 0x3000 := zero_pcb\<lparr>pcb_state := PROC_READY, pcb_context := 0x7000\<rparr>)"
  "ready_queue example_proc = 0x9000" "proc_list example_proc = 0xA000" "current_proc example_proc = 0x2000" "idle_proc example_proc = 0x1000"
  "cpu_rsp example_proc = 0x8000" "if_flag example_proc"
  by (simp_all add: example_proc_def vmm.extend_def)

lemma example_runs: "runs example_proc 0x2000 3 [0x3000]"
  by (simp add: runs_def sched_inv_def schedulable_def dll_def example_proc_fields zero_pcb_def)

definition example_alone :: proc where
  "example_alone = example_proc\<lparr>l_next := (\<lambda>_. 0)(0x9000 := 0x9000), l_prev := (\<lambda>_. 0)(0x9000 := 0x9000),
     pcbs := (pcbs example_proc)(0x2000 := zero_pcb\<lparr>time_slice := 1\<rparr>)\<rparr>"

lemma example_alone_runs: "runs example_alone 0x2000 (Suc 0) []"
  by (simp add: runs_def sched_inv_def schedulable_def dll_def example_alone_def example_proc_fields zero_pcb_def)

subsection \<open>Properties\<close>

text \<open>
  C21: every process in the ready queue gets the processor, in the order of the queue: with \<open>k\<close> ticks left
  to the running process, the \<open>i\<close>-th process of the queue is running after \<open>k + 10 i\<close> clock interrupts,
  with a full slice, and the processes it has overtaken are behind it in the order they ran.
\<close>

theorem clock_round_robin:
  assumes "runs s c k q" and "0 < k" and "i < length q"
  shows "\<exists>s'. run_ticks timer_callback (k + 10 * i) s = Some s' \<and> runs s' (q ! i) 10 (drop (Suc i) q @ c # take i q)"
  by (rule clock.turn_comes [OF assms])

theorem clock_round_robin_witness:
  "\<exists>s'. run_ticks timer_callback 3 example_proc = Some s' \<and> runs s' 0x3000 10 [0x2000]"
  using clock_round_robin [OF example_runs, of 0] by simp

text \<open>
  C3: in every state the scheduler's steps lead to (clock interrupts, yields, exits, new processes), the
  ready queue is a well-formed list of ready processes, none of them current, idle or queued twice, and
  the current process is not a zombie.
\<close>

theorem scheduler_invariant:
  assumes "sched_step\<^sup>*\<^sup>* s s'" and "sched_ok s"
  shows "sched_ok s'"
  using assms by (induction rule: rtranclp_induct) (auto intro: sched_step_ok)

theorem scheduler_invariant_witness: "\<exists>s'. sched_step example_proc s' \<and> sched_ok s'"
proof -
  obtain s' where s': "run_ticks timer_callback 1 example_proc = Some s'" using clock.slice_runs [OF example_runs, of 1] by auto
  then have "sched_step example_proc s'" by (intro sched_step.tick) (simp split: bind_splits)
  moreover have "sched_ok example_proc"
    using example_runs by (auto simp: sched_ok_def runs_def)
  ultimately show ?thesis using scheduler_invariant [OF r_into_rtranclp] by blast
qed



text \<open>
  C36: a process that is alone (the ready queue is empty) when its slice runs out is taken out of the queue
  again at once but stays marked ready: from then on the clock never preempts it, even when other
  processes are queued, and the next call of \<^verbatim>\<open>schedule\<close> drops it, since it is ready but neither current
  nor queued.
\<close>

theorem lone_process_is_lost:
  assumes "runs s c (Suc 0) []"
  shows "\<exists>s'. timer_callback s = Some s' \<and> current_proc s' = c \<and> pcb_state (pcbs s' c) = PROC_READY \<and> sched_inv s' []
    \<and> (\<forall>p. schedulable s' p \<longrightarrow> p \<noteq> c \<longrightarrow> pcb_state (pcbs s' p) = PROC_READY \<longrightarrow>
        (let t = list_add_before (sched_node p) (ready_queue s') s'
         in sched_inv t [p] \<and> (\<forall>n. \<exists>t'. run_ticks timer_callback n t = Some t' \<and> current_proc t' = c)
            \<and> (\<exists>u. schedule t = Some u \<and> current_proc u = p \<and> sched_inv u [] \<and> pcb_state (pcbs u c) = PROC_READY)))"
proof -
  obtain s' where s': "timer_callback s = Some s'" "current_proc s' = c" "pcb_state (pcbs s' c) = PROC_READY" "sched_inv s' []"
    by (rule lone_slice_out [OF assms]) blast
  have lost: "sched_inv t [p] \<and> (\<forall>n. \<exists>t'. run_ticks timer_callback n t = Some t' \<and> current_proc t' = c)
      \<and> (\<exists>u. schedule t = Some u \<and> current_proc u = p \<and> sched_inv u [] \<and> pcb_state (pcbs u c) = PROC_READY)"
    if p: "schedulable s' p" "p \<noteq> c" "pcb_state (pcbs s' p) = PROC_READY" and t: "t = list_add_before (sched_node p) (ready_queue s') s'" for p t
  proof -
    have "dll t (ready_queue s') [sched_node p]" unfolding t
      using p s'(4) kq.repr_enq [of s' "ready_queue s'" "[]" "sched_node p"] by (simp add: sched_inv_def schedulable_def)
    then have inv: "sched_inv t [p]" using s' p by (auto simp: sched_inv_def schedulable_def t)
    have st: "pcb_state (pcbs t (current_proc t)) = PROC_READY" "current_proc t = c" using s' t by simp_all
    have gone: "\<not> keeps_running t" and rq: "requeued t [p] = [p]" using st by (simp_all add: requeued_def)
    have "\<exists>u. schedule t = Some u \<and> current_proc u = p \<and> sched_inv u [] \<and> pcb_state (pcbs u c) = PROC_READY"
    proof (rule schedule_next [OF inv gone rq])
      fix t1 assume t1: "schedule t = Some (if p = current_proc t then sched_restore (if_flag t) t1 else sched_switch (current_proc t) p t1)"
        "dll t1 (ready_queue t1) (map sched_node [])" "ready_queue t1 = ready_queue t" "idle_proc t1 = idle_proc t"
        "pcbs t1 = pcbs (sched_requeue (current_proc t) t)"
      have pc: "pcbs t1 = pcbs t" using t1(5) st by (simp add: sched_requeue_def)
      have "sched_inv (sched_switch c p t1) []"
        using t1 p inv by (intro sched_switch_inv) (auto simp: sched_inv_def schedulable_def)
      then show ?thesis using t1(1) st p(2) pc by (simp add: sched_switch_fields)
    qed
    moreover have "\<forall>n. \<exists>t'. run_ticks timer_callback n t = Some t' \<and> current_proc t' = c" using ticks_ignored [of t] st by simp
    ultimately show ?thesis using inv by blast
  qed
  show ?thesis using s' lost unfolding Let_def by blast
qed

theorem lone_process_is_lost_witness:
  "\<exists>s'. timer_callback example_alone = Some s' \<and> current_proc s' = 0x2000 \<and> pcb_state (pcbs s' 0x2000) = PROC_READY"
  using lone_process_is_lost [OF example_alone_runs] by blast



text \<open>
  For every frequency of at least 19 Hz the two bytes \<^verbatim>\<open>init_timer\<close> sends to the interval timer make up
  the divisor of its base frequency (below, the divisor needs more than 16 bits and its top is lost),
  and interrupt request 0 is unmasked with the other mask bits kept.
\<close>

theorem init_timer_programs:
  assumes "19 \<le> frequency"
  shows "\<exists>low high m. init_timer frequency imr = Some [(0x43, 0x36), (0x40, low), (0x40, high), (0x21, m)]
    \<and> unat low + 256 * unat high = 1193180 div unat frequency
    \<and> \<not> bit m 0 \<and> (\<forall>i. 0 < i \<longrightarrow> i < 8 \<longrightarrow> bit m i = bit imr i)"
proof -
  let ?d = "1193180 div frequency"
  have f: "19 \<le> unat frequency" using assms by (simp add: word_le_nat_alt)
  have d: "unat ?d = 1193180 div unat frequency" by (simp add: unat_div)
  have le: "1193180 div unat frequency \<le> 1193180 div 19" using f by (rule div_le_mono2 [rotated]) simp
  have lo: "unat (ucast (?d AND 0xFF) :: u8) = unat ?d mod 256" by (simp add: unat_low_byte)
  have hi: "unat (ucast (drop_bit 8 ?d AND 0xFF) :: u8) = unat ?d div 256 mod 256"
    by (simp only: unat_low_byte) (simp add: unat_drop_bit_eq drop_bit_eq_div unat_div)
  have nz: "frequency \<noteq> 0" using assms by auto
  show ?thesis using nz lo hi d le
    by (simp add: init_timer_def Let_def) (auto simp: bit_simps)
qed

theorem init_timer_programs_witness: "\<exists>low high m. init_timer 20 0xFF = Some [(0x43, 0x36), (0x40, low), (0x40, high), (0x21, m)]
    \<and> unat low + 256 * unat high = 59659"
  using init_timer_programs [of 20 "0xFF"] by auto

end
