(* ===== verification/Layers.thy ===== *)
theory Layers
  imports Sched
begin

text \<open>
  Frame lemmas: the physical memory manager, the page tables, the heap, the kernel stacks and the
  address spaces leave the state of the layers above them alone, on every run that ends.
\<close>

named_theorems layers \<open>the state above the heap is not changed\<close>

lemma list_ops_layers [layers]:
  "kheap.more (list_init x s) = kheap.more s" "kheap.more (list_add_before x h s) = kheap.more s"
  "kheap.more (list_add_after x h s) = kheap.more s" "kheap.more (list_del x s) = kheap.more s"
  by (simp_all add: list_init_def list_add_before_def list_add_after_def list_del_def list_add_between_def Let_def)

lemma pmm_ops_layers [layers]:
  "kheap.more (snd (pmm_alloc_page s)) = kheap.more s" "kheap.more (pmm_free_page pa s) = kheap.more s"
proof -
  show "kheap.more (snd (pmm_alloc_page s)) = kheap.more s"
    by (simp add: pmm_alloc_page_def pmm_take_def bit_set_def Let_def split: option.split)
  show "kheap.more (pmm_free_page pa s) = kheap.more s"
    by (simp add: pmm_free_page_def bit_unset_def Let_def)
qed

lemma paging_ops_layers [layers]:
  "kheap.more (snd (get_next_table t i al fl s)) = kheap.more s" "kheap.more (vmm_map_page r va pa fl s) = kheap.more s"
proof -
  show g: "kheap.more (snd (get_next_table t i al fl s)) = kheap.more s" for t i al fl s
    by (simp add: get_next_table_def Let_def case_prod_unfold layers)
  show "kheap.more (vmm_map_page r va pa fl s) = kheap.more s"
    by (simp add: vmm_map_page_def Let_def case_prod_unfold g)
qed

lemma kfree_layers [layers]: "kheap.more (kfree p s) = kheap.more s"
  by (simp add: kfree_def kfree_merge_next_def kfree_merge_prev_def Let_def layers)

lemma kheap_expand_loop_layers [layers]: "kheap.more (snd (kheap_expand_loop n i s)) = kheap.more s"
proof (induction n i s rule: kheap_expand_loop.induct)
  case (1 n i s)
  have add: "kheap.more (kheap_add_page pa s) = kheap.more s" for pa and s :: "'a kheap_scheme"
    by (simp add: kheap_add_page_def Let_def layers)
  show ?case using 1 by (subst kheap_expand_loop.simps) (auto simp: case_prod_unfold layers add)
qed

lemma kmalloc_layers: "kmalloc req s = Some (p, s') \<Longrightarrow> kheap.more s' = kheap.more s"
proof (induction req s arbitrary: p s' rule: kmalloc.induct)
  case (1 req s)
  let ?sz = "ALIGN_UP req 8"
  have tk: "kheap.more (take_block t n s) = kheap.more s" for t n by (simp add: take_block_def Let_def layers)
  have ex: "kheap.more (snd (kheap_expand n s)) = kheap.more s" for n by (simp add: kheap_expand_def layers)
  obtain target where ff: "first_fit s ?sz = Some target" using "1.prems" by (cases "first_fit s ?sz") (simp_all add: kmalloc.simps [of req s])
  show ?case
  proof (cases "target = 0 \<and> fst (kheap_expand (pages_needed ?sz) s)")
    case True
    have "kmalloc ?sz (snd (kheap_expand (pages_needed ?sz) s)) = Some (p, s')"
      using "1.prems" True by (simp add: kmalloc.simps [of req s] ff case_prod_unfold Let_def)
    then have "kheap.more s' = kheap.more (snd (kheap_expand (pages_needed ?sz) s))"
      using "1.IH" [OF refl ff _ prod.collapse] True by simp
    then show ?thesis by (simp add: ex)
  next
    case False
    then show ?thesis using "1.prems" ex tk
      by (auto simp: kmalloc.simps [of req s] ff case_prod_unfold Let_def split: if_splits)
  qed
qed

text \<open>Loops that may run forever: by induction on the approximations of the loop, for the runs that end.\<close>

lemma kstack_map_loop_layers:
  assumes "kstack_map_loop v stop s = Some y"
  shows "kheap.more (snd y) = kheap.more s"
proof (rule kstack_map_loop.raw_induct [OF _ assms, where P = "\<lambda>v stop s y. kheap.more (snd y) = kheap.more s"], goal_cases)
  case (1 loop v stop s y)
  show ?case
  proof (cases "v < stop \<and> fst (pmm_alloc_page s) \<noteq> 0")
    case True
    then show ?thesis using 1(2) by (auto simp: case_prod_unfold layers dest!: 1(1))
  next
    case False
    then show ?thesis using 1(2) by (auto simp: case_prod_unfold layers split: if_splits)
  qed
qed

lemma kstack_init_layers: "kstack_init sz s = Some (p, s') \<Longrightarrow> kheap.more s' = kheap.more s"
  by (auto simp: kstack_init_def Let_def dest!: kstack_map_loop_layers)

lemma kstack_free_loop_layers:
  assumes "kstack_free_loop v stop s = Some s'"
  shows "kheap.more s' = kheap.more s"
proof (rule kstack_free_loop.raw_induct [OF _ assms, where P = "\<lambda>v stop s s'. kheap.more s' = kheap.more s"], goal_cases)
  case (1 loop v stop s y)
  have "kheap.more (kstack_unmap v s) = kheap.more s" by (simp add: kstack_unmap_def Let_def layers)
  then show ?case using 1(2) by (auto split: if_splits dest!: 1(1))
qed

subsubsection \<open>Address spaces\<close>

text \<open>The operations on address spaces keep the layers above them.\<close>

lemma vmm_layer:
  assumes "kheap.more s' = kheap.more s"
  shows "mms s' = mms s" "vmas s' = vmas s" "vmm.more s' = vmm.more s"
  using assms by (cases s; cases s'; simp)+

lemmas kheap_keeps = layers [THEN vmm_layer(3)] kmalloc_layers [THEN vmm_layer(3)] kstack_init_layers [THEN vmm_layer(3)]
  kstack_free_loop_layers [THEN vmm_layer(3)]

lemma mm_ops_layers [simp]: "vmm.more (set_mm mm f s) = vmm.more s" "vmm.more (unmap_page r va s) = vmm.more s"
  by (simp_all add: set_mm_def unmap_page_def Let_def kheap_keeps)

lemma rollback_loop_layers: "vmm.more (rollback_loop r start i j s) = vmm.more s"
  by (induction r start i j s rule: rollback_loop.induct) (subst rollback_loop.simps, simp)

lemma map_range_loop_layers: "vmm.more (snd (map_range_loop r vma start fl pages i s)) = vmm.more s"
proof (induction r vma start fl pages i s rule: map_range_loop.induct)
  case (1 r vma start fl pages i s)
  then show ?case by (subst map_range_loop.simps) (auto simp: case_prod_unfold kheap_keeps rollback_loop_layers)
qed

lemma mm_map_range_layers: "mm_map_range mm va sz fl s = Some (ok, s') \<Longrightarrow> vmm.more s' = vmm.more s"
proof -
  assume run: "mm_map_range mm va sz fl s = Some (ok, s')"
  show ?thesis
  proof (cases "mm = 0 \<or> sz = 0")
    case True
    then show ?thesis using run by (simp add: mm_map_range_def)
  next
    case False
    then obtain vma s1 where km: "kmalloc sizeof_vma_struct s = Some (vma, s1)"
      using run by (cases "kmalloc sizeof_vma_struct s") (auto simp: mm_map_range_def Let_def)
    have "vmm.more s1 = vmm.more s" by (rule vmm_layer(3) [OF kmalloc_layers [OF km]])
    then show ?thesis using run False km
      by (auto simp: mm_map_range_def Let_def kheap_keeps map_range_loop_layers split: if_splits dest!: arg_cong [of _ _ snd])
  qed
qed

lemma mm_alloc_layers:
  assumes run: "mm_alloc s = Some (mm, s')"
  shows "vmm.more s' = vmm.more s"
proof -
  obtain m s1 where km: "kmalloc sizeof_mm_struct s = Some (m, s1)"
    using run by (cases "kmalloc sizeof_mm_struct s") (auto simp: mm_alloc_def)
  have "vmm.more s1 = vmm.more s" by (rule vmm_layer(3) [OF kmalloc_layers [OF km]])
  then show ?thesis using run
    by (auto simp: mm_alloc_def km Let_def case_prod_unfold kheap_keeps list_init_def split: if_splits)
qed

lemma free_vmas_layers:
  assumes "free_vmas node head s = Some s'"
  shows "vmm.more s' = vmm.more s"
proof (rule free_vmas.raw_induct [OF _ assms, where P = "\<lambda>node head s s'. vmm.more s' = vmm.more s"], goal_cases)
  case (1 loop node head s y)
  then show ?case by (auto simp: kheap_keeps split: if_splits dest!: 1(1))
qed

lemma pgtable_free_loop_layers: "kheap.more (pgtable_free_loop level t i s) = kheap.more s"
proof (induction level t i s rule: pgtable_free_loop.induct)
  case (1 level t i s)
  then show ?case by (subst pgtable_free_loop.simps) (auto simp: Let_def layers)
qed

lemma mm_free_layers: "mm_free mm s = Some s' \<Longrightarrow> vmm.more s' = vmm.more s"
  by (auto simp: mm_free_def Let_def kheap_keeps user_pgtable_free_recursive_def vmm_layer(3) [OF pgtable_free_loop_layers]
      dest!: free_vmas_layers split: if_splits)

lemma copy_page_layers: "copy_page dst src va s = Some s' \<Longrightarrow> vmm.more s' = vmm.more s"
  by (auto simp: copy_page_def Let_def split: if_splits)

lemma copy_pages_layers:
  assumes "copy_pages dst src va stop s = Some y"
  shows "vmm.more (snd y) = vmm.more s"
proof (rule copy_pages.raw_induct [OF _ assms, where P = "\<lambda>dst src va stop s y. vmm.more (snd y) = vmm.more s"], goal_cases)
  case (1 loop dst src va stop s y)
  show ?case using 1(2) by (auto split: if_splits option.splits dest!: 1(1) copy_page_layers)
qed

lemma copy_vmas_layers:
  assumes "copy_vmas dst src node s = Some y"
  shows "vmm.more (snd y) = vmm.more s"
proof (rule copy_vmas.raw_induct [OF _ assms, where P = "\<lambda>dst src node s y. vmm.more (snd y) = vmm.more s"], goal_cases)
  case (1 loop dst src node s y)
  show ?case using 1(2)
    by (auto simp: Let_def split: if_splits bind_splits dest!: 1(1) mm_map_range_layers copy_pages_layers)
qed

lemma mm_copy_layers: "mm_copy dst src s = Some (ok, s') \<Longrightarrow> vmm.more s' = vmm.more s"
  by (auto simp: mm_copy_def split: if_splits bind_splits dest!: copy_vmas_layers mm_free_layers)

text \<open>What keeping the layers above means for the process layer.\<close>

lemma proc_layer:
  assumes "vmm.more s' = vmm.more s"
  shows "pcbs s' = pcbs s" "contexts s' = contexts s" "trap_frames s' = trap_frames s" "proc_list s' = proc_list s"
    "ready_queue s' = ready_queue s" "current_proc s' = current_proc s" "idle_proc s' = idle_proc s" "next_pid s' = next_pid s"
    "ticks s' = ticks s" "tss_rsp0 s' = tss_rsp0 s" "if_flag s' = if_flag s" "regs s' = regs s" "cpu_rsp s' = cpu_rsp s"
    "kernel_thread_entry s' = kernel_thread_entry s" "user_entry_addr s' = user_entry_addr s" "fork_ret_entry s' = fork_ret_entry s"
    "proc.more s' = proc.more s"
  using assms by (cases s; cases s'; simp)+

end
