(* ===== verification/Proc.thy ===== *)
theory Proc
  imports Layers
begin

text \<open>
  Creating and destroying processes, \<^verbatim>\<open>proc/proc.c\<close>: the idle process, kernel threads, user processes
  loaded from an ELF image, \<^verbatim>\<open>fork\<close> and the release of a process. The image and the name strings lie in
  byte memory at kernel addresses; the loader writes the segments at user virtual addresses, which the
  processor translates with the page table in \<^verbatim>\<open>cr3\<close> (a write to an unmapped address faults, the value
  \<open>None\<close>).
\<close>

abbreviation (input) PROCNAME_LEN :: u64 where "PROCNAME_LEN \<equiv> 32"
abbreviation (input) USER_STACK_TOP :: u64 where "USER_STACK_TOP \<equiv> 0x80000000"
abbreviation (input) USER_STACK_SIZE :: u64 where "USER_STACK_SIZE \<equiv> 4 * PAGE_SIZE"

subsection \<open>Process control blocks\<close>

definition get_next_pid :: "'a proc_scheme \<Rightarrow> int \<times> 'a proc_scheme" where
  "get_next_pid s = (next_pid s, s\<lparr>next_pid := next_pid s + 1\<rparr>)"

definition set_proc_name :: "u64 \<Rightarrow> u64 \<Rightarrow> 'a proc_scheme \<Rightarrow> 'a proc_scheme" where
  "set_proc_name p name s =
     (let m = strncpy (kmem s) (proc_name p) name PROCNAME_LEN in s\<lparr>kmem := m(proc_name p + PROCNAME_LEN := 0)\<rparr>)"

text \<open>
  \<^verbatim>\<open>memset\<close> of a PCB clears its fields, its two list nodes and its name. It comes before the caller's test
  for \<^verbatim>\<open>NULL\<close>, so a failed \<^verbatim>\<open>kmalloc\<close> ends in a page fault.
\<close>

definition clear_pcb :: "u64 \<Rightarrow> 'a proc_scheme \<Rightarrow> 'a proc_scheme" where
  "clear_pcb p s = s\<lparr>pcbs := (pcbs s)(p := zero_pcb),
     l_next := (l_next s)(proc_list_node p := 0, sched_node p := 0),
     l_prev := (l_prev s)(proc_list_node p := 0, sched_node p := 0),
     kmem := memset (kmem s) (proc_name p) 0 (PROCNAME_LEN + 1)\<rparr>"

definition alloc_new_pcb :: "'a proc_scheme \<Rightarrow> (u64 \<times> 'a proc_scheme) option" where
  "alloc_new_pcb s =
     Option.bind (kmalloc sizeof_pcb s)
       (\<lambda>(p, s1).
          if p = 0 then None
          else case get_next_pid (clear_pcb p s1) of (n, s2) \<Rightarrow>
            Some (p, set_pcb p (\<lambda>r. r\<lparr>pid := n, time_slice := TIME_SLICE_DEFAULT, pcb_rsp := 0, kstack_base := 0, pcb_context := 0,
              pcb_trap_frame := 0, pcb_mm := 0, parent := 0, pcb_state := PROC_READY, exit_code := 0, total_runtime := 0, cwd_inode := 0\<rparr>) s2))"

text \<open>The argument is the address of the string literal \<^verbatim>\<open>"idle"\<close>.\<close>

definition proc_init :: "u64 \<Rightarrow> 'a proc_scheme \<Rightarrow> 'a proc_scheme option" where
  "proc_init idle_name s =
     Option.bind (alloc_new_pcb (list_init (ready_queue s) (list_init (proc_list s) s)))
       (\<lambda>(idle, s1).
          if idle = 0 then None
          else
            let s2 = set_pcb idle (\<lambda>r. r\<lparr>pcb_state := PROC_RUNNING\<rparr>) (set_proc_name idle idle_name s1);
                s3 = list_add_after (proc_list_node idle) (proc_list s2) (s2\<lparr>current_proc := idle\<rparr>)
            in Some (s3\<lparr>idle_proc := idle\<rparr>))"

text \<open>The two insertions that end the creation of every process but idle.\<close>

definition proc_enqueue :: "u64 \<Rightarrow> 'a proc_scheme \<Rightarrow> 'a proc_scheme" where
  "proc_enqueue p s =
     (let s1 = list_add_after (proc_list_node p) (proc_list s) s in list_add_before (sched_node p) (ready_queue s1) s1)"

subsection \<open>Kernel threads\<close>

definition kthread_create :: "u64 \<Rightarrow> u64 \<Rightarrow> u64 \<Rightarrow> u64 \<Rightarrow> 'a proc_scheme \<Rightarrow> (u64 \<times> 'a proc_scheme) option" where
  "kthread_create par name kthread_func arg s =
     Option.bind (alloc_new_pcb s)
       (\<lambda>(p, s1).
          if p = 0 then Some (0, s1)
          else if par = 0 then None
          else
            let s2 = set_pcb p (\<lambda>r. r\<lparr>parent := par, pcb_state := PROC_READY, pcb_mm := pcb_mm (pcbs s1 par)\<rparr>) (set_proc_name p name s1)
            in Option.bind (kstack_init KSTACK_SIZE s2)
              (\<lambda>(kstack_top, s3).
                 if kstack_top = 0 then Some (0, kfree p s3)
                 else
                   let ctx = kstack_top - sizeof_context;
                       s4 = set_pcb p (\<lambda>r. r\<lparr>kstack_base := kstack_top - KSTACK_SIZE, pcb_context := ctx, pcb_rsp := ctx\<rparr>) s3;
                       s5 = s4\<lparr>contexts := (contexts s4)(ctx := zero_context\<lparr>c_rip := kernel_thread_entry s4, c_rdi := arg, c_rbx := kthread_func\<rparr>)\<rparr>
                   in Some (p, proc_enqueue p s5)))"

subsection \<open>Releasing a process\<close>

text \<open>A list node is only unlinked when it has been linked: its fields are zero before.\<close>

definition unlink_node :: "u64 \<Rightarrow> 'a proc_scheme \<Rightarrow> 'a proc_scheme" where
  "unlink_node n s = (if l_prev s n \<noteq> 0 \<and> l_next s n \<noteq> 0 then list_del n s else s)"

definition free_proc :: "u64 \<Rightarrow> 'a proc_scheme \<Rightarrow> 'a proc_scheme option" where
  "free_proc p s =
     (if p = 0 then Some s
      else
        let s1 = unlink_node (sched_node p) (unlink_node (proc_list_node p) s)
        in Option.bind (if kstack_base (pcbs s1 p) \<noteq> 0 then kstack_free (kstack_base (pcbs s1 p)) s1 else Some s1)
          (\<lambda>s2. Option.bind (if pcb_mm (pcbs s2 p) \<noteq> 0 then mm_free (pcb_mm (pcbs s2 p)) s2 else Some s2)
             (\<lambda>s3. Some (kfree p s3))))"

subsection \<open>User memory\<close>

definition user_write :: "u64 \<Rightarrow> u8 \<Rightarrow> 'a paging_scheme \<Rightarrow> 'a paging_scheme option" where
  "user_write va b s =
     (case translate s (cr3 s) va of None \<Rightarrow> None | Some pa \<Rightarrow> Some (s\<lparr>kmem := (kmem s)(pa2kva s pa := b)\<rparr>))"

text \<open>\<^verbatim>\<open>memset\<close> and \<^verbatim>\<open>memcpy\<close> with a destination in user space (and a source at a kernel address).\<close>

function user_memset :: "u64 \<Rightarrow> u8 \<Rightarrow> u64 \<Rightarrow> 'a paging_scheme \<Rightarrow> 'a paging_scheme option" where
  "user_memset va b n s =
     (if n = 0 then Some s
      else case user_write va b s of None \<Rightarrow> None | Some s1 \<Rightarrow> user_memset (va + 1) b (n - 1) s1)"
  by pat_completeness auto
termination
  by (relation "measure (\<lambda>(va, b, n, s). unat n)") simp_all

function user_memcpy :: "u64 \<Rightarrow> u64 \<Rightarrow> u64 \<Rightarrow> 'a paging_scheme \<Rightarrow> 'a paging_scheme option" where
  "user_memcpy va src n s =
     (if n = 0 then Some s
      else case user_write va (kmem s src) s of None \<Rightarrow> None | Some s1 \<Rightarrow> user_memcpy (va + 1) (src + 1) (n - 1) s1)"
  by pat_completeness auto
termination
  by (relation "measure (\<lambda>(va, src, n, s). unat n)") simp_all

declare user_memset.simps [simp del] user_memcpy.simps [simp del]

subsection \<open>The ELF loader\<close>

definition read16 :: "mem \<Rightarrow> u64 \<Rightarrow> u16" where
  "read16 m a = ucast (m a) OR push_bit 8 (ucast (m (a + 1)))"

definition read32 :: "mem \<Rightarrow> u64 \<Rightarrow> u32" where
  "read32 m a = ucast (m a) OR push_bit 8 (ucast (m (a + 1))) OR push_bit 16 (ucast (m (a + 2))) OR push_bit 24 (ucast (m (a + 3)))"

text \<open>The fields of the file header and of a program header that the loader reads, at their offsets.\<close>

record Elf64_Ehdr =
  e_magic :: "u8 list"
  e_entry :: u64
  e_phoff :: u64
  e_phnum :: u16

record Elf64_Phdr =
  p_type :: u32
  p_flags :: u32
  p_offset :: u64
  p_vaddr :: u64
  p_filesz :: u64
  p_memsz :: u64

definition read_ehdr :: "mem \<Rightarrow> u64 \<Rightarrow> Elf64_Ehdr" where
  "read_ehdr m a = \<lparr>e_magic = [m a, m (a + 1), m (a + 2), m (a + 3)], e_entry = read64 m (a + 24), e_phoff = read64 m (a + 32),
     e_phnum = read16 m (a + 56)\<rparr>"

definition read_phdr :: "mem \<Rightarrow> u64 \<Rightarrow> Elf64_Phdr" where
  "read_phdr m a = \<lparr>p_type = read32 m a, p_flags = read32 m (a + 4), p_offset = read64 m (a + 8), p_vaddr = read64 m (a + 16),
     p_filesz = read64 m (a + 32), p_memsz = read64 m (a + 40)\<rparr>"

abbreviation (input) sizeof_Elf64_Phdr :: u64 where "sizeof_Elf64_Phdr \<equiv> 56"
abbreviation (input) PT_LOAD :: u32 where "PT_LOAD \<equiv> 1"
abbreviation (input) PF_X :: u32 where "PF_X \<equiv> 1"

definition elf_magic :: "u8 list" where "elf_magic = [0x7F, 69, 76, 70]"

text \<open>The body of the loop over the program headers: \<open>False\<close> when the segment could not be mapped.\<close>

definition load_segment :: "u64 \<Rightarrow> u64 \<Rightarrow> u64 \<Rightarrow> 'a proc_scheme \<Rightarrow> (bool \<times> 'a proc_scheme) option" where
  "load_segment p elf_data phdr s =
     (let h = read_phdr (kmem s) phdr
      in if p_type h = PT_LOAD
         then let flags = VM_READ OR VM_WRITE OR (if p_flags h AND PF_X \<noteq> 0 then VM_EXEC else 0)
              in Option.bind (mm_map_range (pcb_mm (pcbs s p)) (p_vaddr h) (p_memsz h) flags s)
                (\<lambda>(ok, s1).
                   if \<not> ok then Some (False, s1)
                   else
                     let h1 = read_phdr (kmem s1) phdr
                     in Option.bind (user_memset (p_vaddr h1) 0 (p_memsz h1) s1)
                       (\<lambda>s2. let h2 = read_phdr (kmem s2) phdr
                             in map_option (Pair True) (user_memcpy (p_vaddr h2) (elf_data + p_offset h2) (p_filesz h2) s2)))
         else Some (True, s))"

function load_segments :: "u64 \<Rightarrow> u64 \<Rightarrow> u64 \<Rightarrow> nat \<Rightarrow> nat \<Rightarrow> 'a proc_scheme \<Rightarrow> (bool \<times> 'a proc_scheme) option" where
  "load_segments p elf_data phdr i phnum s =
     (if i < phnum
      then case load_segment p elf_data (phdr + sizeof_Elf64_Phdr * of_nat i) s of
             None \<Rightarrow> None
           | Some (ok, s1) \<Rightarrow> if ok then load_segments p elf_data phdr (Suc i) phnum s1 else Some (False, s1)
      else Some (True, s))"
  by pat_completeness auto
termination
  by (relation "measure (\<lambda>(p, e, h, i, n, s). n - i)") simp_all

declare load_segments.simps [simp del]

definition load_elf :: "u64 \<Rightarrow> u64 \<Rightarrow> 'a proc_scheme \<Rightarrow> (u64 \<times> 'a proc_scheme) option" where
  "load_elf p elf_data s =
     (let ehdr = read_ehdr (kmem s) elf_data
      in if e_magic ehdr \<noteq> elf_magic then Some (0, s)
         else if pcb_mm (pcbs s p) = 0 then None
         else
           let old_cr3 = cr3 s;
               s1 = s\<lparr>cr3 := mm_pml4_pa (mms s (pcb_mm (pcbs s p)))\<rparr>
           in map_option
                (\<lambda>(ok, s2). (if ok then e_entry (read_ehdr (kmem s2) elf_data) else 0, s2\<lparr>cr3 := old_cr3\<rparr>))
                (load_segments p elf_data (elf_data + e_phoff ehdr) 0 (unat (e_phnum ehdr)) s1))"

subsection \<open>User processes\<close>

text \<open>The last part of \<^verbatim>\<open>create_user_process\<close>: the kernel stack with the context that leads to user mode.\<close>

definition user_kstack :: "u64 \<Rightarrow> u64 \<Rightarrow> 'a proc_scheme \<Rightarrow> (u64 \<times> 'a proc_scheme) option" where
  "user_kstack p entry_point s =
     Option.bind (kstack_init KSTACK_SIZE s)
       (\<lambda>(kstack_top, s1).
          if kstack_top = 0 then map_option (Pair 0) (free_proc p s1)
          else
            let ctx = kstack_top - sizeof_context;
                s2 = set_pcb p (\<lambda>r. r\<lparr>kstack_base := kstack_top - KSTACK_SIZE, pcb_rsp := ctx, pcb_context := ctx, pcb_trap_frame := 0, pcb_state := PROC_READY\<rparr>) s1;
                s3 = s2\<lparr>contexts := (contexts s2)(ctx := zero_context\<lparr>c_rip := user_entry_addr s2, c_r12 := entry_point, c_r13 := USER_STACK_TOP\<rparr>)\<rparr>
            in Some (p, proc_enqueue p s3))"

text \<open>Mapping and clearing the user stack, with the address space of the new process loaded.\<close>

definition user_stack :: "u64 \<Rightarrow> 'a proc_scheme \<Rightarrow> (bool \<times> 'a proc_scheme) option" where
  "user_stack p s =
     (let old_cr3 = cr3 s;
          s1 = s\<lparr>cr3 := mm_pml4_pa (mms s (pcb_mm (pcbs s p)))\<rparr>;
          base = USER_STACK_TOP - USER_STACK_SIZE
      in Option.bind (mm_map_range (pcb_mm (pcbs s1 p)) base USER_STACK_SIZE (VM_READ OR VM_WRITE OR VM_STACK) s1)
           (\<lambda>(ok, s2).
              if \<not> ok then Some (False, s2\<lparr>cr3 := old_cr3\<rparr>)
              else map_option (\<lambda>s3. (True, s3\<lparr>cr3 := old_cr3\<rparr>)) (user_memset base 0 USER_STACK_SIZE s2)))"

definition create_user_process :: "u64 \<Rightarrow> u64 \<Rightarrow> u64 \<Rightarrow> 'a proc_scheme \<Rightarrow> (u64 \<times> 'a proc_scheme) option" where
  "create_user_process name elf_data sz s =
     Option.bind (alloc_new_pcb s)
       (\<lambda>(p, s1).
          if p = 0 then Some (0, s1)
          else Option.bind (mm_alloc (set_proc_name p name s1))
            (\<lambda>(mm, s2).
               let s3 = set_pcb p (\<lambda>r. r\<lparr>pcb_mm := mm\<rparr>) s2
               in if mm = 0 then Some (0, kfree p s3)
                  else Option.bind (load_elf p elf_data s3)
                    (\<lambda>(entry_point, s4).
                       if entry_point = 0
                       then Option.bind (mm_free (pcb_mm (pcbs s4 p)) s4)
                              (\<lambda>s5. map_option (Pair 0) (free_proc p (set_pcb p (\<lambda>r. r\<lparr>pcb_mm := 0\<rparr>) s5)))
                       else Option.bind (user_stack p s4)
                              (\<lambda>(ok, s5). if \<not> ok then map_option (Pair 0) (free_proc p s5) else user_kstack p entry_point s5))))"

text \<open>\<^verbatim>\<open>init_userproc\<close> hangs when the first process cannot be made.\<close>

definition init_userproc :: "u64 \<Rightarrow> u64 \<Rightarrow> u64 \<Rightarrow> 'a proc_scheme \<Rightarrow> 'a proc_scheme option" where
  "init_userproc init_name addr sz s =
     Option.bind (create_user_process init_name addr sz s) (\<lambda>(p, s1). if p = 0 then None else Some s1)"

text \<open>
  \<^verbatim>\<open>user_entry\<close> runs on the registers the switch has restored; the result is the instruction and stack
  pointer with which user mode is entered.
\<close>

definition user_entry :: "'a proc_scheme \<Rightarrow> (u64 \<times> u64 \<times> 'a proc_scheme) option" where
  "user_entry s =
     (if current_proc s = 0 then None
      else Some (c_r12 (regs s), c_r13 (regs s), set_tss_stack (kstack_base (pcbs s (current_proc s)) + KSTACK_SIZE) s))"

subsection \<open>Fork\<close>

text \<open>The child's kernel stack: the parent's trap frame with 0 in \<^verbatim>\<open>rax\<close>, and below it a context that returns through it.\<close>

definition fork_kstack :: "u64 \<Rightarrow> u64 \<Rightarrow> 'a proc_scheme \<Rightarrow> (int \<times> 'a proc_scheme) option" where
  "fork_kstack par child s =
     Option.bind (kstack_init KSTACK_SIZE s)
       (\<lambda>(kstack_top, s1).
          if kstack_top = 0 then map_option (Pair (-1)) (free_proc child s1)
          else
            let child_tf = kstack_top - sizeof_trap_frame;
                ctx = child_tf - sizeof_context;
                s2 = s1\<lparr>trap_frames := (trap_frames s1)(child_tf := (trap_frames s1 (pcb_trap_frame (pcbs s1 par)))\<lparr>tf_rax := 0\<rparr>)\<rparr>;
                s3 = s2\<lparr>contexts := (contexts s2)(ctx := (contexts s2 ctx)\<lparr>c_rip := fork_ret_entry s2\<rparr>)\<rparr>;
                s4 = set_pcb child (\<lambda>r. r\<lparr>kstack_base := kstack_top - KSTACK_SIZE, pcb_rsp := ctx, pcb_trap_frame := child_tf, pcb_context := ctx, pcb_state := PROC_READY\<rparr>) s3
            in Some (pid (pcbs s4 child), proc_enqueue child s4))"

definition sys_fork :: "'a proc_scheme \<Rightarrow> (int \<times> 'a proc_scheme) option" where
  "sys_fork s =
     (let par = current_proc s
      in Option.bind (alloc_new_pcb s)
        (\<lambda>(child, s1).
           if par = 0 then None
           else
             let s2 = set_pcb child (\<lambda>r. r\<lparr>cwd_inode := cwd_inode (pcbs s1 par)\<rparr>) s1;
                 s3 = set_pcb child (\<lambda>r. r\<lparr>parent := par\<rparr>) (set_proc_name child (proc_name par) s2)
             in Option.bind (mm_alloc s3)
               (\<lambda>(mm, s4).
                  let s5 = set_pcb child (\<lambda>r. r\<lparr>pcb_mm := mm\<rparr>) s4
                  in Option.bind (mm_copy mm (pcb_mm (pcbs s5 par)) s5)
                    (\<lambda>(ok, s6). if \<not> ok then map_option (Pair (-1)) (free_proc child s6) else fork_kstack par child s6))))"

subsection \<open>What the process operations do\<close>

lemma alloc_new_pcb_spec:
  assumes "kmalloc sizeof_pcb s = Some (c, s0)" and "c \<noteq> 0"
  shows "\<exists>s1. alloc_new_pcb s = Some (c, s1) \<and> next_pid s1 = next_pid s + 1
    \<and> pcbs s1 = (pcbs s)(c := zero_pcb\<lparr>pid := next_pid s, time_slice := TIME_SLICE_DEFAULT, pcb_state := PROC_READY\<rparr>)
    \<and> contexts s1 = contexts s \<and> trap_frames s1 = trap_frames s \<and> current_proc s1 = current_proc s \<and> ready_queue s1 = ready_queue s
    \<and> proc_list s1 = proc_list s \<and> fork_ret_entry s1 = fork_ret_entry s \<and> idle_proc s1 = idle_proc s \<and> kernel_thread_entry s1 = kernel_thread_entry s"
proof -
  note k = proc_layer [OF vmm_layer(3) [OF kmalloc_layers [OF assms(1)]]]
  show ?thesis using assms
    by (simp add: alloc_new_pcb_def get_next_pid_def clear_pcb_def set_pcb_def zero_pcb_def k fun_upd_def [symmetric])
qed

lemma set_proc_name_fields [simp]:
  "pcbs (set_proc_name p n s) = pcbs s" "contexts (set_proc_name p n s) = contexts s" "trap_frames (set_proc_name p n s) = trap_frames s"
  "current_proc (set_proc_name p n s) = current_proc s" "ready_queue (set_proc_name p n s) = ready_queue s" "next_pid (set_proc_name p n s) = next_pid s"
  "proc_list (set_proc_name p n s) = proc_list s" "fork_ret_entry (set_proc_name p n s) = fork_ret_entry s" "mms (set_proc_name p n s) = mms s"
  "l_next (set_proc_name p n s) = l_next s" "l_prev (set_proc_name p n s) = l_prev s" "kernel_thread_entry (set_proc_name p n s) = kernel_thread_entry s"
  by (simp_all add: set_proc_name_def Let_def)

lemma set_pcb_more_fields [simp]:
  "trap_frames (set_pcb p f s) = trap_frames s" "next_pid (set_pcb p f s) = next_pid s" "proc_list (set_pcb p f s) = proc_list s"
  "fork_ret_entry (set_pcb p f s) = fork_ret_entry s" "kernel_thread_entry (set_pcb p f s) = kernel_thread_entry s" "kmem (set_pcb p f s) = kmem s"
  by (simp_all add: set_pcb_def)

lemma proc_enqueue_fields [simp]:
  "pcbs (proc_enqueue p s) = pcbs s" "contexts (proc_enqueue p s) = contexts s" "trap_frames (proc_enqueue p s) = trap_frames s"
  "current_proc (proc_enqueue p s) = current_proc s" "next_pid (proc_enqueue p s) = next_pid s" "ready_queue (proc_enqueue p s) = ready_queue s"
  "idle_proc (proc_enqueue p s) = idle_proc s"
  by (simp_all add: proc_enqueue_def Let_def list_add_before_def list_add_after_def list_add_between_def)

lemma sys_fork_success:
  assumes "kmalloc sizeof_pcb s = Some (c, s0)" "c \<noteq> 0" "current_proc s \<noteq> 0" "c \<noteq> current_proc s"
    and "sys_fork s = Some (n, s')" "n \<noteq> -1"
  obtains t ktop where "s' = proc_enqueue c t" "n = next_pid s" "next_pid s' = next_pid s + 1" "current_proc s' = current_proc s"
    "\<And>p. p \<noteq> c \<Longrightarrow> pcbs s' p = pcbs s p"
    "pid (pcbs s' c) = next_pid s" "parent (pcbs s' c) = current_proc s" "pcb_state (pcbs s' c) = PROC_READY"
    "cwd_inode (pcbs s' c) = cwd_inode (pcbs s (current_proc s))" "time_slice (pcbs s' c) = TIME_SLICE_DEFAULT"
    "kstack_base (pcbs s' c) = ktop - KSTACK_SIZE" "pcb_trap_frame (pcbs s' c) = ktop - sizeof_trap_frame"
    "pcb_context (pcbs s' c) = ktop - sizeof_trap_frame - sizeof_context" "pcb_mm (pcbs s' c) \<noteq> 0"
    "trap_frames s' (ktop - sizeof_trap_frame) = (trap_frames s (pcb_trap_frame (pcbs s (current_proc s))))\<lparr>tf_rax := 0\<rparr>"
    "c_rip (contexts s' (pcb_context (pcbs s' c))) = fork_ret_entry s"
proof -
  let ?par = "current_proc s"
  obtain s1 where s1: "alloc_new_pcb s = Some (c, s1)" "next_pid s1 = next_pid s + 1"
    "pcbs s1 = (pcbs s)(c := zero_pcb\<lparr>pid := next_pid s, time_slice := TIME_SLICE_DEFAULT, pcb_state := PROC_READY\<rparr>)"
    "contexts s1 = contexts s" "trap_frames s1 = trap_frames s" "current_proc s1 = ?par" "fork_ret_entry s1 = fork_ret_entry s"
    using alloc_new_pcb_spec [OF assms(1,2)] by blast
  define s3 where "s3 = set_pcb c (\<lambda>r. r\<lparr>parent := ?par\<rparr>) (set_proc_name c (proc_name ?par) (set_pcb c (\<lambda>r. r\<lparr>cwd_inode := cwd_inode (pcbs s1 ?par)\<rparr>) s1))"
  obtain mm s4 where s4: "mm_alloc s3 = Some (mm, s4)"
    using assms(3,5) s1(1) by (cases "mm_alloc s3") (auto simp: sys_fork_def Let_def s3_def)
  define s5 where "s5 = set_pcb c (\<lambda>r. r\<lparr>pcb_mm := mm\<rparr>) s4"
  obtain ok s6 where s6: "mm_copy mm (pcb_mm (pcbs s5 ?par)) s5 = Some (ok, s6)"
    using assms(3,5) s1(1) s4 by (cases "mm_copy mm (pcb_mm (pcbs s5 ?par)) s5") (auto simp: sys_fork_def Let_def s3_def s5_def)
  have ok: "ok" and fk: "fork_kstack ?par c s6 = Some (n, s')"
    using assms(3,5,6) s1(1) s4 s6 by (auto simp: sys_fork_def Let_def s3_def s5_def split: if_splits)
  have mm: "mm \<noteq> 0" using s6 ok by (auto simp: mm_copy_def)
  obtain ktop s7 where s7: "kstack_init KSTACK_SIZE s6 = Some (ktop, s7)"
    using fk by (cases "kstack_init KSTACK_SIZE s6") (auto simp: fork_kstack_def)
  have top: "ktop \<noteq> 0" using fk s7 assms(6) by (auto simp: fork_kstack_def split: if_splits)
  note l4 = proc_layer [OF mm_alloc_layers [OF s4]] and l6 = proc_layer [OF mm_copy_layers [OF s6]]
    and l7 = proc_layer [OF vmm_layer(3) [OF kstack_init_layers [OF s7]]]
  have p7: "pcbs s7 = (pcbs s)(c := zero_pcb\<lparr>pid := next_pid s, time_slice := TIME_SLICE_DEFAULT, pcb_state := PROC_READY,
      cwd_inode := cwd_inode (pcbs s ?par), parent := ?par, pcb_mm := mm\<rparr>)"
    using s1(3) assms(4) by (simp add: l7 l6 l4 s5_def s3_def)
  have f7: "trap_frames s7 = trap_frames s" "contexts s7 = contexts s" "fork_ret_entry s7 = fork_ret_entry s"
    "current_proc s7 = ?par" "next_pid s7 = next_pid s + 1"
    using s1 by (simp_all add: l7 l6 l4 s5_def s3_def)
  show thesis
    using fk top s7 assms(4) p7 f7 mm
    by (intro that [of "set_pcb c (\<lambda>r. r\<lparr>kstack_base := ktop - KSTACK_SIZE, pcb_rsp := ktop - sizeof_trap_frame - sizeof_context,
        pcb_trap_frame := ktop - sizeof_trap_frame, pcb_context := ktop - sizeof_trap_frame - sizeof_context, pcb_state := PROC_READY\<rparr>)
        (s7\<lparr>trap_frames := (trap_frames s7)(ktop - sizeof_trap_frame := (trap_frames s7 (pcb_trap_frame (pcbs s7 ?par)))\<lparr>tf_rax := 0\<rparr>),
          contexts := (contexts s7)(ktop - sizeof_trap_frame - sizeof_context := (contexts s7 (ktop - sizeof_trap_frame - sizeof_context))\<lparr>c_rip := fork_ret_entry s7\<rparr>)\<rparr>)" ktop])
       (auto simp: fork_kstack_def Let_def zero_pcb_def)
qed

lemma kstack_map_loop_succeeds:
  assumes "kernel_ok s r" "paged v" "paged vtop" "v \<le> vtop" "unat vtop - unat v \<le> 4096 * n" "4 * n \<le> card (free_frames s)"
  shows "\<exists>s'. kstack_map_loop v vtop s = Some (True, s') \<and> kernel_ok s' r"
  using assms(1,2,4-)
proof (induction n arbitrary: v s)
  case 0
  then have "\<not> v < vtop" by (simp add: word_le_nat_alt word_less_nat_alt)
  then show ?case using 0 by (simp add: kstack_map_loop.simps)
next
  case (Suc n)
  show ?case
  proof (cases "v < vtop")
    case False
    then show ?thesis using Suc.prems by (simp add: kstack_map_loop.simps)
  next
    case True
    let ?pa = "fst (pmm_alloc_page s)" and ?s1 = "snd (pmm_alloc_page s)"
    let ?s2 = "vmm_map_page (kernel_pml4 ?s1) v ?pa (PTE_PRESENT OR PTE_RW) ?s1"
    have pi: "pmm_inv s" using Suc.prems(1) by (simp add: kernel_ok_def pt_inv_def)
    have pa: "?pa \<noteq> 0" using pm.alloc_zero_iff [OF pi] Suc.prems(5) by auto
    note ka = kernel_ok_alloc [OF Suc.prems(1)]
    note km = kernel_ok_map [OF ka(1), of v ?pa] kernel_ok_map_card [OF ka(1), of v ?pa]
    note st = page_step [OF Suc.prems(2) assms(3) True]
    have le: "v + PAGE_SIZE \<le> vtop" using unat_page_cases [OF Suc.prems(2) assms(3) True] st(1) by (simp add: word_le_nat_alt)
    have "\<exists>s'. kstack_map_loop (v + PAGE_SIZE) vtop ?s2 = Some (True, s') \<and> kernel_ok s' r"
      by (rule Suc.IH [OF km(1) st(2) le]) (use Suc.prems(4,5) st(1) ka(3) km(3) in auto)
    then show ?thesis using True pa by (simp add: kstack_map_loop.simps [of v] case_prod_unfold)
  qed
qed

subsection \<open>An example\<close>

text \<open>The state of \<open>example_proc\<close> with 1024 frames of memory and an address space for the current process.\<close>

definition example_fork :: proc where
  "example_fork = example_proc\<lparr>l_next := (l_next example_proc)(0x5010 := 0x5010), total_pages := 1024, free_pages := 1022, bitmap_size := 128,
     pcbs := (pcbs example_proc)(0x2000 := zero_pcb\<lparr>time_slice := 3, pcb_mm := 0x5000\<rparr>)\<rparr>"

abbreviation (input) hA :: u64 where "hA \<equiv> 0xFFFF900000000000"
abbreviation (input) hB :: u64 where "hB \<equiv> 0xFFFF900000000060"
abbreviation (input) hC :: u64 where "hC \<equiv> 0xFFFF900000000190"

lemma example_fork_fields:
  "l_next example_fork = (l_next example_kheap)(0x9000 := 0x3038, 0x3038 := 0x9000, 0xA000 := 0xA000, 0x5010 := 0x5010)"
  "l_prev example_fork = (l_prev example_kheap)(0x9000 := 0x3038, 0x3038 := 0x9000, 0xA000 := 0xA000)"
  "kheap_list example_fork = 0xFFFFFFFF80010000" "kheap_top example_fork = 0xFFFF900000001000" "kmem example_fork = (\<lambda>_. 0)"
  "hb_size example_fork = (\<lambda>_. 0)(0xFFFF900000000000 := 64, 0xFFFF900000000060 := 3968)"
  "hb_free example_fork = (\<lambda>_. False)(0xFFFF900000000060 := True)" "kstack_ptr example_fork = 0xFFFFB00000000000"
  "bitmap example_fork = (\<lambda>i. if i = 0 then 3 else 0)" "total_pages example_fork = 1024" "free_pages example_fork = 1022"
  "last_free_index example_fork = 2" "HHDM_OFFSET example_fork = 0xFFFF800000000000" "kernel_pml4 example_fork = 0xFFFF800000001000"
  "current_proc example_fork = 0x2000" "pcb_mm (pcbs example_fork 0x2000) = 0x5000" "next_pid example_fork = 3"
  by (simp_all add: example_fork_def example_proc_def example_vmm_def vmm.extend_def kheap.extend_def example_kheap_def
      paging.extend_def example_paging_def)

lemma example_fork_frames: "free_frames example_fork = {2..<1024}"
proof -
  have "bit_test example_fork i \<longleftrightarrow> i < 2" for i :: u64
  proof (cases "i div 8 = 0")
    case True
    then have "unat i div 8 = 0" using unat_div [of i 8] by simp
    then have "unat i < 8" by simp
    then have u: "unat (i mod 8) = unat i" by (simp add: unat_mod)
    have m: "(3 :: u8) = mask 2" by (simp add: mask_eq_exp_minus_1)
    have "bit (3 :: u8) (unat i) \<longleftrightarrow> unat i < 2" unfolding m by (auto simp: bit_mask_iff)
    then show ?thesis using True u by (simp add: bit_test_iff example_fork_fields word_less_nat_alt)
  next
    case False
    then have "unat (i div 8) \<noteq> 0" by (simp add: unat_eq_zero)
    then have "\<not> i < 2" by (auto simp: word_less_nat_alt unat_div)
    then show ?thesis using False by (simp add: bit_test_iff example_fork_fields)
  qed
  then show ?thesis by (simp add: free_frames_def example_fork_fields set_eq_iff not_less conj_commute)
qed

lemma example_fork_kernel: "kernel_ok example_fork 0x1000" "card (free_frames example_fork) = 1022"
proof -
  have "unat ` {2..<1024 :: u64} = {2..<1024}"
  proof
    show "{2..<1024} \<subseteq> unat ` {2..<1024 :: u64}"
    proof
      fix n :: nat assume n: "n \<in> {2..<1024}"
      then have "unat (of_nat n :: u64) = n" by (simp add: unat_of_nat)
      with n show "n \<in> unat ` {2..<1024 :: u64}" by (intro image_eqI [of _ _ "of_nat n"]) (auto simp: word_le_nat_alt word_less_nat_alt)
    qed
  qed (auto simp: word_le_nat_alt word_less_nat_alt)
  then show c: "card (free_frames example_fork) = 1022"
    using card_image [of unat "{2..<1024 :: u64}"] by (simp add: example_fork_frames inj_on_def unsigned_word_eqI)
  have "pmm_inv example_fork" unfolding pmm_inv_def c by (simp add: example_fork_fields) (simp add: example_fork_frames)
  then have "pt_inv example_fork 0x1000"
    by (intro pt_inv_empty) (simp_all add: example_fork_frames hhdm_ok_def frame_ok_def paged_def pa2pgidx_def
        cleared_def pt_entry_def read64_def example_fork_fields word_le_nat_alt)
  then show "kernel_ok example_fork 0x1000" by (simp add: kernel_ok_def example_fork_fields pa2kva_def)
qed

lemma example_fork_heap: "heap_inv example_fork [hA, hB]"
  by (simp add: heap_inv_def dll_def example_fork_fields example_kheap_fields)

lemma example_fork_pcb: "kmalloc sizeof_pcb example_fork = Some (hB + 32, take_block hB 272 example_fork)"
proof -
  have a: "ALIGN_UP 272 8 = 272" by code_simp
  then show ?thesis using kmalloc_fits [OF example_fork_heap, of 272 hB] by (simp add: example_fork_fields)
qed


text \<open>The state of \<^verbatim>\<open>sys_fork\<close> before the child's address space is made.\<close>

definition example_child :: proc where
  "example_child = set_pcb (hB + 32) (\<lambda>r. r\<lparr>parent := 0x2000\<rparr>) (set_proc_name (hB + 32) (proc_name 0x2000)
     (set_pcb (hB + 32) (\<lambda>r. r\<lparr>cwd_inode := 0\<rparr>) (snd (the (alloc_new_pcb example_fork)))))"

lemma example_child_fields:
  "l_next example_child = (l_next example_fork)(hB := hC, hC := 0xFFFFFFFF80010000, hB + 72 := 0, hB + 88 := 0)"
  "l_prev example_child = (l_prev example_fork)(0xFFFFFFFF80010000 := hC, hC := hB, hB + 72 := 0, hB + 88 := 0)"
  "hb_size example_child = (hb_size example_fork)(hC := 3664, hB := 272)" "hb_free example_child = (hb_free example_fork)(hC := True, hB := False)"
  "kheap_list example_child = kheap_list example_fork" "kheap_top example_child = kheap_top example_fork"
  "pages_same example_fork example_child" "kstack_ptr example_child = 0xFFFFB00000000000"
proof -
  have z: "(\<lambda>_. 0 :: u8)(d := 0) = (\<lambda>_. 0)" "memset (\<lambda>_. 0) d 0 n = (\<lambda>_. 0)" for d n by (auto simp: memset_eq)
  have n: "strncpy (\<lambda>_. 0) d src 32 = (\<lambda>_. 0)" for d src by (simp add: strncpy_def strncpy_copy.simps z del: fun_upd_apply)
  have a: "alloc_new_pcb example_fork = Some (hB + 32, set_pcb (hB + 32) (\<lambda>r. r\<lparr>pid := next_pid (take_block hB 272 example_fork), time_slice := TIME_SLICE_DEFAULT,
      pcb_rsp := 0, kstack_base := 0, pcb_context := 0, pcb_trap_frame := 0, pcb_mm := 0, parent := 0, pcb_state := PROC_READY, exit_code := 0,
      total_runtime := 0, cwd_inode := 0\<rparr>) ((clear_pcb (hB + 32) (take_block hB 272 example_fork))\<lparr>next_pid := next_pid (take_block hB 272 example_fork) + 1\<rparr>))"
    by (simp add: alloc_new_pcb_def example_fork_pcb get_next_pid_def clear_pcb_def)
  have tb: "kmem (take_block hB 272 example_fork) = (\<lambda>_. 0)" "pages_same example_fork (take_block hB 272 example_fork)"
    using take_block_pages [of example_fork hB 272] by (simp_all add: pages_same_def example_fork_fields)
  have l: "l_next (take_block hB 272 example_fork) = (l_next example_fork)(hB := hC, hC := 0xFFFFFFFF80010000)"
    "l_prev (take_block hB 272 example_fork) = (l_prev example_fork)(0xFFFFFFFF80010000 := hC, hC := hB)"
    "hb_size (take_block hB 272 example_fork) = (hb_size example_fork)(hC := 3664, hB := 272)"
    "hb_free (take_block hB 272 example_fork) = (hb_free example_fork)(hC := True, hB := False)"
    "kheap_list (take_block hB 272 example_fork) = kheap_list example_fork" "kheap_top (take_block hB 272 example_fork) = kheap_top example_fork"
    "kstack_ptr (take_block hB 272 example_fork) = kstack_ptr example_fork"
    by (simp_all add: take_block_def Let_def list_add_after_def list_add_between_def example_fork_fields example_kheap_fields fun_eq_iff)
  have k: "kmem example_child = (\<lambda>_. 0)"
    by (simp add: example_child_def a set_proc_name_def clear_pcb_def set_pcb_def tb z n Let_def del: fun_upd_apply)
  show "pages_same example_fork example_child"
    using tb(2) k by (simp add: pages_same_def example_fork_fields) (simp add: example_child_def a set_proc_name_def clear_pcb_def set_pcb_def Let_def)
  show "l_next example_child = (l_next example_fork)(hB := hC, hC := 0xFFFFFFFF80010000, hB + 72 := 0, hB + 88 := 0)"
    "l_prev example_child = (l_prev example_fork)(0xFFFFFFFF80010000 := hC, hC := hB, hB + 72 := 0, hB + 88 := 0)"
    by (simp_all add: example_child_def a clear_pcb_def l)
  show "hb_size example_child = (hb_size example_fork)(hC := 3664, hB := 272)" "hb_free example_child = (hb_free example_fork)(hC := True, hB := False)"
    "kheap_list example_child = kheap_list example_fork" "kheap_top example_child = kheap_top example_fork"
    "kstack_ptr example_child = 0xFFFFB00000000000"
    using l by (simp_all add: example_child_def a set_proc_name_def clear_pcb_def set_pcb_def Let_def example_fork_fields)
qed


lemma mm_alloc_effects:
  fixes s :: "'a vmm_scheme"
  assumes km: "kmalloc sizeof_mm_struct s = Some (mm, s1)" "mm \<noteq> 0" and run: "mm_alloc s = Some (mm, s')"
  shows "l_next s' = (l_next s1)(vma_list mm := vma_list mm)" "kstack_ptr s' = kstack_ptr s1"
    "\<exists>s2 :: 'a vmm_scheme. pages_same s1 s2 \<and> free_frames s' = free_frames (snd (pmm_alloc_page s2))"
proof -
  define s2 where "s2 = s1\<lparr>mms := (mms s1)(mm := zero_mm), l_next := (l_next s1)(vma_list mm := 0), l_prev := (l_prev s1)(vma_list mm := 0)\<rparr>"
  let ?s3 = "snd (pmm_alloc_page s2)"
  have l: "l_next ?s3 = l_next s2" "kstack_ptr ?s3 = kstack_ptr s2"
    by (simp_all add: pmm_alloc_page_def pmm_take_def bit_set_def split: option.split)
  have e: "l_next s' = (l_next ?s3)(vma_list mm := vma_list mm)" "kstack_ptr s' = kstack_ptr ?s3" "bitmap s' = bitmap ?s3" "total_pages s' = total_pages ?s3"
    using run km(2) by (auto simp: mm_alloc_def km Let_def s2_def [symmetric] case_prod_unfold set_mm_def list_init_def split: if_splits)
  show "l_next s' = (l_next s1)(vma_list mm := vma_list mm)" "kstack_ptr s' = kstack_ptr s1" using e l by (simp_all add: s2_def)
  have "pages_same s1 s2" by (simp add: s2_def pages_same_def)
  moreover have "free_frames s' = free_frames ?s3" using e by (simp add: free_frames_def bit_test_def)
  ultimately show "\<exists>s2 :: 'a vmm_scheme. pages_same s1 s2 \<and> free_frames s' = free_frames (snd (pmm_alloc_page s2))" by blast
qed

lemma example_fork_runs: "\<exists>s'. sys_fork example_fork = Some (3, s')"
proof -
  have a: "ALIGN_UP 104 8 = 104" by code_simp
  have "heap_inv example_child [hA, hB, hC]"
    by (simp add: heap_inv_def dll_def example_child_fields example_fork_fields example_kheap_fields)
  from kmalloc_fits [OF this, of 104 hC]
  have km: "kmalloc sizeof_mm_struct example_child = Some (hC + 32, take_block hC 104 example_child)"
    by (simp add: a example_child_fields example_fork_fields)
  let ?s1 = "take_block hC 104 example_child"
  have same: "pages_same example_fork ?s1" by (rule pages_same_trans [OF example_child_fields(7) take_block_pages])
  have k1: "kernel_ok ?s1 0x1000" "card (free_frames ?s1) = 1022"
    using example_fork_kernel kernel_ok_same [OF same] pages_same_views(1) [OF same] by simp_all
  have ne1: "free_frames ?s1 \<noteq> {}" using k1(2) by auto
  obtain s4 p where s4: "mm_alloc example_child = Some (hC + 32, s4)" "kernel_ok s4 0x1000" "dll s4 (vma_list (hC + 32)) []"
    using mm_alloc_spec [OF km _ k1(1) ne1] by auto
  note ef = mm_alloc_effects [OF km _ s4(1)]
  obtain s2 :: proc where s2: "pages_same ?s1 s2" "free_frames s4 = free_frames (snd (pmm_alloc_page s2))" using ef(3) by auto
  have "kernel_ok s2 0x1000" "card (free_frames s2) = 1022"
    using k1 kernel_ok_same [OF s2(1)] pages_same_views(1) [OF s2(1)] by simp_all
  then have c4: "card (free_frames s4) = 1021" using kernel_ok_alloc(3) [of s2 "0x1000"] s2(2) by simp
  define s5 where "s5 = set_pcb (hB + 32) (\<lambda>r. r\<lparr>pcb_mm := hC + 32\<rparr>) s4"
  obtain t where t: "alloc_new_pcb example_fork = Some (hB + 32, t)" "current_proc t = 0x2000"
    "pcbs t = (pcbs example_fork)(hB + 32 := zero_pcb\<lparr>pid := 3, time_slice := TIME_SLICE_DEFAULT, pcb_state := PROC_READY\<rparr>)"
    using alloc_new_pcb_spec [OF example_fork_pcb] by (auto simp: example_fork_fields)
  have cwd: "cwd_inode (pcbs t 0x2000) = 0" by (simp add: t example_fork_def zero_pcb_def)
  have ch: "example_child = set_pcb (hB + 32) (\<lambda>r. r\<lparr>parent := 0x2000\<rparr>) (set_proc_name (hB + 32) (proc_name 0x2000) (set_pcb (hB + 32) (\<lambda>r. r\<lparr>cwd_inode := 0\<rparr>) t))"
    by (simp add: example_child_def t(1))
  note pc = proc_layer(1) [OF mm_alloc_layers [OF s4(1)]]
  have mm4: "pcb_mm (pcbs s4 0x2000) = 0x5000" using pc t(3) by (simp add: ch example_fork_fields)
  have mm5: "pcb_mm (pcbs s5 0x2000) = 0x5000" "pid (pcbs s5 (hB + 32)) = 3" using pc t(3) by (simp_all add: s5_def ch example_fork_fields)
  have "l_next s5 0x5010 = 0x5010"
    using ef(1) by (simp add: s5_def take_block_def Let_def list_add_after_def list_add_between_def example_child_fields example_fork_fields)
  then have cp: "mm_copy (hC + 32) 0x5000 s5 = Some (True, s5)" by (simp add: mm_copy_def copy_vmas.simps)
  have same5: "pages_same s4 s5" by (simp add: s5_def pages_same_def set_pcb_def)
  have ks: "kstack_ptr s5 = 0xFFFFB00000000000"
    using ef(2) by (simp add: s5_def set_pcb_def take_block_def Let_def list_add_after_def list_add_between_def example_child_fields)
  let ?s6 = "s5\<lparr>kstack_ptr := 0xFFFFB00000005000\<rparr>"
  have same6: "pages_same s4 ?s6" by (rule pages_same_trans [OF same5 pages_same_heap(4)])
  have "\<exists>s'. kstack_map_loop 0xFFFFB00000001000 0xFFFFB00000005000 ?s6 = Some (True, s') \<and> kernel_ok s' 0x1000"
    by (rule kstack_map_loop_succeeds [of _ _ _ _ 4])
      (use kernel_ok_same [OF same6] s4(2) pages_same_views(1) [OF same6] c4 in \<open>auto simp: paged_def\<close>)
  then obtain s7 where "kstack_map_loop 0xFFFFB00000001000 0xFFFFB00000005000 (s5\<lparr>kstack_ptr := 0xFFFFB00000005000\<rparr>) = Some (True, s7)" by blast
  then have s7: "kstack_init KSTACK_SIZE s5 = Some (0xFFFFB00000005000, s7)" by (simp add: kstack_init_def Let_def ks)
  have "pcbs s7 = pcbs s5" by (rule proc_layer(1) [OF vmm_layer(3) [OF kstack_init_layers [OF s7]]])
  then have "\<exists>s'. fork_kstack 0x2000 (hB + 32) s5 = Some (3, s')" using s7 mm5(2) by (simp add: fork_kstack_def Let_def)
  then show ?thesis using t(1) s4(1) cp mm5(1) cwd unfolding sys_fork_def Let_def by (simp add: ch [simplified, symmetric] s5_def [simplified, symmetric] mm4 example_fork_fields(15))
qed


subsection \<open>Properties\<close>



end
