(* ===== verification/Ramfs.thy ===== *)
theory Ramfs
  imports Proc
begin

text \<open>
  The file system in memory, \<^verbatim>\<open>fs/ramfs.c\<close>. The two static arrays are lists; a node is named by its index,
  an open file by its index in the table of handles, and the descriptors of a process are the
  entries of its \<^verbatim>\<open>fd_table\<close>. C strings are lists of bytes without the terminating zero, a \<^verbatim>\<open>NULL\<close> string is
  \<open>None\<close>; what a call stores through a pointer into the caller's memory is part of its result. File
  contents lie in the byte memory, in blocks from the kernel heap. The value \<open>None\<close> of an operation
  stands for a memory error: a \<^verbatim>\<open>NULL\<close> dereference, an array index out of bounds, or a string copied into
  a 32-byte array it does not fit.
\<close>

abbreviation (input) MAX_FILES :: nat where "MAX_FILES \<equiv> 64"
abbreviation (input) MAX_SYSTEM_OPEN_FILES :: nat where "MAX_SYSTEM_OPEN_FILES \<equiv> 128"
abbreviation (input) MAX_FD :: int where "MAX_FD \<equiv> 16"
abbreviation (input) RAMFS_TYPE_FILE :: int where "RAMFS_TYPE_FILE \<equiv> 1"
abbreviation (input) RAMFS_TYPE_DIR :: int where "RAMFS_TYPE_DIR \<equiv> 2"

record ramfs_node =
  node_name :: "u8 list"
  node_content :: u64
  node_size :: u64
  is_used :: bool
  node_type :: int
  parent_idx :: int
  inode_idx :: int

record file_t =
  file_node :: "nat option"
  file_offset :: u64
  file_ref_count :: int

record ramfs = proc +
  files :: "ramfs_node list"
  global_file_table :: "file_t list"

definition zero_node :: ramfs_node where
  "zero_node = \<lparr>node_name = [], node_content = 0, node_size = 0, is_used = False, node_type = 0, parent_idx = 0, inode_idx = 0\<rparr>"

definition zero_file :: file_t where
  "zero_file = \<lparr>file_node = None, file_offset = 0, file_ref_count = 0\<rparr>"

definition set_node :: "nat \<Rightarrow> (ramfs_node \<Rightarrow> ramfs_node) \<Rightarrow> 'a ramfs_scheme \<Rightarrow> 'a ramfs_scheme" where
  "set_node i f s = s\<lparr>files := (files s)[i := f (files s ! i)]\<rparr>"

definition set_file :: "nat \<Rightarrow> (file_t \<Rightarrow> file_t) \<Rightarrow> 'a ramfs_scheme \<Rightarrow> 'a ramfs_scheme" where
  "set_file h f s = s\<lparr>global_file_table := (global_file_table s)[h := f (global_file_table s ! h)]\<rparr>"

subsection \<open>Handles and nodes\<close>

definition alloc_file_handle :: "'a ramfs_scheme \<Rightarrow> (nat \<times> 'a ramfs_scheme) option" where
  "alloc_file_handle s =
     map_option (\<lambda>i. (i, set_file i (\<lambda>_. zero_file\<lparr>file_ref_count := 1\<rparr>) s))
       (find (\<lambda>i. file_ref_count (global_file_table s ! i) = 0) [0..<MAX_SYSTEM_OPEN_FILES])"

definition free_file_handle :: "nat \<Rightarrow> 'a ramfs_scheme \<Rightarrow> 'a ramfs_scheme" where
  "free_file_handle h s = set_file h (\<lambda>f. f\<lparr>file_ref_count := 0, file_node := None\<rparr>) s"

definition alloc_inode :: "'a ramfs_scheme \<Rightarrow> (nat \<times> 'a ramfs_scheme) option" where
  "alloc_inode s =
     map_option (\<lambda>i. (i, set_node i (\<lambda>_. zero_node\<lparr>is_used := True, inode_idx := int i\<rparr>) s))
       (find (\<lambda>i. \<not> is_used (files s ! i)) [0..<MAX_FILES])"

text \<open>
  The test at the head of every descriptor operation: \<open>None\<close> is the fault on a missing descriptor table,
  \<open>Some None\<close> an invalid descriptor, \<open>Some (Some h)\<close> the handle.
\<close>

definition fd_handle :: "int \<Rightarrow> 'a ramfs_scheme \<Rightarrow> nat option option" where
  "fd_handle fd s =
     (if fd < 0 \<or> fd \<ge> MAX_FD then Some None
      else if current_proc s = 0 then None
      else Some (fd_table (pcbs s (current_proc s)) ! nat fd))"

definition set_fd :: "nat \<Rightarrow> nat option \<Rightarrow> 'a ramfs_scheme \<Rightarrow> 'a ramfs_scheme" where
  "set_fd i v s = set_pcb (current_proc s) (\<lambda>p. p\<lparr>fd_table := (fd_table p)[i := v]\<rparr>) s"

subsection \<open>Paths\<close>

text \<open>\<^verbatim>\<open>strtok_r(p, "/", &p)\<close> on the rest of the path: the next component and what is left behind its delimiter.\<close>

abbreviation (input) slash :: u8 where "slash \<equiv> 47"

definition path_token :: "u8 list \<Rightarrow> (u8 list \<times> u8 list) option" where
  "path_token p =
     (let q = dropWhile (\<lambda>c. c = slash) p
      in if q = [] then None else Some (takeWhile (\<lambda>c. c \<noteq> slash) q, drop 1 (dropWhile (\<lambda>c. c \<noteq> slash) q)))"

lemma path_token_shorter: "path_token p = Some (tok, p') \<Longrightarrow> length p' < length p"
proof -
  assume "path_token p = Some (tok, p')"
  then have "p' = drop 1 (dropWhile (\<lambda>c. c \<noteq> slash) (dropWhile (\<lambda>c. c = slash) p))" "dropWhile (\<lambda>c. c = slash) p \<noteq> []"
    by (auto simp: path_token_def Let_def split: if_splits)
  then show ?thesis
    using length_dropWhile_le [of "\<lambda>c. c = slash" p] length_dropWhile_le [of "\<lambda>c. c \<noteq> slash" "dropWhile (\<lambda>c. c = slash) p"]
    by (cases "dropWhile (\<lambda>c. c = slash) p") (auto split: if_splits)
qed

text \<open>The search for a used node with the given parent and name: its index, or -1.\<close>

definition find_child :: "ramfs_node list \<Rightarrow> int \<Rightarrow> u8 list \<Rightarrow> int" where
  "find_child fs cur token =
     (case find (\<lambda>i. is_used (fs ! i) \<and> parent_idx (fs ! i) = cur \<and> node_name (fs ! i) = token) [0..<MAX_FILES] of
        None \<Rightarrow> -1 | Some i \<Rightarrow> int i)"

text \<open>
  The loop of \<^verbatim>\<open>resolve_path\<close>. Its results: the inode, what is stored in \<^verbatim>\<open>*parent_out\<close> and what is copied to
  \<^verbatim>\<open>name_out\<close>, if anything. A token is never empty, so the test for that is left out.
\<close>

function resolve_loop :: "ramfs_node list \<Rightarrow> int \<Rightarrow> u8 list \<Rightarrow> (int \<times> int option \<times> u8 list option) option" where
  "resolve_loop fs cur p =
     (if cur < 0 \<or> cur \<ge> int MAX_FILES then None
      else case path_token p of
        None \<Rightarrow> Some (cur, Some (parent_idx (fs ! nat cur)), None)
      | Some (token, p') \<Rightarrow>
          if token = [46] then resolve_loop fs cur p'
          else if token = [46, 46]
          then resolve_loop fs (if parent_idx (fs ! nat cur) \<noteq> -1 then parent_idx (fs ! nat cur) else cur) p'
          else
            let found = find_child fs cur token
            in if p' \<noteq> []
               then if found = -1 \<or> node_type (fs ! nat found) \<noteq> RAMFS_TYPE_DIR then Some (-1, None, None)
                    else resolve_loop fs found p'
               else Some (found, Some cur, Some token))"
  by pat_completeness auto
termination
  by (relation "measure (\<lambda>(fs, cur, p). length p)") (auto dest: path_token_shorter)

declare resolve_loop.simps [simp del]

text \<open>
  \<^verbatim>\<open>resolve_path\<close>. The path is cut at 127 bytes. \<open>out\<close> says whether the caller passes the two output
  arguments; the name buffer of every caller has 32 bytes.
\<close>

definition resolve_path :: "u8 list option \<Rightarrow> bool \<Rightarrow> 'a ramfs_scheme \<Rightarrow> (int \<times> int option \<times> u8 list option) option" where
  "resolve_path path out s =
     (case path of
        None \<Rightarrow> Some (-1, None, None)
      | Some p \<Rightarrow>
          let cwd = (if current_proc s \<noteq> 0 then cwd_inode (pcbs s (current_proc s)) else 0);
              absolute = p \<noteq> [] \<and> hd p = slash
          in case resolve_loop (files s) (if absolute then 0 else cwd) (take 127 (if absolute then tl p else p)) of
               None \<Rightarrow> None
             | Some (inode, par, nm) \<Rightarrow>
                 if out \<and> (case nm of None \<Rightarrow> False | Some n \<Rightarrow> 32 \<le> length n) then None else Some (inode, par, nm))"

subsection \<open>Initialisation\<close>

text \<open>The steps that make one node: allocate it, name it, type it, hang it under its parent.\<close>

definition make_node :: "u8 list \<Rightarrow> int \<Rightarrow> int \<Rightarrow> 'a ramfs_scheme \<Rightarrow> (nat \<times> 'a ramfs_scheme) option" where
  "make_node nm ty par s =
     map_option (\<lambda>(i, s1). (i, set_node i (\<lambda>n. n\<lparr>node_name := nm, node_type := ty, parent_idx := par\<rparr>) s1)) (alloc_inode s)"

text \<open>A source file of the tree: a page from the heap with the text in it, whose length is the size.\<close>

definition make_text_file :: "u8 list \<Rightarrow> int \<Rightarrow> u8 list \<Rightarrow> 'a ramfs_scheme \<Rightarrow> (nat \<times> 'a ramfs_scheme) option" where
  "make_text_file nm par text_bytes s =
     Option.bind (make_node nm RAMFS_TYPE_FILE par s)
       (\<lambda>(i, s1). Option.bind (kmalloc PAGE_SIZE s1)
          (\<lambda>(p, s2).
             if p = 0 then None
             else
               let s3 = set_node i (\<lambda>n. n\<lparr>node_content := p\<rparr>) s2;
                   s4 = s3\<lparr>kmem := write_bytes (kmem s3) p (text_bytes @ [0])\<rparr>
               in Some (i, set_node i (\<lambda>n. n\<lparr>node_size := of_nat (length text_bytes)\<rparr>) s4)))"

definition str :: "string \<Rightarrow> u8 list" where "str cs = map (of_nat \<circ> of_char) cs"

definition ramfs_root :: "'a ramfs_scheme \<Rightarrow> 'a ramfs_scheme" where
  "ramfs_root s =
     (s\<lparr>files := (replicate MAX_FILES zero_node)[0 := zero_node\<lparr>is_used := True, node_type := RAMFS_TYPE_DIR, parent_idx := -1\<rparr>],
        global_file_table := replicate MAX_SYSTEM_OPEN_FILES zero_file\<rparr>)"

definition ramfs_init :: "u64 \<Rightarrow> u64 \<Rightarrow> 'a ramfs_scheme \<Rightarrow> 'a ramfs_scheme option" where
  "ramfs_init init_addr init_size s =
     Option.bind (make_node (str ''init'') RAMFS_TYPE_FILE 0 (ramfs_root s))
       (\<lambda>(init_idx, s1).
          let s2 = set_node init_idx (\<lambda>n. n\<lparr>node_content := init_addr, node_size := init_size\<rparr>) s1
          in Option.bind (make_node (str ''usr'') RAMFS_TYPE_DIR 0 s2)
            (\<lambda>(usr_idx, s3). Option.bind (make_node (str ''bin'') RAMFS_TYPE_DIR (int usr_idx) s3)
              (\<lambda>(bin_idx, s4). Option.bind (make_node (str ''lib'') RAMFS_TYPE_DIR (int usr_idx) s4)
                (\<lambda>(lib_idx, s5). Option.bind (make_text_file (str ''shell.c'') (int usr_idx) (str ''// This is SudoOS Shell Source Code...'' @ [10]) s5)
                  (\<lambda>(shell_idx, s6). map_option snd (make_text_file (str ''usrmain.c'') (int usr_idx) (str ''// User Main Entry Point'' @ [10]) s6))))))"

subsection \<open>Files\<close>

text \<open>The second half of \<^verbatim>\<open>ramfs_open\<close>: a handle for the node and the lowest free descriptor from 3.\<close>

definition lowest_fd :: "nat option list \<Rightarrow> nat option" where
  "lowest_fd fds = find (\<lambda>i. fds ! i = None) [3..<nat MAX_FD]"

definition open_handle :: "nat \<Rightarrow> 'a ramfs_scheme \<Rightarrow> int \<times> 'a ramfs_scheme" where
  "open_handle inode s =
     (case alloc_file_handle s of
        None \<Rightarrow> (-1, s)
      | Some (h, s1) \<Rightarrow>
          let s2 = set_file h (\<lambda>f. f\<lparr>file_node := Some inode, file_offset := 0\<rparr>) s1
          in if current_proc s2 = 0 then (-1, free_file_handle h s2)
             else case lowest_fd (fd_table (pcbs s2 (current_proc s2))) of
                    None \<Rightarrow> (-1, free_file_handle h s2)
                  | Some i \<Rightarrow> (int i, set_fd i (Some h) s2))"

definition ramfs_open :: "u8 list option \<Rightarrow> int \<Rightarrow> 'a ramfs_scheme \<Rightarrow> (int \<times> 'a ramfs_scheme) option" where
  "ramfs_open path flags s =
     Option.bind (resolve_path path True s)
       (\<lambda>(inode, par, nm).
          let par_idx = (case par of None \<Rightarrow> -1 | Some i \<Rightarrow> i); name = (case nm of None \<Rightarrow> [] | Some n \<Rightarrow> n)
          in if inode = -1 \<and> bit flags 6
             then if par_idx = -1 then Some (-1, s)
                  else case make_node name RAMFS_TYPE_FILE par_idx s of
                         None \<Rightarrow> Some (-1, s)
                       | Some (i, s1) \<Rightarrow>
                           Option.bind (kmalloc 4096 s1)
                             (\<lambda>(p, s2).
                                if p = 0 then None
                                else
                                  let s3 = set_node i (\<lambda>n. n\<lparr>node_size := 0, node_content := p\<rparr>) s2
                                  in Some (open_handle i (s3\<lparr>kmem := memset (kmem s3) p 0 4096\<rparr>)))
             else if inode = -1 then Some (-1, s)
             else Some (open_handle (nat inode) s))"

text \<open>\<^verbatim>\<open>ramfs_read\<close>: the return value and the bytes stored in the caller's buffer.\<close>

definition ramfs_read :: "int \<Rightarrow> int \<Rightarrow> 'a ramfs_scheme \<Rightarrow> (int \<times> u8 list \<times> 'a ramfs_scheme) option" where
  "ramfs_read fd count s =
     (case fd_handle fd s of
        None \<Rightarrow> None
      | Some None \<Rightarrow> Some (-1, [], s)
      | Some (Some h) \<Rightarrow>
          (case file_node (global_file_table s ! h) of
             None \<Rightarrow> None
           | Some i \<Rightarrow>
               let node = files s ! i; offset = file_offset (global_file_table s ! h)
               in if node_type node = RAMFS_TYPE_DIR then Some (-1, [], s)
                  else if offset \<ge> node_size node then Some (0, [], s)
                  else
                    let read_len = (if offset + to_u64 count > node_size node then to_int (node_size node - offset) else count)
                    in if read_len > 0
                       then Some (read_len, map (\<lambda>k. kmem s (node_content node + offset + of_nat k)) [0..<nat read_len],
                                  set_file h (\<lambda>f. f\<lparr>file_offset := offset + to_u64 read_len\<rparr>) s)
                       else Some (read_len, [], s)))"

text \<open>\<^verbatim>\<open>ramfs_write\<close>: \<open>buf k\<close> is the byte at \<open>buf + k\<close>.\<close>

definition ramfs_write :: "int \<Rightarrow> (nat \<Rightarrow> u8) \<Rightarrow> int \<Rightarrow> 'a ramfs_scheme \<Rightarrow> (int \<times> 'a ramfs_scheme) option" where
  "ramfs_write fd buf count s =
     (case fd_handle fd s of
        None \<Rightarrow> None
      | Some None \<Rightarrow> Some (-1, s)
      | Some (Some h) \<Rightarrow>
          (case file_node (global_file_table s ! h) of
             None \<Rightarrow> None
           | Some i \<Rightarrow>
               let node = files s ! i; offset = file_offset (global_file_table s ! h)
               in if node_type node = RAMFS_TYPE_DIR then Some (-1, s)
                  else
                    let n = (if offset + to_u64 count > 4096 then to_int (4096 - offset) else count)
                    in if n > 0 \<and> node_content node \<noteq> 0
                       then
                         let s1 = s\<lparr>kmem := write_bytes (kmem s) (node_content node + offset) (map buf [0..<nat n])\<rparr>;
                             s2 = set_file h (\<lambda>f. f\<lparr>file_offset := offset + to_u64 n\<rparr>) s1
                         in Some (n, if offset + to_u64 n > node_size node then set_node i (\<lambda>x. x\<lparr>node_size := offset + to_u64 n\<rparr>) s2 else s2)
                       else Some (n, s)))"

definition ramfs_close :: "int \<Rightarrow> 'a ramfs_scheme \<Rightarrow> 'a ramfs_scheme option" where
  "ramfs_close fd s =
     (case fd_handle fd s of
        None \<Rightarrow> None
      | Some None \<Rightarrow> Some s
      | Some (Some h) \<Rightarrow> Some (set_fd (nat fd) None (free_file_handle h s)))"

subsection \<open>Directories\<close>

record linux_dirent64 =
  d_ino :: u64
  d_off :: int
  d_reclen :: int
  d_type :: int
  d_name :: "u8 list"

text \<open>\<^verbatim>\<open>ALIGN_UP(sizeof(struct linux_dirent64) + name_len + 1, 8)\<close>; the structure has 24 bytes.\<close>

definition dirent_reclen :: "u8 list \<Rightarrow> int" where
  "dirent_reclen nm = int (unat (ALIGN_UP (24 + of_nat (length nm) + 1) 8))"

text \<open>The loop of \<^verbatim>\<open>ramfs_getdents64\<close>: the entries that fit from \<open>bpos\<close> on, the end of the last one and the index where it stops.\<close>

function getdents_loop :: "ramfs_node list \<Rightarrow> int \<Rightarrow> int \<Rightarrow> nat \<Rightarrow> int \<Rightarrow> linux_dirent64 list \<times> int \<times> nat" where
  "getdents_loop fs target count search_idx bpos =
     (if search_idx < MAX_FILES
      then let node = fs ! search_idx
           in if is_used node \<and> parent_idx node = target
              then let reclen = dirent_reclen (node_name node)
                   in if bpos + reclen > count then ([], bpos, search_idx)
                      else case getdents_loop fs target count (Suc search_idx) (bpos + reclen) of (ds, b, i) \<Rightarrow>
                        (\<lparr>d_ino = of_nat search_idx + 1, d_off = bpos + reclen, d_reclen = reclen,
                          d_type = (if node_type node = RAMFS_TYPE_DIR then 4 else 8), d_name = node_name node\<rparr> # ds, b, i)
              else getdents_loop fs target count (Suc search_idx) bpos
      else ([], bpos, search_idx))"
  by pat_completeness auto
termination
  by (relation "measure (\<lambda>(fs, t, c, i, b). MAX_FILES - i)") auto

declare getdents_loop.simps [simp del]

definition ramfs_getdents64 :: "int \<Rightarrow> int \<Rightarrow> 'a ramfs_scheme \<Rightarrow> (int \<times> linux_dirent64 list \<times> 'a ramfs_scheme) option" where
  "ramfs_getdents64 fd count s =
     (case fd_handle fd s of
        None \<Rightarrow> None
      | Some None \<Rightarrow> Some (-1, [], s)
      | Some (Some h) \<Rightarrow>
          (case file_node (global_file_table s ! h) of
             None \<Rightarrow> None
           | Some i \<Rightarrow>
               if node_type (files s ! i) \<noteq> RAMFS_TYPE_DIR then Some (-1, [], s)
               else if to_int (file_offset (global_file_table s ! h)) < 0 then None
               else case getdents_loop (files s) (inode_idx (files s ! i)) count (nat (to_int (file_offset (global_file_table s ! h)))) 0 of
                      (ds, bpos, search_idx) \<Rightarrow> Some (bpos, ds, set_file h (\<lambda>f. f\<lparr>file_offset := of_nat search_idx\<rparr>) s)))"

definition ramfs_mkdir :: "u8 list option \<Rightarrow> 'a ramfs_scheme \<Rightarrow> (int \<times> 'a ramfs_scheme) option" where
  "ramfs_mkdir path s =
     Option.bind (resolve_path path True s)
       (\<lambda>(inode, par, nm).
          let par_idx = (case par of None \<Rightarrow> -1 | Some i \<Rightarrow> i); name = (case nm of None \<Rightarrow> [] | Some n \<Rightarrow> n)
          in if inode \<noteq> -1 then Some (-1, s)
             else if par_idx = -1 then Some (-1, s)
             else case make_node name RAMFS_TYPE_DIR par_idx s of
                    None \<Rightarrow> Some (-1, s)
                  | Some (i, s1) \<Rightarrow> Some (0, set_node i (\<lambda>n. n\<lparr>node_size := 0\<rparr>) s1))"

definition ramfs_chdir :: "u8 list option \<Rightarrow> 'a ramfs_scheme \<Rightarrow> (int \<times> 'a ramfs_scheme) option" where
  "ramfs_chdir path s =
     Option.bind (resolve_path path False s)
       (\<lambda>(inode, _, _).
          if inode = -1 then Some (-1, s)
          else if node_type (files s ! nat inode) \<noteq> RAMFS_TYPE_DIR then Some (-1, s)
          else Some (0, if current_proc s \<noteq> 0 then set_pcb (current_proc s) (\<lambda>p. p\<lparr>cwd_inode := inode\<rparr>) s else s))"

text \<open>
  \<^verbatim>\<open>ramfs_getcwd\<close> first adds up the length (\<open>Some (-1)\<close> when it does not fit), then writes the path from its
  end. Both loops go up the parents until the root; they would not stop on a cycle.
\<close>

partial_function (option) cwd_length :: "ramfs_node list \<Rightarrow> u64 \<Rightarrow> int \<Rightarrow> int \<Rightarrow> int option" where
  "cwd_length fs sz temp len =
     (if temp = 0 then Some len
      else if temp < 0 \<or> temp \<ge> int MAX_FILES then None
      else
        let len' = len + 1 + int (length (node_name (fs ! nat temp))); par = parent_idx (fs ! nat temp)
        in if par = -1 then Some len'
           else if to_u64 len' \<ge> sz then Some (-1)
           else cwd_length fs sz par len')"

text \<open>The loop that writes: \<open>acc\<close> is the buffer from \<^verbatim>\<open>write_pos\<close> on.\<close>

partial_function (option) cwd_write :: "ramfs_node list \<Rightarrow> int \<Rightarrow> u8 list \<Rightarrow> u8 list option" where
  "cwd_write fs temp acc =
     (if temp = 0 then Some acc
      else if temp < 0 \<or> temp \<ge> int MAX_FILES then None
      else cwd_write fs (parent_idx (fs ! nat temp)) (slash # node_name (fs ! nat temp) @ acc))"

text \<open>The result is the string in the caller's buffer, or \<open>None\<close> for the value \<^verbatim>\<open>NULL\<close>.\<close>

definition ramfs_getcwd :: "bool \<Rightarrow> u64 \<Rightarrow> 'a ramfs_scheme \<Rightarrow> u8 list option option" where
  "ramfs_getcwd buf_given sz s =
     (if \<not> buf_given \<or> sz = 0 \<or> current_proc s = 0 then Some None
      else
        let cur = cwd_inode (pcbs s (current_proc s))
        in if cur = 0 then (if sz < 2 then Some None else Some (Some [slash]))
           else Option.bind (cwd_length (files s) sz cur 0)
             (\<lambda>len. if len = -1 then Some None else map_option Some (cwd_write (files s) cur [])))"

subsection \<open>Status\<close>

record dummy_stat =
  st_ino :: u64
  st_mode :: u32
  st_size :: u64

text \<open>The return value and the three fields that are stored.\<close>

definition ramfs_stat :: "u8 list option \<Rightarrow> 'a ramfs_scheme \<Rightarrow> (int \<times> dummy_stat option) option" where
  "ramfs_stat path s =
     Option.bind (resolve_path path False s)
       (\<lambda>(inode, _, _).
          if inode = -1 then Some (-1, None)
          else
            let n = files s ! nat inode
            in Some (0, Some \<lparr>st_ino = to_u64 (inode + 1), st_mode = (if node_type n = RAMFS_TYPE_DIR then 0x41FF else 0x81FF), st_size = node_size n\<rparr>))"

definition ramfs_fstat :: "int \<Rightarrow> 'a ramfs_scheme \<Rightarrow> (int \<times> dummy_stat option) option" where
  "ramfs_fstat fd s =
     (case fd_handle fd s of
        None \<Rightarrow> None
      | Some None \<Rightarrow> Some (-1, None)
      | Some (Some h) \<Rightarrow>
          (case file_node (global_file_table s ! h) of None \<Rightarrow> None | Some i \<Rightarrow> ramfs_stat (Some (node_name (files s ! i))) s))"

subsection \<open>The tree of nodes\<close>

text \<open>
  The used nodes are the first ones of the array, since nodes are never released. Node 0 is the root;
  every other node hangs under a directory with a smaller index, so that the parents lead to the root.
\<close>

definition good_name :: "u8 list \<Rightarrow> bool" where
  "good_name nm \<longleftrightarrow> nm \<noteq> [] \<and> slash \<notin> set nm \<and> nm \<noteq> [46] \<and> nm \<noteq> [46, 46]"

definition dir_at :: "ramfs_node list \<Rightarrow> int \<Rightarrow> bool" where
  "dir_at fs i \<longleftrightarrow> 0 \<le> i \<and> i < 64 \<and> is_used (fs ! nat i) \<and> node_type (fs ! nat i) = RAMFS_TYPE_DIR"

definition node_ok :: "ramfs_node list \<Rightarrow> nat \<Rightarrow> bool" where
  "node_ok fs i \<longleftrightarrow> inode_idx (fs ! i) = int i \<and> node_type (fs ! i) \<in> {RAMFS_TYPE_FILE, RAMFS_TYPE_DIR}
     \<and> (if i = 0 then parent_idx (fs ! i) = -1 \<and> node_type (fs ! i) = RAMFS_TYPE_DIR
        else parent_idx (fs ! i) < int i \<and> dir_at fs (parent_idx (fs ! i)) \<and> good_name (node_name (fs ! i)) \<and> length (node_name (fs ! i)) < 32)"

definition fs_inv :: "ramfs_node list \<Rightarrow> bool" where
  "fs_inv fs \<longleftrightarrow> length fs = 64 \<and> (\<exists>n. 0 < n \<and> n \<le> 64 \<and> (\<forall>i < 64. is_used (fs ! i) \<longleftrightarrow> i < n))
     \<and> (\<forall>i < 64. is_used (fs ! i) \<longrightarrow> node_ok fs i)
     \<and> (\<forall>i < 64. \<forall>j < 64. is_used (fs ! i) \<longrightarrow> is_used (fs ! j) \<longrightarrow> parent_idx (fs ! i) = parent_idx (fs ! j)
          \<longrightarrow> node_name (fs ! i) = node_name (fs ! j) \<longrightarrow> i = j)"

lemma fs_inv_node:
  assumes "fs_inv fs" "is_used (fs ! i)" "i < 64"
  shows "node_ok fs i"
  using assms by (simp add: fs_inv_def)

lemma dir_at_root: "fs_inv fs \<Longrightarrow> dir_at fs 0"
proof -
  assume inv: "fs_inv fs"
  then have "is_used (fs ! 0)" by (auto simp: fs_inv_def)
  with fs_inv_node [OF inv this] show ?thesis by (simp add: dir_at_def node_ok_def)
qed

lemma dir_at_parent:
  assumes "fs_inv fs" "dir_at fs i" "parent_idx (fs ! nat i) \<noteq> -1"
  shows "dir_at fs (parent_idx (fs ! nat i))"
proof -
  have "nat i < 64" "is_used (fs ! nat i)" using assms(2) by (auto simp: dir_at_def)
  then have "node_ok fs (nat i)" using fs_inv_node [OF assms(1)] by blast
  then show ?thesis using assms(3) unfolding node_ok_def by (simp split: if_splits)
qed

lemma find_child_Some:
  assumes "find_child fs c tok \<noteq> -1"
  shows "0 \<le> find_child fs c tok" "find_child fs c tok < 64" "is_used (fs ! nat (find_child fs c tok))"
    "parent_idx (fs ! nat (find_child fs c tok)) = c" "node_name (fs ! nat (find_child fs c tok)) = tok"
proof -
  obtain i where i: "find (\<lambda>i. is_used (fs ! i) \<and> parent_idx (fs ! i) = c \<and> node_name (fs ! i) = tok) [0..<64] = Some i"
    using assms by (auto simp: find_child_def split: option.splits)
  then have c: "find_child fs c tok = int i" by (simp add: find_child_def)
  from i have "i < 64 \<and> is_used (fs ! i) \<and> parent_idx (fs ! i) = c \<and> node_name (fs ! i) = tok"
    unfolding find_Some_iff by auto
  then show "0 \<le> find_child fs c tok" "find_child fs c tok < 64" "is_used (fs ! nat (find_child fs c tok))"
    "parent_idx (fs ! nat (find_child fs c tok)) = c" "node_name (fs ! nat (find_child fs c tok)) = tok"
    unfolding c by simp_all
qed

lemma find_child_None:
  assumes "find_child fs c tok = -1" "i < 64" "is_used (fs ! i)" "parent_idx (fs ! i) = c"
  shows "node_name (fs ! i) \<noteq> tok"
  using assms by (auto simp: find_child_def find_None_iff split: option.splits)

lemma find_child_eq:
  assumes inv: "fs_inv fs" and i: "i < 64" "is_used (fs ! i)"
  shows "find_child fs (parent_idx (fs ! i)) (node_name (fs ! i)) = int i"
proof -
  let ?c = "find_child fs (parent_idx (fs ! i)) (node_name (fs ! i))"
  have ne: "?c \<noteq> -1" using find_child_None [of fs _ _ i] i by blast
  note f = find_child_Some [OF ne]
  have "nat ?c < 64" using f(1,2) by simp
  then have "nat ?c = i" using inv i f unfolding fs_inv_def by blast
  then show ?thesis using f(1) by simp
qed

lemma path_token_good: "path_token p = Some (tok, p') \<Longrightarrow> tok \<noteq> [] \<and> slash \<notin> set tok"
  using hd_dropWhile [of "\<lambda>c. c = slash" p]
  by (auto simp: path_token_def Let_def takeWhile_eq_Nil_iff dest: set_takeWhileD split: if_splits)

text \<open>What \<^verbatim>\<open>resolve_path\<close> can answer: failure below the last component, a directory, or a last component
  with the directory it is looked up in.\<close>

definition resolved :: "ramfs_node list \<Rightarrow> int \<times> int option \<times> u8 list option \<Rightarrow> bool" where
  "resolved fs r \<longleftrightarrow> (case r of
      (i, None, _) \<Rightarrow> i = -1
    | (i, Some p, None) \<Rightarrow> dir_at fs i \<and> p = parent_idx (fs ! nat i)
    | (i, Some d, Some nm) \<Rightarrow> dir_at fs d \<and> good_name nm \<and> i = find_child fs d nm)"

lemma resolve_loop_resolved:
  assumes "fs_inv fs" and "dir_at fs c"
  shows "\<exists>r. resolve_loop fs c p = Some r \<and> resolved fs r"
  using assms
proof (induction fs c p rule: resolve_loop.induct)
  case (1 fs c p)
  have c: "0 \<le> c" "c < 64" using "1.prems"(2) by (simp_all add: dir_at_def)
  show ?case
  proof (cases "path_token p")
    case None
    then have "resolve_loop fs c p = Some (c, Some (parent_idx (fs ! nat c)), None)"
      using c by (simp add: resolve_loop.simps [of fs c p])
    then show ?thesis using "1.prems"(2) by (simp add: resolved_def)
  next
    case (Some tp)
    obtain tok p' where tp: "path_token p = Some (tok, p')" using Some by (cases tp) simp
    have g: "tok \<noteq> [] \<and> slash \<notin> set tok" by (rule path_token_good [OF tp])
    have guard: "\<not> (c < 0 \<or> int 64 \<le> c)" using c by simp
    consider "tok = [46]" | "tok = [46, 46]" | "tok \<noteq> [46]" "tok \<noteq> [46, 46]" "p' \<noteq> []" | "tok \<noteq> [46]" "tok \<noteq> [46, 46]" "p' = []" by blast
    then show ?thesis
    proof cases
      case 1
      then have "resolve_loop fs c p = resolve_loop fs c p'" using c tp by (simp add: resolve_loop.simps [of fs c p])
      then show ?thesis using "1.IH"(1) [OF guard tp refl 1 "1.prems"] by simp
    next
      case 2
      let ?d = "if parent_idx (fs ! nat c) \<noteq> -1 then parent_idx (fs ! nat c) else c"
      have "dir_at fs ?d" using dir_at_parent [OF "1.prems"] "1.prems"(2) by simp
      moreover have "resolve_loop fs c p = resolve_loop fs ?d p'" using c tp 2 by (simp add: resolve_loop.simps [of fs c p])
      ultimately show ?thesis using "1.IH"(2) [OF guard tp refl _ 2 "1.prems"(1)] 2 by simp
    next
      case 3
      let ?f = "find_child fs c tok"
      show ?thesis
      proof (cases "?f = -1 \<or> node_type (fs ! nat ?f) \<noteq> RAMFS_TYPE_DIR")
        case True
        then have "resolve_loop fs c p = Some (-1, None, None)" using c tp 3 by (simp add: resolve_loop.simps [of fs c p] Let_def)
        then show ?thesis by (simp add: resolved_def)
      next
        case False
        then have "dir_at fs ?f" using find_child_Some [of fs c tok] by (simp add: dir_at_def)
        moreover have "resolve_loop fs c p = resolve_loop fs ?f p'" using c tp 3 False by (simp add: resolve_loop.simps [of fs c p] Let_def)
        ultimately show ?thesis using "1.IH"(3) [OF guard tp refl 3(1,2) refl 3(3) False "1.prems"(1)] by simp
      qed
    next
      case 4
      then have "resolve_loop fs c p = Some (find_child fs c tok, Some c, Some tok)" using c tp by (simp add: resolve_loop.simps [of fs c p] Let_def)
      then show ?thesis using "1.prems"(2) g 4 by (simp add: resolved_def good_name_def)
    qed
  qed
qed

definition new_node :: "u8 list \<Rightarrow> int \<Rightarrow> int \<Rightarrow> nat \<Rightarrow> ramfs_node" where
  "new_node nm ty d i = zero_node\<lparr>is_used := True, inode_idx := int i, node_name := nm, node_type := ty, parent_idx := d\<rparr>"

lemma make_node_eq:
  assumes "make_node nm ty d s = Some (i, s')" "length (files s) = 64"
  shows "i < 64" "\<not> is_used (files s ! i)" "\<And>j. j < i \<Longrightarrow> is_used (files s ! j)" "s' = s\<lparr>files := (files s)[i := new_node nm ty d i]\<rparr>"
proof -
  obtain s1 where "find (\<lambda>i. \<not> is_used (files s ! i)) [0..<64] = Some i"
    "s1 = set_node i (\<lambda>_. zero_node\<lparr>is_used := True, inode_idx := int i\<rparr>) s"
    "s' = set_node i (\<lambda>n. n\<lparr>node_name := nm, node_type := ty, parent_idx := d\<rparr>) s1"
    using assms(1) by (auto simp: make_node_def alloc_inode_def)
  then show "i < 64" "\<not> is_used (files s ! i)" "\<And>j. j < i \<Longrightarrow> is_used (files s ! j)" "s' = s\<lparr>files := (files s)[i := new_node nm ty d i]\<rparr>"
    using assms(2) unfolding find_Some_iff by (auto simp: set_node_def new_node_def)
qed

text \<open>Hanging a new node under a directory keeps the tree.\<close>

lemma fs_inv_new_node:
  assumes inv: "fs_inv fs" and i: "i < 64" "\<not> is_used (fs ! i)" "\<And>j. j < i \<Longrightarrow> is_used (fs ! j)"
    and d: "dir_at fs d" and nm: "good_name nm" "length nm < 32" and new: "find_child fs d nm = -1"
    and ty: "ty \<in> {RAMFS_TYPE_FILE, RAMFS_TYPE_DIR}"
    and fs': "fs' = fs[i := v]" "v = new_node nm ty d i\<lparr>node_content := c, node_size := z\<rparr>"
  shows "fs_inv fs'"
proof -
  have len: "length fs = 64" using inv by (simp add: fs_inv_def)
  obtain n where n: "0 < n" "n \<le> 64" "\<And>j. j < 64 \<Longrightarrow> is_used (fs ! j) \<longleftrightarrow> j < n" using inv by (auto simp: fs_inv_def)
  have ni: "i = n"
  proof (rule ccontr)
    assume "i \<noteq> n"
    then consider "i < n" | "n < i" by linarith
    then show False using i n(3) [of i] n(3) [of n] by cases auto
  qed
  have at: "fs' ! j = (if j = i then v else fs ! j)" for j using i(1) len by (simp add: fs'(1) nth_list_update)
  have used: "is_used (fs' ! j) \<longleftrightarrow> j < Suc n" if "j < 64" for j using at n(3) [OF that] that ni by (auto simp: fs'(2) new_node_def)
  have dirs: "dir_at fs' j" if "dir_at fs j" for j
    using that i(2) by (auto simp: dir_at_def at)
  have d64: "nat d < 64" "is_used (fs ! nat d)" "0 \<le> d" using d by (auto simp: dir_at_def)
  then have dn: "d < int i" "0 \<le> d" using n(3) [OF d64(1)] ni by auto
  have ok: "node_ok fs' j" if j: "j < 64" "is_used (fs' ! j)" for j
  proof (cases "j = i")
    case True
    then show ?thesis using dirs [OF d] dn nm ty ni n(1) at [of i] by (auto simp: node_ok_def fs'(2) new_node_def)
  next
    case False
    then have "is_used (fs ! j)" using j at by simp
    then have "node_ok fs j" using fs_inv_node [OF inv] j by blast
    then show ?thesis using False at dirs by (simp add: node_ok_def split: if_splits)
  qed
  have uniq: "j = k" if "j < 64" "k < 64" "is_used (fs' ! j)" "is_used (fs' ! k)" "parent_idx (fs' ! j) = parent_idx (fs' ! k)" "node_name (fs' ! j) = node_name (fs' ! k)" for j k
  proof -
    have v: "parent_idx v = d" "node_name v = nm" by (simp_all add: fs'(2) new_node_def)
    have one: "a = i \<Longrightarrow> b = i" if "b < 64" "is_used (fs' ! b)" "parent_idx (fs' ! a) = parent_idx (fs' ! b)" "node_name (fs' ! a) = node_name (fs' ! b)" for a b
      using find_child_None [OF new that(1)] that(2-4) v by (cases "b = i") (simp_all add: at)
    consider "j = i" | "k = i" | "j \<noteq> i" "k \<noteq> i" by blast
    then show ?thesis
    proof cases
      case 1
      then show ?thesis using one [of k j] that by simp
    next
      case 2
      then show ?thesis using one [of j k] that by simp
    next
      case 3
      then have "is_used (fs ! j)" "is_used (fs ! k)" "parent_idx (fs ! j) = parent_idx (fs ! k)" "node_name (fs ! j) = node_name (fs ! k)"
        using that by (simp_all add: at)
      then show ?thesis using inv that(1,2) unfolding fs_inv_def by blast
    qed
  qed
  have "Suc n \<le> 64" using i(1) ni by simp
  then show ?thesis unfolding fs_inv_def using len used ok uniq fs'(1) by (intro conjI exI [of _ "Suc n"]) auto
qed

text \<open>Changing the content or the size of a node does not concern the tree.\<close>

lemma fs_inv_data:
  assumes "fs_inv fs" "i < 64"
  shows "fs_inv (fs[i := (fs ! i)\<lparr>node_content := c, node_size := z\<rparr>])"
proof -
  let ?fs = "fs[i := (fs ! i)\<lparr>node_content := c, node_size := z\<rparr>]"
  have at: "?fs ! j = (if j = i then (fs ! i)\<lparr>node_content := c, node_size := z\<rparr> else fs ! j)" for j
    using assms by (auto simp: fs_inv_def nth_list_update)
  have f: "is_used (?fs ! j) = is_used (fs ! j)" "parent_idx (?fs ! j) = parent_idx (fs ! j)" "node_name (?fs ! j) = node_name (fs ! j)"
    "node_type (?fs ! j) = node_type (fs ! j)" "inode_idx (?fs ! j) = inode_idx (fs ! j)" for j
    unfolding at by simp_all
  show ?thesis using assms(1) unfolding fs_inv_def node_ok_def dir_at_def f length_list_update .
qed

subsection \<open>Open files\<close>

text \<open>
  Every open descriptor of every process has a handle of its own, which is in use and leads to a used
  node; the working directories are directories.
\<close>

definition fds_inv :: "'a ramfs_scheme \<Rightarrow> bool" where
  "fds_inv s \<longleftrightarrow> length (global_file_table s) = 128
     \<and> (\<forall>p. length (fd_table (pcbs s p)) = 16 \<and> dir_at (files s) (cwd_inode (pcbs s p)))
     \<and> (\<forall>p. \<forall>i < 16. \<forall>h. fd_table (pcbs s p) ! i = Some h \<longrightarrow> h < 128 \<and> file_ref_count (global_file_table s ! h) \<noteq> 0
          \<and> (\<exists>n < 64. file_node (global_file_table s ! h) = Some n \<and> is_used (files s ! n)))
     \<and> (\<forall>p q. \<forall>i < 16. \<forall>j < 16. \<forall>h. fd_table (pcbs s p) ! i = Some h \<longrightarrow> fd_table (pcbs s q) ! j = Some h \<longrightarrow> p = q \<and> i = j)"

definition ramfs_ok :: "'a ramfs_scheme \<Rightarrow> bool" where
  "ramfs_ok s \<longleftrightarrow> fs_inv (files s) \<and> fds_inv s"

lemma fds_inv_fd:
  assumes "fds_inv s" "fd_table (pcbs s p) ! i = Some h" "i < 16"
  shows "h < 128" "file_ref_count (global_file_table s ! h) \<noteq> 0"
    "\<exists>n < 64. file_node (global_file_table s ! h) = Some n \<and> is_used (files s ! n)"
  using assms by (auto simp: fds_inv_def)

lemma fd_handle_cases:
  assumes "current_proc s \<noteq> 0"
  obtains (invalid) "fd_handle fd s = Some None"
  | (valid) h where "fd_handle fd s = Some (Some h)" "nat fd < 16" "fd_table (pcbs s (current_proc s)) ! nat fd = Some h"
proof (cases "fd < 0 \<or> fd \<ge> 16")
  case True
  then show ?thesis using invalid by (simp add: fd_handle_def)
next
  case False
  then show ?thesis using assms invalid valid by (cases "fd_table (pcbs s (current_proc s)) ! nat fd") (auto simp: fd_handle_def)
qed

text \<open>Updates that leave the descriptors and the node of every handle alone.\<close>

lemma fds_inv_update:
  assumes "fds_inv s" and "length (global_file_table s') = 128"
    and "\<And>p. fd_table (pcbs s' p) = fd_table (pcbs s p)" "\<And>p. dir_at (files s') (cwd_inode (pcbs s' p))"
    and "\<And>h. h < 128 \<Longrightarrow> file_ref_count (global_file_table s' ! h) = file_ref_count (global_file_table s ! h)
      \<and> file_node (global_file_table s' ! h) = file_node (global_file_table s ! h)"
    and "\<And>n. n < 64 \<Longrightarrow> is_used (files s ! n) \<Longrightarrow> is_used (files s' ! n)"
  shows "fds_inv s'"
proof -
  have a: "length (fd_table (pcbs s' p)) = 16 \<and> dir_at (files s') (cwd_inode (pcbs s' p))" for p
    using assms(1,3,4) by (simp add: fds_inv_def)
  have b: "h < 128 \<and> file_ref_count (global_file_table s' ! h) \<noteq> 0 \<and> (\<exists>n < 64. file_node (global_file_table s' ! h) = Some n \<and> is_used (files s' ! n))"
    if "i < 16" "fd_table (pcbs s' p) ! i = Some h" for p i h
    using fds_inv_fd [OF assms(1), of p i h] that assms(3,5,6) by auto
  have c: "p = q \<and> i = j" if "i < 16" "j < 16" "fd_table (pcbs s' p) ! i = Some h" "fd_table (pcbs s' q) ! j = Some h" for p q i j h
    using assms(1,3) that unfolding fds_inv_def by metis
  show ?thesis unfolding fds_inv_def using assms(2) a b c by blast
qed

lemma set_ops_fields [simp]:
  "files (set_file h f s) = files s" "pcbs (set_file h f s) = pcbs s" "current_proc (set_file h f s) = current_proc s" "kmem (set_file h f s) = kmem s"
  "global_file_table (set_file h f s) = (global_file_table s)[h := f (global_file_table s ! h)]"
  "files (set_node i g s) = (files s)[i := g (files s ! i)]" "pcbs (set_node i g s) = pcbs s" "current_proc (set_node i g s) = current_proc s"
  "global_file_table (set_node i g s) = global_file_table s" "kmem (set_node i g s) = kmem s"
  "files (set_pcb p k s) = files s" "global_file_table (set_pcb p k s) = global_file_table s"
  by (simp_all add: set_file_def set_node_def set_pcb_def)

lemma ramfs_layer:
  assumes "proc.more s' = proc.more s"
  shows "files s' = files s" "global_file_table s' = global_file_table s" "ramfs.more s' = ramfs.more s"
  using assms by (cases s; cases s'; simp)+

lemma kmalloc_ramfs:
  assumes "kmalloc n s = Some (p, s')"
  shows "files s' = files s" "global_file_table s' = global_file_table s" "pcbs s' = pcbs s" "current_proc s' = current_proc s"
proof -
  note k = proc_layer [OF vmm_layer(3) [OF kmalloc_layers [OF assms]]]
  show "files s' = files s" "global_file_table s' = global_file_table s" "pcbs s' = pcbs s" "current_proc s' = current_proc s"
    using ramfs_layer [OF k(17)] k(1,6) by simp_all
qed

lemma ramfs_ok_kmem: "ramfs_ok s \<Longrightarrow> files s' = files s \<Longrightarrow> global_file_table s' = global_file_table s \<Longrightarrow> pcbs s' = pcbs s \<Longrightarrow> ramfs_ok s'"
  by (simp add: ramfs_ok_def fds_inv_def)

text \<open>A handle that no descriptor refers to can be given any contents.\<close>

lemma set_free_handle_ok:
  assumes ok: "ramfs_ok s" and h: "h < 128" and free: "\<And>p i. i < 16 \<Longrightarrow> fd_table (pcbs s p) ! i \<noteq> Some h"
  shows "ramfs_ok (set_file h f s)"
proof -
  have len: "length (global_file_table s) = 128" using ok by (simp add: ramfs_ok_def fds_inv_def)
  have at: "global_file_table (set_file h f s) ! k = (if k = h then f (global_file_table s ! h) else global_file_table s ! k)" for k
    using h len by (auto simp: nth_list_update)
  have "fds_inv (set_file h f s)" unfolding fds_inv_def at
    using ok free unfolding ramfs_ok_def fds_inv_def by auto
  then show ?thesis using ok by (simp add: ramfs_ok_def)
qed

lemma lowest_fd_Some: "lowest_fd fds = Some i \<Longrightarrow> 3 \<le> i \<and> i < 16 \<and> fds ! i = None"
proof -
  assume "lowest_fd fds = Some i"
  then obtain k where "k < length [3..<16 :: nat]" "i = [3..<16] ! k" "fds ! i = None"
    unfolding lowest_fd_def find_Some_iff by auto
  then show ?thesis by (simp only: nth_upt length_upt) auto
qed

lemma open_handle_ok:
  assumes ok: "ramfs_ok s" and n: "n < 64" "is_used (files s ! n)"
  shows "ramfs_ok (snd (open_handle n s))"
proof (cases "alloc_file_handle s")
  case None
  then show ?thesis using ok by (simp add: open_handle_def)
next
  case (Some hs)
  then obtain h where hd: "find (\<lambda>i. file_ref_count (global_file_table s ! i) = 0) [0..<128] = Some h"
    and hs: "hs = (h, set_file h (\<lambda>_. zero_file\<lparr>file_ref_count := 1\<rparr>) s)" by (auto simp: alloc_file_handle_def)
  have h: "h < 128" "file_ref_count (global_file_table s ! h) = 0" using hd unfolding find_Some_iff by auto
  have inv: "fds_inv s" using ok by (simp add: ramfs_ok_def)
  have free: "fd_table (pcbs s p) ! i \<noteq> Some h" if "i < 16" for p i using fds_inv_fd(2) [OF inv, of p i h] that h by auto
  define s2 where "s2 = set_file h (\<lambda>f. f\<lparr>file_node := Some n, file_offset := 0\<rparr>) (snd hs)"
  have len: "length (global_file_table s) = 128" using inv by (simp add: fds_inv_def)
  have s2: "s2 = set_file h (\<lambda>_. \<lparr>file_node = Some n, file_offset = 0, file_ref_count = 1\<rparr>) s"
    using h(1) len by (simp add: s2_def hs set_file_def zero_file_def)
  have ok2: "ramfs_ok s2" unfolding s2 by (rule set_free_handle_ok [OF ok h(1) free])
  have same: "pcbs s2 = pcbs s" "files s2 = files s" by (simp_all add: s2)
  have okf: "ramfs_ok (free_file_handle h s2)"
    unfolding free_file_handle_def using ok2 h(1) free same by (intro set_free_handle_ok) simp_all
  show ?thesis
  proof (cases "current_proc s2 = 0 \<or> lowest_fd (fd_table (pcbs s2 (current_proc s2))) = None")
    case True
    then show ?thesis using okf Some by (auto simp: open_handle_def hs s2_def Let_def split: option.splits)
  next
    case False
    then obtain i where i: "lowest_fd (fd_table (pcbs s2 (current_proc s2))) = Some i" by auto
    have i16: "i < 16" "fd_table (pcbs s (current_proc s)) ! i = None" using lowest_fd_Some [OF i] same by (simp_all add: s2)
    have res: "snd (open_handle n s) = set_fd i (Some h) s2"
      using False i Some by (simp add: open_handle_def hs s2_def Let_def)
    let ?c = "current_proc s"
    have fdt: "fd_table (pcbs (set_fd i (Some h) s2) p) ! j = (if p = ?c \<and> j = i then Some h else fd_table (pcbs s p) ! j)" if "j < 16" for p j
      using that inv by (auto simp: set_fd_def same s2 fds_inv_def nth_list_update)
    have at: "global_file_table s2 ! k = (if k = h then \<lparr>file_node = Some n, file_offset = 0, file_ref_count = 1\<rparr> else global_file_table s ! k)" for k
      using h len by (auto simp: s2 nth_list_update)
    have "fds_inv (set_fd i (Some h) s2)" unfolding fds_inv_def
    proof (intro conjI allI impI)
      fix p show "length (fd_table (pcbs (set_fd i (Some h) s2) p)) = 16" "dir_at (files (set_fd i (Some h) s2)) (cwd_inode (pcbs (set_fd i (Some h) s2) p))"
        using inv by (auto simp: set_fd_def s2 fds_inv_def)
    next
      fix p j k assume j: "j < 16" and k: "fd_table (pcbs (set_fd i (Some h) s2) p) ! j = Some k"
      have "k < 128 \<and> file_ref_count (global_file_table s2 ! k) \<noteq> 0 \<and> (\<exists>n < 64. file_node (global_file_table s2 ! k) = Some n \<and> is_used (files s ! n))"
      proof (cases "k = h")
        case True
        then show ?thesis using h n at by auto
      next
        case False
        then have "fd_table (pcbs s p) ! j = Some k" using k fdt [OF j] by (auto split: if_splits)
        then show ?thesis using fds_inv_fd [OF inv _ j] False at by auto
      qed
      then show "k < 128" "file_ref_count (global_file_table (set_fd i (Some h) s2) ! k) \<noteq> 0"
        "\<exists>n < 64. file_node (global_file_table (set_fd i (Some h) s2) ! k) = Some n \<and> is_used (files (set_fd i (Some h) s2) ! n)"
        by (auto simp: set_fd_def same)
    next
      fix p q j l k assume a: "j < 16" "l < 16" "fd_table (pcbs (set_fd i (Some h) s2) p) ! j = Some k" "fd_table (pcbs (set_fd i (Some h) s2) q) ! l = Some k"
      have "p = q \<and> j = l"
      proof (cases "k = h")
        case True
        then show ?thesis using a fdt [OF a(1), of p] fdt [OF a(2), of q] free by (auto split: if_splits)
      next
        case False
        then have "fd_table (pcbs s p) ! j = Some k" "fd_table (pcbs s q) ! l = Some k"
          using a fdt [OF a(1), of p] fdt [OF a(2), of q] by (auto split: if_splits)
        then show ?thesis using inv a(1,2) unfolding fds_inv_def by blast
      qed
      then show "p = q" "j = l" by auto
    qed (use inv in \<open>simp add: set_fd_def s2 fds_inv_def\<close>)
    then show ?thesis using ok res by (simp add: ramfs_ok_def set_fd_def same)
  qed
qed

subsection \<open>Every call keeps the invariant\<close>

lemma dir_at_grows:
  assumes "dir_at fs d" "\<not> is_used (fs ! i)" "i < length fs"
  shows "dir_at (fs[i := v]) d"
  using assms by (cases "nat d = i") (auto simp: dir_at_def)

lemma make_node_ok:
  assumes ok: "ramfs_ok s" and mk: "make_node nm ty d s = Some (i, s')"
    and "dir_at (files s) d" "good_name nm" "length nm < 32" "find_child (files s) d nm = -1" "ty \<in> {RAMFS_TYPE_FILE, RAMFS_TYPE_DIR}"
  shows "ramfs_ok (set_node i (\<lambda>n. n\<lparr>node_content := c, node_size := z\<rparr>) s')" "i < 64"
    "files (set_node i (\<lambda>n. n\<lparr>node_content := c, node_size := z\<rparr>) s') = (files s)[i := new_node nm ty d i\<lparr>node_content := c, node_size := z\<rparr>]"
proof -
  have inv: "fs_inv (files s)" and fd: "fds_inv s" using ok by (simp_all add: ramfs_ok_def)
  have len: "length (files s) = 64" using inv by (simp add: fs_inv_def)
  note m = make_node_eq [OF mk len]
  let ?t = "set_node i (\<lambda>n. n\<lparr>node_content := c, node_size := z\<rparr>) s'"
  show i: "i < 64" by (rule m(1))
  show fs': "files ?t = (files s)[i := new_node nm ty d i\<lparr>node_content := c, node_size := z\<rparr>]"
    using i len by (simp add: m(4))
  have "fs_inv (files ?t)" unfolding fs' by (rule fs_inv_new_node [OF inv m(1-3) assms(3-7) refl refl])
  moreover have "fds_inv ?t"
  proof (rule fds_inv_update [OF fd])
    fix p show "dir_at (files ?t) (cwd_inode (pcbs ?t p))"
      unfolding fs' using fd dir_at_grows [OF _ m(2)] i len by (simp add: m(4) fds_inv_def)
  next
    fix n assume "n < 64" "is_used (files s ! n)"
    then show "is_used (files ?t ! n)" unfolding fs' using m(2) by (cases "n = i") simp_all
  qed (use fd in \<open>simp_all add: m(4) fds_inv_def\<close>)
  ultimately show "ramfs_ok ?t" by (simp add: ramfs_ok_def)
qed

lemma resolve_path_resolved:
  assumes ok: "ramfs_ok s"
  shows "resolve_path path False s \<noteq> None" and "resolve_path path out s = Some r \<Longrightarrow> resolved (files s) r"
    and "resolve_path path True s = Some (i, d, Some nm) \<Longrightarrow> length nm < 32"
proof -
  have inv: "fs_inv (files s)" using ok by (simp add: ramfs_ok_def)
  have cwd: "dir_at (files s) (cwd_inode (pcbs s p))" for p using ok by (simp add: ramfs_ok_def fds_inv_def)
  have rl: "\<exists>r. resolve_loop (files s) c p = Some r \<and> resolved (files s) r" if "c = 0 \<or> c = cwd_inode (pcbs s (current_proc s))" for c p
    using resolve_loop_resolved [OF inv] that cwd dir_at_root [OF inv] by blast
  have rp: "\<exists>r. resolved (files s) r \<and> resolve_path path out s = (if out \<and> (case snd (snd r) of None \<Rightarrow> False | Some n \<Rightarrow> 32 \<le> length n) then None else Some r)" for out
  proof (cases path)
    case None
    then show ?thesis by (intro exI [of _ "(-1, None, None)"]) (simp add: resolve_path_def resolved_def)
  next
    case (Some p)
    define c where "c = (if p \<noteq> [] \<and> hd p = slash then 0 else if current_proc s \<noteq> 0 then cwd_inode (pcbs s (current_proc s)) else 0)"
    define q where "q = take 127 (if p \<noteq> [] \<and> hd p = slash then tl p else p)"
    have "c = 0 \<or> c = cwd_inode (pcbs s (current_proc s))" by (simp add: c_def)
    then obtain r where r: "resolve_loop (files s) c q = Some r" "resolved (files s) r" using rl by blast
    have "resolve_path path out s = (if out \<and> (case snd (snd r) of None \<Rightarrow> False | Some n \<Rightarrow> 32 \<le> length n) then None else Some r)"
      using r(1) unfolding Some resolve_path_def Let_def option.case c_def [symmetric] q_def [symmetric] by (cases r) simp
    then show ?thesis using r(2) by blast
  qed
  show "resolve_path path False s \<noteq> None" using rp [of False] by auto
  show "resolve_path path out s = Some r \<Longrightarrow> resolved (files s) r" using rp [of out] by (auto split: if_splits)
  show "resolve_path path True s = Some (i, d, Some nm) \<Longrightarrow> length nm < 32"
    by (auto simp: resolve_path_def Let_def split: option.splits if_splits)
qed

text \<open>The case in which \<^verbatim>\<open>mkdir\<close> and \<^verbatim>\<open>open\<close> make a node.\<close>

lemma resolved_new:
  assumes "ramfs_ok s" "resolve_path path True s = Some (-1, Some d, nm)"
  shows "dir_at (files s) d" "\<exists>n. nm = Some n \<and> good_name n \<and> length n < 32 \<and> find_child (files s) d n = -1"
proof -
  have r: "resolved (files s) (-1, Some d, nm)" by (rule resolve_path_resolved(2) [OF assms])
  then obtain n where n: "nm = Some n" by (cases nm) (auto simp: resolved_def dir_at_def)
  then show "dir_at (files s) d" "\<exists>n. nm = Some n \<and> good_name n \<and> length n < 32 \<and> find_child (files s) d n = -1"
    using r resolve_path_resolved(3) [OF assms(1), of path "-1" "Some d" n] assms(2) by (auto simp: resolved_def)
qed

lemma resolved_used:
  assumes "ramfs_ok s" "resolve_path path out s = Some (i, d, nm)" "i \<noteq> -1"
  shows "0 \<le> i" "nat i < 64" "is_used (files s ! nat i)"
proof -
  have r: "resolved (files s) (i, d, nm)" by (rule resolve_path_resolved(2) [OF assms(1,2)])
  have "0 \<le> i \<and> i < 64 \<and> is_used (files s ! nat i)"
  proof (cases d)
    case None
    then show ?thesis using r assms(3) by (simp add: resolved_def)
  next
    case (Some d')
    then show ?thesis using r assms(3) find_child_Some [of "files s" d'] by (cases nm) (auto simp: resolved_def dir_at_def)
  qed
  then show "0 \<le> i" "nat i < 64" "is_used (files s ! nat i)" by auto
qed

lemma mkdir_ok:
  assumes ok: "ramfs_ok s" and run: "ramfs_mkdir path s = Some (r, s')"
  shows "ramfs_ok s'"
proof -
  obtain inode par nm where rp: "resolve_path path True s = Some (inode, par, nm)"
    using run by (cases "resolve_path path True s") (auto simp: ramfs_mkdir_def)
  show ?thesis
  proof (cases "inode = -1 \<and> par \<noteq> None \<and> par \<noteq> Some (-1)")
    case True
    then obtain d where d: "par = Some d" "d \<noteq> -1" by auto
    obtain n where n: "nm = Some n" "good_name n" "length n < 32" "find_child (files s) d n = -1"
      using resolved_new(2) [OF ok] rp True d by blast
    have dd: "dir_at (files s) d" using resolved_new(1) [OF ok] rp True d by blast
    show ?thesis
    proof (cases "make_node n RAMFS_TYPE_DIR d s")
      case None
      then show ?thesis using run rp True d n ok by (simp add: ramfs_mkdir_def)
    next
      case (Some mk)
      obtain i s1 where i: "make_node n RAMFS_TYPE_DIR d s = Some (i, s1)" using Some by (cases mk) simp
      have s1: "s1 = s\<lparr>files := (files s)[i := new_node n 2 d i]\<rparr>" "i < length (files s)"
        using make_node_eq [OF i] ok by (auto simp: ramfs_ok_def fs_inv_def)
      have "set_node i (\<lambda>x. x\<lparr>node_content := 0, node_size := 0\<rparr>) s1 = set_node i (\<lambda>x. x\<lparr>node_size := 0\<rparr>) s1"
        using s1(2) unfolding s1(1) set_node_def by (simp add: new_node_def zero_node_def)
      then have "s' = set_node i (\<lambda>x. x\<lparr>node_content := 0, node_size := 0\<rparr>) s1"
        using run rp True d n i by (simp add: ramfs_mkdir_def)
      then show ?thesis using make_node_ok(1) [OF ok i dd n(2-4)] by simp
    qed
  next
    case False
    then show ?thesis using run rp ok by (auto simp: ramfs_mkdir_def Let_def split: option.splits if_splits)
  qed
qed


lemma open_ok:
  assumes ok: "ramfs_ok s" and run: "ramfs_open path flags s = Some (r, s')"
  shows "ramfs_ok s'"
proof -
  obtain inode par nm where rp: "resolve_path path True s = Some (inode, par, nm)"
    using run by (cases "resolve_path path True s") (auto simp: ramfs_open_def)
  consider (found) "inode \<noteq> -1" | (new) d where "inode = -1" "bit flags 6" "par = Some d" "d \<noteq> -1"
    | (fail) "inode = -1" "\<not> bit flags 6 \<or> par = None \<or> par = Some (-1)" by (cases par) auto
  then show ?thesis
  proof cases
    case found
    then have "s' = snd (open_handle (nat inode) s)" using run rp by (simp add: ramfs_open_def Let_def prod_eq_iff)
    then show ?thesis using open_handle_ok [OF ok] resolved_used [OF ok rp found] by simp
  next
    case (new d)
    obtain n where n: "nm = Some n" "good_name n" "length n < 32" "find_child (files s) d n = -1"
      using resolved_new(2) [OF ok] rp new by blast
    have dd: "dir_at (files s) d" using resolved_new(1) [OF ok] rp new by blast
    show ?thesis
    proof (cases "make_node n RAMFS_TYPE_FILE d s")
      case None
      then show ?thesis using run rp new n ok by (simp add: ramfs_open_def)
    next
      case (Some mk)
      obtain i s1 where i: "make_node n RAMFS_TYPE_FILE d s = Some (i, s1)" using Some by (cases mk) simp
      obtain p s2 where km: "kmalloc 4096 s1 = Some (p, s2)" "p \<noteq> 0"
        and s': "s' = snd (open_handle i ((set_node i (\<lambda>n. n\<lparr>node_size := 0, node_content := p\<rparr>) s2)
          \<lparr>kmem := memset (kmem (set_node i (\<lambda>n. n\<lparr>node_size := 0, node_content := p\<rparr>) s2)) p 0 4096\<rparr>))"
        using run rp new n i by (auto simp: ramfs_open_def Let_def split: bind_splits if_splits dest!: arg_cong [of _ _ snd])
      note k = kmalloc_ramfs [OF km(1)]
      let ?s4 = "(set_node i (\<lambda>n. n\<lparr>node_size := 0, node_content := p\<rparr>) s2)\<lparr>kmem := memset (kmem (set_node i (\<lambda>n. n\<lparr>node_size := 0, node_content := p\<rparr>) s2)) p 0 4096\<rparr>"
      have eq: "(\<lambda>n. n\<lparr>node_size := 0, node_content := p\<rparr>) = (\<lambda>n :: ramfs_node. n\<lparr>node_content := p, node_size := 0\<rparr>)" by (rule ext) simp
      note m1 = make_node_ok(1) [OF ok i dd n(2-4), where c = p and z = 0]
        and m2 = make_node_ok(2) [OF ok i dd n(2-4)] and m3 = make_node_ok(3) [OF ok i dd n(2-4), where c = p and z = 0]
      have ok4: "ramfs_ok ?s4"
        by (rule ramfs_ok_kmem [OF m1]) (simp_all add: k eq)
      have "files ?s4 ! i = new_node n 1 d i\<lparr>node_content := p, node_size := 0\<rparr>"
      proof -
        have "files ?s4 = files (set_node i (\<lambda>n. n\<lparr>node_content := p, node_size := 0\<rparr>) s1)" by (simp add: k eq)
        then show ?thesis using m2 m3 ok by (simp add: ramfs_ok_def fs_inv_def)
      qed
      then show ?thesis unfolding s' using m2 by (intro open_handle_ok [OF ok4]) (simp_all add: new_node_def)
    qed
  next
    case fail
    then show ?thesis using run rp ok by (auto simp: ramfs_open_def Let_def split: option.splits if_splits)
  qed
qed

text \<open>Moving the offset of a handle and changing the size of a node.\<close>

lemma set_offset_ok: "ramfs_ok s \<Longrightarrow> h < 128 \<Longrightarrow> ramfs_ok (set_file h (\<lambda>f. f\<lparr>file_offset := v\<rparr>) s)"
proof -
  assume ok: "ramfs_ok s" and h: "h < 128"
  then have fd: "fds_inv s" and len: "length (global_file_table s) = 128" by (simp_all add: ramfs_ok_def fds_inv_def)
  have "fds_inv (set_file h (\<lambda>f. f\<lparr>file_offset := v\<rparr>) s)"
    by (rule fds_inv_update [OF fd]) (use fd h len in \<open>auto simp: fds_inv_def nth_list_update\<close>)
  then show ?thesis using ok by (simp add: ramfs_ok_def)
qed

lemma set_size_ok: "ramfs_ok s \<Longrightarrow> i < 64 \<Longrightarrow> ramfs_ok (set_node i (\<lambda>n. n\<lparr>node_size := z\<rparr>) s)"
proof -
  assume ok: "ramfs_ok s" and i: "i < 64"
  then have inv: "fs_inv (files s)" and fd: "fds_inv s" and len: "length (files s) = 64" by (simp_all add: ramfs_ok_def fs_inv_def)
  have eq: "(files s ! i)\<lparr>node_content := node_content (files s ! i), node_size := z\<rparr> = (files s ! i)\<lparr>node_size := z\<rparr>" by simp
  have "fs_inv (files (set_node i (\<lambda>n. n\<lparr>node_size := z\<rparr>) s))"
    using fs_inv_data [OF inv i, where c = "node_content (files s ! i)" and z = z] unfolding eq by simp
  moreover have u: "is_used ((files s)[i := (files s ! i)\<lparr>node_size := z\<rparr>] ! n) = is_used (files s ! n)"
      "node_type ((files s)[i := (files s ! i)\<lparr>node_size := z\<rparr>] ! n) = node_type (files s ! n)" for n
    using i len by (auto simp: nth_list_update)
  have "fds_inv (set_node i (\<lambda>n. n\<lparr>node_size := z\<rparr>) s)"
    by (rule fds_inv_update [OF fd]) (use fd u in \<open>auto simp: fds_inv_def dir_at_def\<close>)
  ultimately show ?thesis by (simp add: ramfs_ok_def)
qed

lemma fd_handle_ok:
  assumes "ramfs_ok s" "fd_handle fd s = Some (Some h)"
  shows "h < 128" "\<exists>n < 64. file_node (global_file_table s ! h) = Some n \<and> is_used (files s ! n)" "nat fd < 16"
    "fd_table (pcbs s (current_proc s)) ! nat fd = Some h"
proof -
  show a: "nat fd < 16" "fd_table (pcbs s (current_proc s)) ! nat fd = Some h"
    using assms(2) by (auto simp: fd_handle_def split: if_splits)
  have "fds_inv s" using assms(1) by (simp add: ramfs_ok_def)
  then show "h < 128" "\<exists>n < 64. file_node (global_file_table s ! h) = Some n \<and> is_used (files s ! n)"
    using fds_inv_fd(1,3) a by blast+
qed

lemma read_ok:
  assumes ok: "ramfs_ok s" and run: "ramfs_read fd count s = Some (r, bs, s')"
  shows "ramfs_ok s'"
proof (cases "\<exists>h. fd_handle fd s = Some (Some h)")
  case True
  then obtain h where h: "fd_handle fd s = Some (Some h)" by blast
  obtain n where n: "file_node (global_file_table s ! h) = Some n" using fd_handle_ok(2) [OF ok h] by blast
  show ?thesis using run h n ok set_offset_ok [OF ok fd_handle_ok(1) [OF ok h]]
    by (auto simp: ramfs_read_def Let_def split: if_splits)
next
  case False
  then show ?thesis using run ok by (auto simp: ramfs_read_def split: option.splits)
qed

lemma write_ok:
  assumes ok: "ramfs_ok s" and run: "ramfs_write fd buf count s = Some (r, s')"
  shows "ramfs_ok s'"
proof (cases "\<exists>h. fd_handle fd s = Some (Some h)")
  case True
  then obtain h where h: "fd_handle fd s = Some (Some h)" by blast
  obtain n where n: "file_node (global_file_table s ! h) = Some n" "n < 64" using fd_handle_ok(2) [OF ok h] by blast
  have k: "ramfs_ok (s\<lparr>kmem := m\<rparr>)" for m by (rule ramfs_ok_kmem [OF ok]) simp_all
  have o: "ramfs_ok (set_file h (\<lambda>f. f\<lparr>file_offset := v\<rparr>) (s\<lparr>kmem := m\<rparr>))" for m v
    by (rule set_offset_ok [OF k fd_handle_ok(1) [OF ok h]])
  show ?thesis using run h n ok o set_size_ok [OF o n(2)]
    by (auto simp: ramfs_write_def Let_def split: if_splits)
next
  case False
  then show ?thesis using run ok by (auto simp: ramfs_write_def split: option.splits)
qed

lemma getdents_ok:
  assumes ok: "ramfs_ok s" and run: "ramfs_getdents64 fd count s = Some (r, ds, s')"
  shows "ramfs_ok s'"
proof (cases "\<exists>h. fd_handle fd s = Some (Some h)")
  case True
  then obtain h where h: "fd_handle fd s = Some (Some h)" by blast
  obtain n where n: "file_node (global_file_table s ! h) = Some n" using fd_handle_ok(2) [OF ok h] by blast
  show ?thesis using run h n ok set_offset_ok [OF ok fd_handle_ok(1) [OF ok h]]
    by (auto simp: ramfs_getdents64_def split: if_splits prod.splits)
next
  case False
  then show ?thesis using run ok by (auto simp: ramfs_getdents64_def split: option.splits)
qed

lemma chdir_ok:
  assumes ok: "ramfs_ok s" and run: "ramfs_chdir path s = Some (r, s')"
  shows "ramfs_ok s'"
proof -
  obtain inode par nm where rp: "resolve_path path False s = Some (inode, par, nm)"
    using run by (cases "resolve_path path False s") (auto simp: ramfs_chdir_def)
  show ?thesis
  proof (cases "inode \<noteq> -1 \<and> node_type (files s ! nat inode) = RAMFS_TYPE_DIR \<and> current_proc s \<noteq> 0")
    case True
    then have d: "dir_at (files s) inode" using resolved_used [OF ok rp] by (auto simp: dir_at_def)
    have fd: "fds_inv s" using ok by (simp add: ramfs_ok_def)
    have "fds_inv (set_pcb (current_proc s) (\<lambda>p. p\<lparr>cwd_inode := inode\<rparr>) s)"
      by (rule fds_inv_update [OF fd]) (use fd d in \<open>auto simp: fds_inv_def\<close>)
    moreover have "s' = set_pcb (current_proc s) (\<lambda>p. p\<lparr>cwd_inode := inode\<rparr>) s" using run rp True by (simp add: ramfs_chdir_def)
    ultimately show ?thesis using ok by (simp add: ramfs_ok_def)
  next
    case False
    then show ?thesis using run rp ok by (auto simp: ramfs_chdir_def split: if_splits)
  qed
qed

lemma close_ok:
  assumes ok: "ramfs_ok s" and run: "ramfs_close fd s = Some s'"
  shows "ramfs_ok s'"
proof (cases "\<exists>h. fd_handle fd s = Some (Some h)")
  case True
  then obtain h where h: "fd_handle fd s = Some (Some h)" by blast
  note f = fd_handle_ok [OF ok h]
  have fd: "fds_inv s" and len: "length (global_file_table s) = 128" using ok by (simp_all add: ramfs_ok_def fds_inv_def)
  let ?c = "current_proc s"
  define t where "t = set_pcb ?c (\<lambda>p. p\<lparr>fd_table := (fd_table p)[nat fd := None]\<rparr>) s"
  have fdt: "fd_table (pcbs t p) ! j = (if p = ?c \<and> j = nat fd then None else fd_table (pcbs s p) ! j)" if "j < 16" for p j
    using that fd by (auto simp: t_def fds_inv_def nth_list_update)
  have t: "fds_inv t" unfolding fds_inv_def
  proof (intro conjI allI impI)
    fix p show "length (fd_table (pcbs t p)) = 16" "dir_at (files t) (cwd_inode (pcbs t p))" using fd by (auto simp: t_def fds_inv_def)
  next
    fix p j k assume j: "j < 16" and k: "fd_table (pcbs t p) ! j = Some k"
    then have "fd_table (pcbs s p) ! j = Some k" using fdt [OF j, of p] by (auto split: if_splits)
    then show "k < 128" "file_ref_count (global_file_table t ! k) \<noteq> 0"
      "\<exists>n < 64. file_node (global_file_table t ! k) = Some n \<and> is_used (files t ! n)"
      using fds_inv_fd [OF fd _ j] by (auto simp: t_def)
  next
    fix p q j l k assume a: "j < 16" "l < 16" "fd_table (pcbs t p) ! j = Some k" "fd_table (pcbs t q) ! l = Some k"
    then have "fd_table (pcbs s p) ! j = Some k" "fd_table (pcbs s q) ! l = Some k"
      using fdt [OF a(1), of p] fdt [OF a(2), of q] by (auto split: if_splits)
    then show "p = q" "j = l" using fd a(1,2) unfolding fds_inv_def by blast+
  qed (use len in \<open>simp add: t_def\<close>)
  have okt: "ramfs_ok t" using ok t by (simp add: ramfs_ok_def) (simp add: t_def)
  have free: "fd_table (pcbs t p) ! j \<noteq> Some h" if "j < 16" for p j
  proof
    assume "fd_table (pcbs t p) ! j = Some h"
    then have "fd_table (pcbs s p) ! j = Some h" "\<not> (p = ?c \<and> j = nat fd)" using fdt [OF that, of p] by (auto split: if_splits)
    then show False using fd f(3,4) that unfolding fds_inv_def by blast
  qed
  have s': "s' = set_fd (nat fd) None (free_file_handle h s)" using run h by (simp add: ramfs_close_def)
  show ?thesis
    by (rule ramfs_ok_kmem [OF set_free_handle_ok [OF okt f(1) free, where f = "\<lambda>f. f\<lparr>file_ref_count := 0, file_node := None\<rparr>"]])
      (simp_all add: s' t_def set_fd_def free_file_handle_def)
next
  case False
  then show ?thesis using run ok by (auto simp: ramfs_close_def split: option.splits)
qed

subsection \<open>Absolute paths\<close>

lemma path_token_component:
  assumes "good_name nm"
  shows "path_token (nm @ slash # rest) = Some (nm, rest)" "path_token nm = Some (nm, [])"
proof -
  have ne: "nm \<noteq> []" and ns: "\<forall>c \<in> set nm. c \<noteq> slash" using assms by (auto simp: good_name_def)
  then have d: "dropWhile (\<lambda>c. c = slash) (nm @ r) = nm @ r" for r by (cases nm) auto
  have t: "takeWhile (\<lambda>c. c \<noteq> slash) (nm @ slash # rest) = nm" "dropWhile (\<lambda>c. c \<noteq> slash) (nm @ slash # rest) = slash # rest"
    "takeWhile (\<lambda>c. c \<noteq> slash) nm = nm" "dropWhile (\<lambda>c. c \<noteq> slash) nm = []"
    using ns by (auto simp: takeWhile_append2 dropWhile_append2)
  show "path_token (nm @ slash # rest) = Some (nm, rest)" using ne d t(1,2) by (simp add: path_token_def)
  show "path_token nm = Some (nm, [])" using ne d [of "[]"] by (simp add: path_token_def t(3,4))
qed

lemma resolve_component:
  assumes "good_name nm" "0 \<le> c" "c < 64"
  shows "resolve_loop fs c nm = Some (find_child fs c nm, Some c, Some nm)"
    and "rest \<noteq> [] \<Longrightarrow> dir_at fs (find_child fs c nm) \<Longrightarrow> resolve_loop fs c (nm @ slash # rest) = resolve_loop fs (find_child fs c nm) rest"
  using assms path_token_component [OF assms(1)]
  by (simp_all add: resolve_loop.simps [of fs c] Let_def good_name_def dir_at_def)

text \<open>The names on the way from the root to a node.\<close>

function abs_names :: "ramfs_node list \<Rightarrow> nat \<Rightarrow> u8 list list" where
  "abs_names fs i =
     (if i = 0 \<or> \<not> (0 \<le> parent_idx (fs ! i) \<and> parent_idx (fs ! i) < int i) then []
      else abs_names fs (nat (parent_idx (fs ! i))) @ [node_name (fs ! i)])"
  by pat_completeness auto
termination
  by (relation "measure snd") auto

declare abs_names.simps [simp del]

definition path_str :: "u8 list list \<Rightarrow> u8 list" where
  "path_str ns = concat (map (\<lambda>n. slash # n) ns)"

lemma node_step:
  assumes "fs_inv fs" "i < 64" "is_used (fs ! i)" "i \<noteq> 0"
  obtains d where "parent_idx (fs ! i) = int d" "d < i" "dir_at fs (int d)" "good_name (node_name (fs ! i))" "length (node_name (fs ! i)) < 32"
    "abs_names fs i = abs_names fs d @ [node_name (fs ! i)]" "find_child fs (int d) (node_name (fs ! i)) = int i" "d < 64" "is_used (fs ! d)"
proof -
  have ok: "parent_idx (fs ! i) < int i" "dir_at fs (parent_idx (fs ! i))" "good_name (node_name (fs ! i))" "length (node_name (fs ! i)) < 32"
    using fs_inv_node [OF assms(1,3,2)] assms(4) by (simp_all add: node_ok_def)
  then obtain d where d: "parent_idx (fs ! i) = int d" by (metis dir_at_def nonneg_int_cases)
  then show thesis using ok assms(4) find_child_eq [OF assms(1-3)]
    by (intro that [of d]) (auto simp: abs_names.simps [of fs i] dir_at_def)
qed

lemma path_str_snoc: "path_str (ns @ [n]) = path_str ns @ slash # n"
  by (simp add: path_str_def)

lemma path_str_nonempty: "ns \<noteq> [] \<Longrightarrow> path_str ns = slash # tl (path_str ns)"
  by (cases ns) (simp_all add: path_str_def)

lemma abs_names_nonempty: "fs_inv fs \<Longrightarrow> i < 64 \<Longrightarrow> is_used (fs ! i) \<Longrightarrow> abs_names fs i = [] \<longleftrightarrow> i = 0"
  by (cases "i = 0") (auto simp: abs_names.simps [of fs 0] elim: node_step)

lemma resolve_abs_prefix:
  assumes "fs_inv fs" "dir_at fs (int i)" "i \<noteq> 0" "rest \<noteq> []"
  shows "resolve_loop fs 0 (tl (path_str (abs_names fs i)) @ slash # rest) = resolve_loop fs (int i) rest"
  using assms(2-)
proof (induction i arbitrary: rest rule: less_induct)
  case (less i)
  have i: "i < 64" "is_used (fs ! i)" using less.prems(1) by (auto simp: dir_at_def)
  obtain d where d: "d < i" "dir_at fs (int d)" "good_name (node_name (fs ! i))"
    "abs_names fs i = abs_names fs d @ [node_name (fs ! i)]" "find_child fs (int d) (node_name (fs ! i)) = int i" "d < 64" "is_used (fs ! d)"
    by (rule node_step [OF assms(1) i less.prems(2)])
  let ?nm = "node_name (fs ! i)"
  have last: "resolve_loop fs (int d) (?nm @ slash # rest) = resolve_loop fs (int i) rest"
    using resolve_component(2) [OF d(3), of "int d" rest fs] less.prems d by simp
  show ?case
  proof (cases "d = 0")
    case True
    then have "abs_names fs d = []" by (simp add: abs_names.simps [of fs 0])
    then show ?thesis using last True d(4) by (simp add: path_str_def)
  next
    case False
    then have "abs_names fs d \<noteq> []" using abs_names_nonempty [OF assms(1) d(6,7)] by simp
    then have "tl (path_str (abs_names fs i)) = tl (path_str (abs_names fs d)) @ slash # ?nm"
      using path_str_nonempty by (metis d(4) path_str_snoc tl_append2 list.distinct(1))
    then show ?thesis using less.IH [OF d(1,2) False, of "?nm @ slash # rest"] last d(3) by (simp add: good_name_def)
  qed
qed

lemma resolve_abs:
  assumes "fs_inv fs" "i < 64" "is_used (fs ! i)" "i \<noteq> 0"
  shows "\<exists>d nm. resolve_loop fs 0 (tl (path_str (abs_names fs i))) = Some (int i, Some d, Some nm)"
proof -
  obtain d where d: "d < i" "dir_at fs (int d)" "good_name (node_name (fs ! i))"
    "abs_names fs i = abs_names fs d @ [node_name (fs ! i)]" "find_child fs (int d) (node_name (fs ! i)) = int i" "d < 64" "is_used (fs ! d)"
    by (rule node_step [OF assms])
  let ?nm = "node_name (fs ! i)"
  have last: "resolve_loop fs (int d) ?nm = Some (int i, Some (int d), Some ?nm)"
    using resolve_component(1) [OF d(3), of "int d" fs] d by simp
  show ?thesis
  proof (cases "d = 0")
    case True
    then have "abs_names fs d = []" by (simp add: abs_names.simps [of fs 0])
    then show ?thesis using last True d(4) by (simp add: path_str_def)
  next
    case False
    then have "abs_names fs d \<noteq> []" using abs_names_nonempty [OF assms(1) d(6,7)] by simp
    then have "tl (path_str (abs_names fs i)) = tl (path_str (abs_names fs d)) @ slash # ?nm"
      using path_str_nonempty by (metis d(4) path_str_snoc tl_append2 list.distinct(1))
    then show ?thesis using resolve_abs_prefix [OF assms(1) d(2) False, of ?nm] last d(3) by (simp add: good_name_def)
  qed
qed

lemma path_str_bound:
  assumes "fs_inv fs" "i < 64" "is_used (fs ! i)"
  shows "length (path_str (abs_names fs i)) \<le> 32 * i"
  using assms(2,3)
proof (induction i rule: less_induct)
  case (less i)
  show ?case
  proof (cases "i = 0")
    case True
    then show ?thesis by (simp add: abs_names.simps [of fs 0] path_str_def)
  next
    case False
    obtain d where d: "d < i" "length (node_name (fs ! i)) < 32" "abs_names fs i = abs_names fs d @ [node_name (fs ! i)]" "d < 64" "is_used (fs ! d)"
      by (rule node_step [OF assms(1) less.prems False])
    then have "32 * d + 32 \<le> 32 * i" by simp
    then show ?thesis using less.IH [OF d(1,4,5)] d(2,3) by (simp add: path_str_snoc)
  qed
qed

lemma cwd_write_path:
  assumes "fs_inv fs" "i < 64" "is_used (fs ! i)"
  shows "cwd_write fs (int i) acc = Some (path_str (abs_names fs i) @ acc)"
  using assms(2,3)
proof (induction i arbitrary: acc rule: less_induct)
  case (less i)
  show ?case
  proof (cases "i = 0")
    case True
    then show ?thesis by (simp add: cwd_write.simps abs_names.simps [of fs 0] path_str_def)
  next
    case False
    obtain d where d: "parent_idx (fs ! i) = int d" "d < i" "abs_names fs i = abs_names fs d @ [node_name (fs ! i)]" "d < 64" "is_used (fs ! d)"
      by (rule node_step [OF assms(1) less.prems False])
    then show ?thesis using less.IH [OF d(2,4,5)] False less.prems(1) by (simp add: cwd_write.simps [of fs "int i"] path_str_snoc)
  qed
qed

lemma cwd_length_path:
  assumes "fs_inv fs" "i < 64" "is_used (fs ! i)" "i \<noteq> 0 \<or> len < unat sz" "len + 32 * i < 100000"
  shows "cwd_length fs sz (int i) (int len) =
    Some (if len + length (path_str (abs_names fs i)) < unat sz then int (len + length (path_str (abs_names fs i))) else -1)"
  using assms(2-)
proof (induction i arbitrary: len rule: less_induct)
  case (less i)
  show ?case
  proof (cases "i = 0")
    case True
    then show ?thesis using less.prems(3) by (simp add: cwd_length.simps abs_names.simps [of fs 0] path_str_def)
  next
    case False
    obtain d where d: "parent_idx (fs ! i) = int d" "d < i" "length (node_name (fs ! i)) < 32"
      "abs_names fs i = abs_names fs d @ [node_name (fs ! i)]" "d < 64" "is_used (fs ! d)"
      by (rule node_step [OF assms(1) less.prems(1,2) False])
    let ?len = "len + 1 + length (node_name (fs ! i))"
    have u: "to_u64 (int ?len) \<ge> sz \<longleftrightarrow> \<not> ?len < unat sz"
    proof -
      have "unat (of_nat ?len :: u64) = ?len" using less.prems(4) d(3) by (subst unat_of_nat) simp
      then show ?thesis unfolding to_u64_def by (simp add: word_le_nat_alt not_less del: of_nat_add)
    qed
    have "32 * d + 32 \<le> 32 * i" using d(2) by simp
    then have b: "?len + 32 * d < 100000" using less.prems(4) d(3) by linarith
    have e: "cwd_length fs sz (int i) (int len) = (if to_u64 (int ?len) \<ge> sz then Some (-1) else cwd_length fs sz (int d) (int ?len))"
      using False less.prems(1) d(1) by (subst cwd_length.simps) (simp add: Let_def ac_simps)
    show ?thesis
    proof (cases "?len < unat sz")
      case True
      then show ?thesis unfolding e using u less.IH [OF d(2,5,6) _ b] by (simp add: d(4) path_str_snoc ac_simps)
    next
      case False
      then show ?thesis unfolding e using u by (simp add: d(4) path_str_snoc)
    qed
  qed
qed

subsection \<open>A new node is found again\<close>

lemma find_child_grows:
  assumes inv: "fs_inv fs" "fs_inv fs'" and fs': "fs' = fs[i := v]" "i < 64" "\<not> is_used (fs ! i)" and f: "find_child fs c tok \<noteq> -1"
  shows "find_child fs' c tok = find_child fs c tok" "nat (find_child fs c tok) \<noteq> i"
proof -
  note g = find_child_Some [OF f]
  show ne: "nat (find_child fs c tok) \<noteq> i" using g(3) fs'(3) by auto
  have len: "length fs = 64" using inv(1) by (simp add: fs_inv_def)
  have at: "fs' ! nat (find_child fs c tok) = fs ! nat (find_child fs c tok)" using ne by (simp add: fs'(1))
  have "nat (find_child fs c tok) < 64" using g(1,2) by simp
  from find_child_eq [OF inv(2) this] g at show "find_child fs' c tok = find_child fs c tok" by simp
qed

text \<open>A path that could be resolved, or only lacked its last component, still resolves the same way.\<close>

lemma resolve_grows:
  assumes "fs_inv fs" "fs_inv fs'" "fs' = fs[i := v]" "i < 64" "\<not> is_used (fs ! i)" "dir_at fs c"
    and "resolve_loop fs c p = Some (f, Some d, nm)"
  shows "resolve_loop fs' c p = Some (if f = -1 then find_child fs' d (the nm) else f, Some d, nm)"
  using assms
proof (induction fs c p rule: resolve_loop.induct)
  case (1 fs c p)
  have c: "0 \<le> c" "c < 64" using "1.prems"(6) by (simp_all add: dir_at_def)
  have guard: "\<not> (c < 0 \<or> int 64 \<le> c)" using c by simp
  have atc: "fs' ! nat c = fs ! nat c" using "1.prems"(3,5,6) by (cases "nat c = i") (auto simp: dir_at_def)
  show ?case
  proof (cases "path_token p")
    case None
    then show ?thesis using "1.prems"(7) c atc by (auto simp: resolve_loop.simps [of fs c p] resolve_loop.simps [of fs' f p])
  next
    case (Some tp)
    then obtain tok p' where tp: "path_token p = Some (tok, p')" by (cases tp) simp
    consider "tok = [46]" | "tok = [46, 46]" | "tok \<noteq> [46]" "tok \<noteq> [46, 46]" "p' \<noteq> []" | "tok \<noteq> [46]" "tok \<noteq> [46, 46]" "p' = []" by blast
    then show ?thesis
    proof cases
      case 1
      then have e: "resolve_loop f c p = resolve_loop f c p'" for f using c tp by (simp add: resolve_loop.simps [of _ c p])
      show ?thesis using "1.IH"(1) [OF guard tp refl 1 "1.prems"(1-6)] "1.prems"(7) by (simp add: e)
    next
      case 2
      let ?d = "if parent_idx (fs ! nat c) \<noteq> -1 then parent_idx (fs ! nat c) else c"
      have "dir_at fs ?d" using dir_at_parent [OF "1.prems"(1,6)] "1.prems"(6) by simp
      moreover have "resolve_loop fs c p = resolve_loop fs ?d p'" "resolve_loop fs' c p = resolve_loop fs' ?d p'"
        using c tp 2 atc by (simp_all add: resolve_loop.simps [of _ c p])
      ultimately show ?thesis using "1.IH"(2) [OF guard tp refl _ 2 "1.prems"(1-5)] "1.prems"(7) 2 by simp
    next
      case 3
      let ?f = "find_child fs c tok"
      have ok: "?f \<noteq> -1" "node_type (fs ! nat ?f) = RAMFS_TYPE_DIR"
        using "1.prems"(7) c tp 3 by (auto simp: resolve_loop.simps [of fs c p] Let_def split: if_splits)
      note g = find_child_grows [OF "1.prems"(1-5) ok(1)]
      have atf: "fs' ! nat ?f = fs ! nat ?f" using g(2) "1.prems"(3) by simp
      have da: "dir_at fs ?f" using find_child_Some [OF ok(1)] ok(2) by (simp add: dir_at_def)
      have "resolve_loop fs c p = resolve_loop fs ?f p'" "resolve_loop fs' c p = resolve_loop fs' ?f p'"
        using c tp 3 ok g(1) atf by (simp_all add: resolve_loop.simps [of _ c p] Let_def)
      then show ?thesis using "1.IH"(3) [OF guard tp refl 3(1,2) refl 3(3) _ "1.prems"(1-5) da] ok "1.prems"(7) by simp
    next
      case 4
      then have "d = c" "nm = Some tok" "f = find_child fs c tok" using "1.prems"(7) c tp by (auto simp: resolve_loop.simps [of fs c p] Let_def)
      then show ?thesis using c tp 4 find_child_grows(1) [OF "1.prems"(1-5)] by (simp add: resolve_loop.simps [of fs' c p] Let_def)
    qed
  qed
qed

lemma resolve_path_grows:
  assumes ok: "ramfs_ok s" and rp: "resolve_path path out s = Some (f, Some d, nm)"
    and fs': "fs_inv (files s')" "files s' = (files s)[i := v]" "i < 64" "\<not> is_used (files s ! i)"
    and same: "current_proc s' = current_proc s" "pcbs s' = pcbs s"
  shows "resolve_path path out s' = Some (if f = -1 then find_child (files s') d (the nm) else f, Some d, nm)"
proof -
  have inv: "fs_inv (files s)" using ok by (simp add: ramfs_ok_def)
  obtain p where p: "path = Some p" using rp by (cases path) (auto simp: resolve_path_def)
  define c where "c = (if p \<noteq> [] \<and> hd p = slash then 0 else if current_proc s \<noteq> 0 then cwd_inode (pcbs s (current_proc s)) else 0)"
  define q where "q = take 127 (if p \<noteq> [] \<and> hd p = slash then tl p else p)"
  have dc: "dir_at (files s) c" using ok dir_at_root [OF inv] by (simp add: c_def ramfs_ok_def fds_inv_def)
  have l: "resolve_loop (files s) c q = Some (f, Some d, nm)" "\<not> (out \<and> (case nm of None \<Rightarrow> False | Some n \<Rightarrow> 32 \<le> length n))"
    using rp unfolding p resolve_path_def Let_def option.case c_def [symmetric] q_def [symmetric]
    by (auto split: option.splits if_splits)
  note l' = resolve_grows [OF inv fs'(1-4) dc l(1)]
  show ?thesis
    unfolding p resolve_path_def Let_def option.case same c_def [symmetric] q_def [symmetric] l' using l(2) by simp
qed

subsection \<open>An example\<close>

definition root_node :: ramfs_node where
  "root_node = zero_node\<lparr>is_used := True, node_type := RAMFS_TYPE_DIR, parent_idx := -1\<rparr>"

definition root_files :: "ramfs_node list" where
  "root_files = (replicate MAX_FILES zero_node)[0 := root_node]"

lemma root_files_at: "i < 64 \<Longrightarrow> root_files ! i = (if i = 0 then root_node else zero_node)"
  by (simp add: root_files_def nth_list_update)

lemma fs_inv_root: "fs_inv root_files"
proof -
  have f: "is_used root_node" "inode_idx root_node = 0" "node_type root_node = 2" "parent_idx root_node = -1" "\<not> is_used zero_node"
    by (simp_all add: root_node_def zero_node_def)
  have used: "is_used (root_files ! i) \<longleftrightarrow> i < 1" if "i < 64" for i using that f by (simp add: root_files_at)
  have len: "length root_files = 64" by (simp add: root_files_def)
  have ok: "node_ok root_files 0" using f by (simp add: node_ok_def root_files_at)
  show ?thesis unfolding fs_inv_def using used ok len by (intro conjI exI [of _ 1]) auto
qed

text \<open>A tree with the directories \<^verbatim>\<open>/u\<close> and \<^verbatim>\<open>/u/l\<close> and the file \<^verbatim>\<open>/f\<close>.\<close>

definition example_files :: "ramfs_node list" where
  "example_files = root_files[1 := new_node [117] 2 0 1\<lparr>node_content := 0, node_size := 0\<rparr>, 2 := new_node [108] 2 1 2\<lparr>node_content := 0, node_size := 0\<rparr>,
     3 := new_node [102] 1 0 3\<lparr>node_content := 0xFFFF900000000200, node_size := 0\<rparr>]"

lemma example_files_inv: "fs_inv example_files"
proof -
  let ?f1 = "root_files[1 := new_node [117] 2 0 1\<lparr>node_content := 0, node_size := 0\<rparr>]"
  let ?f2 = "?f1[2 := new_node [108] 2 1 2\<lparr>node_content := 0, node_size := 0\<rparr>]"
  have u: "is_used root_node" "\<not> is_used zero_node" by (simp_all add: root_node_def zero_node_def)
  have 1: "fs_inv ?f1"
    by (rule fs_inv_new_node [OF fs_inv_root _ _ _ dir_at_root [OF fs_inv_root] _ _ _ _ refl refl])
      (simp_all add: good_name_def root_files_at u, code_simp)
  have d1: "is_used (?f1 ! j)" if "j < 2" for j
    using that u by (cases "j = 0") (simp_all add: root_files_at less_Suc_eq numeral_2_eq_2 new_node_def root_files_def)
  have 2: "fs_inv ?f2"
    by (rule fs_inv_new_node [OF 1 _ _ d1 _ _ _ _ _ refl refl]; (assumption | code_simp))
  have d2: "is_used (?f2 ! j)" if "j < 3" for j
    using that d1 [of j] by (cases "j = 2") (simp_all add: root_files_def new_node_def)
  show ?thesis unfolding example_files_def
    by (rule fs_inv_new_node [OF 2 _ _ d2 dir_at_root [OF 2] _ _ _ _ refl refl]; (assumption | code_simp))
qed

subsection \<open>The tree that \<^verbatim>\<open>ramfs_init\<close> makes\<close>

definition first_nodes :: "ramfs_node list \<Rightarrow> ramfs_node list" where
  "first_nodes ns = ns @ replicate (MAX_FILES - length ns) zero_node"

lemma root_files_tree: "root_files = first_nodes [root_node]"
proof -
  have "replicate 64 zero_node = zero_node # replicate 63 zero_node" using replicate_Suc [of 63 zero_node] by simp
  then show ?thesis by (simp add: root_files_def first_nodes_def)
qed

lemma tree_facts:
  assumes "\<forall>n \<in> set ns. is_used n" "length ns < 64"
  shows "length (first_nodes ns) = 64" "\<not> is_used (first_nodes ns ! length ns)" "j < length ns \<Longrightarrow> is_used (first_nodes ns ! j)"
    "(first_nodes ns)[length ns := v] = first_nodes (ns @ [v])"
proof -
  obtain k where k: "64 - length ns = Suc k" using assms(2) by (metis Suc_diff_Suc)
  then have t: "first_nodes ns = ns @ zero_node # replicate k zero_node" "64 - length (ns @ [v]) = k" by (simp_all add: first_nodes_def)
  show "length (first_nodes ns) = 64" using assms(2) by (simp add: first_nodes_def)
  show "\<not> is_used (first_nodes ns ! length ns)" by (simp add: t zero_node_def)
  show "j < length ns \<Longrightarrow> is_used (first_nodes ns ! j)" using assms(1) by (simp add: t nth_append)
  show "(first_nodes ns)[length ns := v] = first_nodes (ns @ [v])" unfolding first_nodes_def [of "ns @ [v]"] t(2) by (simp add: t(1))
qed

lemma tree_last: "first_nodes (ns @ [v]) ! length ns = v" "(first_nodes (ns @ [v]))[length ns := w] = first_nodes (ns @ [w])"
  by (simp_all add: first_nodes_def)

lemma make_node_tree:
  assumes "files s = first_nodes ns" "\<forall>n \<in> set ns. is_used n" "length ns < 64" and k: "length ns = k"
  shows "make_node nm ty d s = Some (k, s\<lparr>files := first_nodes (ns @ [new_node nm ty d k])\<rparr>)"
proof -
  note t = tree_facts [OF assms(2,3)]
  have "find (\<lambda>i. \<not> is_used (files s ! i)) [0..<64] = Some (length ns)"
    unfolding find_Some_iff assms(1) using t(2,3) assms(3) by (intro exI [of _ "length ns"]) auto
  then show ?thesis unfolding k [symmetric] using assms(1-3) t(1) t(4) by (simp add: make_node_def alloc_inode_def set_node_def new_node_def tree_last)
qed

lemma set_node_tree:
  assumes "files s = first_nodes (ns @ [v])"
  shows "set_node (length ns) f s = s\<lparr>files := first_nodes (ns @ [f v])\<rparr>"
  using assms by (simp add: set_node_def tree_last)

lemma fs_inv_tree:
  assumes inv: "fs_inv (first_nodes ns)" and ns: "\<forall>n \<in> set ns. is_used n" "length ns < 64" and k: "length ns = k"
    and d: "d < length ns" "node_type (ns ! d) = RAMFS_TYPE_DIR" and nm: "good_name nm" "length nm < 32"
    and new: "\<forall>n \<in> set ns. parent_idx n = int d \<longrightarrow> node_name n \<noteq> nm" and ty: "ty \<in> {RAMFS_TYPE_FILE, RAMFS_TYPE_DIR}"
  shows "fs_inv (first_nodes (ns @ [new_node nm ty (int d) k\<lparr>node_content := c, node_size := z\<rparr>]))"
proof -
  note t = tree_facts [OF ns]
  have at: "first_nodes ns ! j = ns ! j" if "j < length ns" for j using that by (simp add: first_nodes_def nth_append)
  have da: "dir_at (first_nodes ns) (int d)" using d ns at [OF d(1)] by (simp add: dir_at_def)
  have un: "\<not> is_used (first_nodes ns ! j)" if "length ns \<le> j" "j < 64" for j using that by (simp add: first_nodes_def nth_append zero_node_def)
  have nc: "find_child (first_nodes ns) (int d) nm = -1"
  proof (rule ccontr)
    let ?k = "nat (find_child (first_nodes ns) (int d) nm)"
    assume "find_child (first_nodes ns) (int d) nm \<noteq> -1"
    note f = find_child_Some [OF this]
    then have "?k < length ns" using un [of ?k] by (cases "length ns \<le> ?k") auto
    then show False using new f(4,5) at nth_mem by metis
  qed
  show ?thesis unfolding t(4) [symmetric] k [symmetric]
    by (rule fs_inv_new_node [OF inv ns(2) t(2) _ da nm nc ty refl refl]) (use t(3) in blast)
qed



definition init_nodes :: "u64 \<Rightarrow> u64 \<Rightarrow> u64 \<Rightarrow> u64 \<Rightarrow> ramfs_node list" where
  "init_nodes init_addr init_size p q =
     [root_node, new_node (str ''init'') 1 0 1\<lparr>node_content := init_addr, node_size := init_size\<rparr>, new_node (str ''usr'') 2 0 2,
      new_node (str ''bin'') 2 2 3, new_node (str ''lib'') 2 2 4,
      new_node (str ''shell.c'') 1 2 5\<lparr>node_content := p, node_size := 39\<rparr>, new_node (str ''usrmain.c'') 1 2 6\<lparr>node_content := q, node_size := 25\<rparr>]"

lemma new_node_fields [simp]:
  "is_used (new_node nm ty d i)" "parent_idx (new_node nm ty d i) = d" "node_name (new_node nm ty d i) = nm" "node_type (new_node nm ty d i) = ty"
  "inode_idx (new_node nm ty d i) = int i" "new_node nm ty d i\<lparr>node_content := 0, node_size := 0\<rparr> = new_node nm ty d i"
  "is_used root_node" "parent_idx root_node = -1" "node_type root_node = 2" "inode_idx root_node = 0"
  by (simp_all add: new_node_def root_node_def zero_node_def)

lemma init_names:
  "good_name (str ''init'')" "good_name (str ''usr'')" "good_name (str ''bin'')" "good_name (str ''lib'')" "good_name (str ''shell.c'')" "good_name (str ''usrmain.c'')"
  "length (str ''init'') = 4" "length (str ''usr'') = 3" "length (str ''bin'') = 3" "length (str ''lib'') = 3" "length (str ''shell.c'') = 7" "length (str ''usrmain.c'') = 9"
  "str ''init'' \<noteq> str ''usr''" "str ''bin'' \<noteq> str ''lib''" "str ''bin'' \<noteq> str ''shell.c''" "str ''lib'' \<noteq> str ''shell.c''"
  "str ''bin'' \<noteq> str ''usrmain.c''" "str ''lib'' \<noteq> str ''usrmain.c''" "str ''shell.c'' \<noteq> str ''usrmain.c''"
  by code_simp+

lemma init_nodes_inv: "fs_inv (first_nodes (init_nodes a n p q))"
proof -
  define n1 where "n1 = new_node (str ''init'') 1 0 1\<lparr>node_content := a, node_size := n\<rparr>"
  define n2 where "n2 = new_node (str ''usr'') 2 0 2"
  define n3 where "n3 = new_node (str ''bin'') 2 2 3"
  define n4 where "n4 = new_node (str ''lib'') 2 2 4"
  define n5 where "n5 = new_node (str ''shell.c'') 1 2 5\<lparr>node_content := p, node_size := 39\<rparr>"
  note defs = n1_def n2_def n3_def n4_def n5_def
  have 1: "fs_inv (first_nodes [root_node, n1])"
    using fs_inv_tree [OF fs_inv_root [unfolded root_files_tree], of 1 0 "str ''init''" 1 n a] init_names by (simp add: n1_def)
  have 2: "fs_inv (first_nodes [root_node, n1, n2])"
    using fs_inv_tree [OF 1, of 2 0 "str ''usr''" 2 0 0] init_names by (simp add: defs)
  have 3: "fs_inv (first_nodes [root_node, n1, n2, n3])"
    using fs_inv_tree [OF 2, of 3 2 "str ''bin''" 2 0 0] init_names by (simp add: defs)
  have 4: "fs_inv (first_nodes [root_node, n1, n2, n3, n4])"
    using fs_inv_tree [OF 3, of 4 2 "str ''lib''" 2 0 0] init_names by (simp add: defs)
  have 5: "fs_inv (first_nodes [root_node, n1, n2, n3, n4, n5])"
    using fs_inv_tree [OF 4, of 5 2 "str ''shell.c''" 1 39 p] init_names by (simp add: defs)
  show ?thesis
    using fs_inv_tree [OF 5, of 6 2 "str ''usrmain.c''" 1 25 q] init_names by (simp add: defs init_nodes_def)
qed

lemma make_text_file_tree:
  assumes "files s = first_nodes ns" "\<forall>n \<in> set ns. is_used n" "length ns < 64"
  shows "make_text_file nm d bs s = Some (i, s') \<Longrightarrow> i = length ns \<and> (\<exists>p. p \<noteq> 0
      \<and> files s' = first_nodes (ns @ [new_node nm 1 d (length ns)\<lparr>node_content := p, node_size := of_nat (length bs)\<rparr>]))
      \<and> global_file_table s' = global_file_table s \<and> pcbs s' = pcbs s \<and> current_proc s' = current_proc s"
    and "kmalloc PAGE_SIZE (s\<lparr>files := first_nodes (ns @ [new_node nm 1 d (length ns)])\<rparr>) = Some (p, s2) \<Longrightarrow> p \<noteq> 0
      \<Longrightarrow> make_text_file nm d bs s = Some (length ns, s2\<lparr>kmem := write_bytes (kmem s2) p (bs @ [0]),
        files := first_nodes (ns @ [new_node nm 1 d (length ns)\<lparr>node_content := p, node_size := of_nat (length bs)\<rparr>])\<rparr>)"
proof -
  define v where "v = new_node nm 1 d (length ns)"
  define t where "t = s\<lparr>files := first_nodes (ns @ [v])\<rparr>"
  have mk: "make_node nm RAMFS_TYPE_FILE d s = Some (length ns, t)" using make_node_tree [OF assms refl] by (simp add: t_def v_def)
  have run: "make_text_file nm d bs s = Some (length ns, s2\<lparr>kmem := write_bytes (kmem s2) p (bs @ [0]),
        files := first_nodes (ns @ [v\<lparr>node_content := p, node_size := of_nat (length bs)\<rparr>])\<rparr>)"
    if km: "kmalloc PAGE_SIZE t = Some (p, s2)" "p \<noteq> 0" for p s2
    using kmalloc_ramfs(1) [OF km(1)] km mk
    by (simp add: make_text_file_def Let_def set_node_def t_def tree_last)
  show "make_text_file nm d bs s = Some (i, s') \<Longrightarrow> i = length ns \<and> (\<exists>p. p \<noteq> 0
      \<and> files s' = first_nodes (ns @ [v\<lparr>node_content := p, node_size := of_nat (length bs)\<rparr>]))
      \<and> global_file_table s' = global_file_table s \<and> pcbs s' = pcbs s \<and> current_proc s' = current_proc s"
  proof -
    assume r: "make_text_file nm d bs s = Some (i, s')"
    then obtain p s2 where km: "kmalloc PAGE_SIZE t = Some (p, s2)" "p \<noteq> 0"
      using mk by (auto simp: make_text_file_def split: bind_splits if_splits)
    show ?thesis using run [OF km] r kmalloc_ramfs [OF km(1)] km(2) by (auto simp: t_def)
  qed
  show "make_text_file nm d bs s = Some (length ns, s2\<lparr>kmem := write_bytes (kmem s2) p (bs @ [0]),
        files := first_nodes (ns @ [v\<lparr>node_content := p, node_size := of_nat (length bs)\<rparr>])\<rparr>)"
    if "kmalloc PAGE_SIZE (s\<lparr>files := first_nodes (ns @ [v])\<rparr>) = Some (p, s2)" "p \<noteq> 0" for p s2
    using run [of p s2] that by (simp add: t_def)
qed


lemma init_text_lengths: "length (str ''// This is SudoOS Shell Source Code...'' @ [10]) = 39" "length (str ''// User Main Entry Point'' @ [10]) = 25"
  by code_simp+

lemma ramfs_init_split:
  obtains s6 where "files s6 = first_nodes (take 5 (init_nodes a n 0 0))" "s6 = (ramfs_root s)\<lparr>files := files s6\<rparr>"
    "ramfs_init a n s = Option.bind (make_text_file (str ''shell.c'') 2 (str ''// This is SudoOS Shell Source Code...'' @ [10]) s6)
       (\<lambda>(i, t). map_option snd (make_text_file (str ''usrmain.c'') 2 (str ''// User Main Entry Point'' @ [10]) t))"
proof -
  define n1 where "n1 = new_node (str ''init'') 1 0 1\<lparr>node_content := a, node_size := n\<rparr>"
  define n2 where "n2 = new_node (str ''usr'') 2 0 2"
  define n3 where "n3 = new_node (str ''bin'') 2 2 3"
  define n4 where "n4 = new_node (str ''lib'') 2 2 4"
  let ?r = "ramfs_root s"
  have u: "is_used n1" "is_used n2" "is_used n3" "is_used n4" by (simp_all add: n1_def n2_def n3_def n4_def)
  have r: "files ?r = first_nodes [root_node]" using root_files_tree by (simp add: ramfs_root_def root_files_def root_node_def)
  have m1: "make_node (str ''init'') 1 0 ?r = Some (1, ?r\<lparr>files := first_nodes [root_node, new_node (str ''init'') 1 0 1]\<rparr>)"
    using make_node_tree [OF r, of 1] by simp
  have m2: "set_node 1 (\<lambda>n'. n'\<lparr>node_content := a, node_size := n\<rparr>) (?r\<lparr>files := first_nodes [root_node, new_node (str ''init'') 1 0 1]\<rparr>)
      = ?r\<lparr>files := first_nodes [root_node, n1]\<rparr>"
    using set_node_tree [of "?r\<lparr>files := first_nodes [root_node, new_node (str ''init'') 1 0 1]\<rparr>" "[root_node]"] by (simp add: n1_def)
  have m3: "make_node (str ''usr'') 2 0 (?r\<lparr>files := first_nodes [root_node, n1]\<rparr>) = Some (2, ?r\<lparr>files := first_nodes [root_node, n1, n2]\<rparr>)"
    using make_node_tree [of "?r\<lparr>files := first_nodes [root_node, n1]\<rparr>" "[root_node, n1]" 2] u by (simp add: n2_def)
  have m4: "make_node (str ''bin'') 2 2 (?r\<lparr>files := first_nodes [root_node, n1, n2]\<rparr>) = Some (3, ?r\<lparr>files := first_nodes [root_node, n1, n2, n3]\<rparr>)"
    using make_node_tree [of "?r\<lparr>files := first_nodes [root_node, n1, n2]\<rparr>" "[root_node, n1, n2]" 3] u by (simp add: n3_def)
  have m5: "make_node (str ''lib'') 2 2 (?r\<lparr>files := first_nodes [root_node, n1, n2, n3]\<rparr>) = Some (4, ?r\<lparr>files := first_nodes [root_node, n1, n2, n3, n4]\<rparr>)"
    using make_node_tree [of "?r\<lparr>files := first_nodes [root_node, n1, n2, n3]\<rparr>" "[root_node, n1, n2, n3]" 4] u by (simp add: n4_def)
  show thesis
  proof (rule that [of "?r\<lparr>files := first_nodes [root_node, n1, n2, n3, n4]\<rparr>"])
    show "files (?r\<lparr>files := first_nodes [root_node, n1, n2, n3, n4]\<rparr>) = first_nodes (take 5 (init_nodes a n 0 0))"
      by (simp add: init_nodes_def n1_def n2_def n3_def n4_def)
    show "?r\<lparr>files := first_nodes [root_node, n1, n2, n3, n4]\<rparr> = ?r\<lparr>files := files (?r\<lparr>files := first_nodes [root_node, n1, n2, n3, n4]\<rparr>)\<rparr>" by simp
  qed (simp_all only: ramfs_init_def m1 m2 m3 m4 m5 Option.bind.simps Let_def prod.case of_nat_numeral ramfs.simps)
qed


lemma ramfs_init_files:
  assumes run: "ramfs_init a n s = Some s'"
  shows "\<exists>p q. files s' = first_nodes (init_nodes a n p q)" "global_file_table s' = replicate 128 zero_file" "pcbs s' = pcbs s"
proof -
  obtain s6 where s6: "files s6 = first_nodes (take 5 (init_nodes a n 0 0))" "s6 = (ramfs_root s)\<lparr>files := files s6\<rparr>"
    and eq: "ramfs_init a n s = Option.bind (make_text_file (str ''shell.c'') 2 (str ''// This is SudoOS Shell Source Code...'' @ [10]) s6)
       (\<lambda>(i, t). map_option snd (make_text_file (str ''usrmain.c'') 2 (str ''// User Main Entry Point'' @ [10]) t))"
    by (rule ramfs_init_split)
  define ns where "ns = take 5 (init_nodes a n 0 0)"
  have ns: "\<forall>n \<in> set ns. is_used n" "length ns < 64" "length ns = 5" by (simp_all add: ns_def init_nodes_def)
  obtain i t where t: "make_text_file (str ''shell.c'') 2 (str ''// This is SudoOS Shell Source Code...'' @ [10]) s6 = Some (i, t)"
    using run unfolding eq by (auto split: bind_splits)
  then obtain j where t': "make_text_file (str ''usrmain.c'') 2 (str ''// User Main Entry Point'' @ [10]) t = Some (j, s')"
    using run unfolding eq by auto
  have g1: "(\<exists>p. p \<noteq> 0 \<and> files t = first_nodes (ns @ [new_node (str ''shell.c'') 1 2 5\<lparr>node_content := p, node_size := 39\<rparr>]))"
    "global_file_table t = global_file_table s6" "pcbs t = pcbs s6"
    using make_text_file_tree(1) [OF s6(1) [folded ns_def] ns(1,2) t] unfolding ns(3) init_text_lengths by simp_all
  then obtain p where p: "files t = first_nodes (ns @ [new_node (str ''shell.c'') 1 2 5\<lparr>node_content := p, node_size := 39\<rparr>])" by blast
  have ns': "\<forall>m \<in> set (ns @ [new_node (str ''shell.c'') 1 2 5\<lparr>node_content := p, node_size := 39\<rparr>]). is_used m"
    "length (ns @ [new_node (str ''shell.c'') 1 2 5\<lparr>node_content := p, node_size := 39\<rparr>]) = 6" using ns by auto
  have g2: "(\<exists>q. q \<noteq> 0 \<and> files s' = first_nodes ((ns @ [new_node (str ''shell.c'') 1 2 5\<lparr>node_content := p, node_size := 39\<rparr>])
      @ [new_node (str ''usrmain.c'') 1 2 6\<lparr>node_content := q, node_size := 25\<rparr>]))" "global_file_table s' = global_file_table t" "pcbs s' = pcbs t"
    using make_text_file_tree(1) [OF p ns'(1) _ t'] unfolding ns'(2) init_text_lengths by simp_all
  show "\<exists>p q. files s' = first_nodes (init_nodes a n p q)" using g2(1) by (auto simp: ns_def init_nodes_def)
  show "global_file_table s' = replicate 128 zero_file" "pcbs s' = pcbs s"
    using g1(2,3) g2(2,3) by (simp_all add: s6(2) [THEN arg_cong [of _ _ pcbs]] s6(2) [THEN arg_cong [of _ _ global_file_table]] ramfs_root_def)
qed

lemma ramfs_init_ok:
  assumes "ramfs_init a n s = Some s'" and "\<And>p. fd_table (pcbs s p) = replicate 16 None" "\<And>p. cwd_inode (pcbs s p) = 0"
  shows "ramfs_ok s'"
proof -
  note i = ramfs_init_files [OF assms(1)]
  have inv: "fs_inv (files s')" using i(1) init_nodes_inv by metis
  then show ?thesis using i(2,3) assms(2,3) dir_at_root [OF inv] by (simp add: ramfs_ok_def fds_inv_def)
qed

subsection \<open>Sequences of calls\<close>

text \<open>
  A call into the file system by the current process, or a step of the rest of the kernel: it may
  switch processes, change the memory, clear the descriptors of a process and give a process the root
  or the working directory of another one, as \<^verbatim>\<open>alloc_new_pcb\<close> and \<^verbatim>\<open>sys_fork\<close> do.
\<close>

inductive ramfs_call :: "'a ramfs_scheme \<Rightarrow> 'a ramfs_scheme \<Rightarrow> bool" where
  open_call: "ramfs_open path flags s = Some (r, s') \<Longrightarrow> ramfs_call s s'"
| read_call: "ramfs_read fd count s = Some (r, bs, s') \<Longrightarrow> ramfs_call s s'"
| write_call: "ramfs_write fd buf count s = Some (r, s') \<Longrightarrow> ramfs_call s s'"
| close_call: "ramfs_close fd s = Some s' \<Longrightarrow> ramfs_call s s'"
| getdents_call: "ramfs_getdents64 fd count s = Some (r, ds, s') \<Longrightarrow> ramfs_call s s'"
| mkdir_call: "ramfs_mkdir path s = Some (r, s') \<Longrightarrow> ramfs_call s s'"
| chdir_call: "ramfs_chdir path s = Some (r, s') \<Longrightarrow> ramfs_call s s'"
| other_step: "files s' = files s \<Longrightarrow> global_file_table s' = global_file_table s
    \<Longrightarrow> (\<forall>p. fd_table (pcbs s' p) = fd_table (pcbs s p) \<or> fd_table (pcbs s' p) = replicate 16 None)
    \<Longrightarrow> (\<forall>p. cwd_inode (pcbs s' p) = 0 \<or> (\<exists>q. cwd_inode (pcbs s' p) = cwd_inode (pcbs s q))) \<Longrightarrow> ramfs_call s s'"

lemma other_ok:
  assumes ok: "ramfs_ok s" and same: "files s' = files s" "global_file_table s' = global_file_table s"
    and fd: "\<And>p. fd_table (pcbs s' p) = fd_table (pcbs s p) \<or> fd_table (pcbs s' p) = replicate 16 None"
    and cwd: "\<And>p. cwd_inode (pcbs s' p) = 0 \<or> (\<exists>q. cwd_inode (pcbs s' p) = cwd_inode (pcbs s q))"
  shows "ramfs_ok s'"
proof -
  have inv: "fs_inv (files s)" and f: "fds_inv s" using ok by (simp_all add: ramfs_ok_def)
  have d: "dir_at (files s) (cwd_inode (pcbs s' p))" for p using cwd [of p] f dir_at_root [OF inv] by (auto simp: fds_inv_def)
  have l: "length (fd_table (pcbs s' p)) = 16" for p using fd [of p] f by (auto simp: fds_inv_def)
  have old: "fd_table (pcbs s p) ! i = Some h" if "fd_table (pcbs s' p) ! i = Some h" "i < 16" for p i h using fd [of p] that by auto
  have "fds_inv s'" unfolding fds_inv_def same
  proof (intro conjI allI impI d l)
    show "length (global_file_table s) = 128" using f by (simp add: fds_inv_def)
  next
    fix p i h assume "i < 16" "fd_table (pcbs s' p) ! i = Some h"
    from fds_inv_fd [OF f old [OF this(2,1)] this(1)] show "h < 128" "file_ref_count (global_file_table s ! h) \<noteq> 0"
      "\<exists>n < 64. file_node (global_file_table s ! h) = Some n \<and> is_used (files s ! n)" by blast+
  next
    fix p q i j h assume "i < 16" "j < 16" "fd_table (pcbs s' p) ! i = Some h" "fd_table (pcbs s' q) ! j = Some h"
    then show "p = q" "i = j" using old f unfolding fds_inv_def by metis+
  qed
  then show ?thesis using inv by (simp add: ramfs_ok_def same)
qed

lemma ramfs_call_ok: "ramfs_call s s' \<Longrightarrow> ramfs_ok s \<Longrightarrow> ramfs_ok s'"
proof (induction rule: ramfs_call.induct)
  case (other_step s' s)
  then show ?case by (intro other_ok [of s s']) simp_all
qed (rule open_ok read_ok write_ok close_ok getdents_ok mkdir_ok chdir_ok; assumption)+

lemma ramfs_calls_ok: "ramfs_call\<^sup>*\<^sup>* s s' \<Longrightarrow> ramfs_ok s \<Longrightarrow> ramfs_ok s'"
  by (induction rule: rtranclp_induct) (blast intro: ramfs_call_ok)+

subsection \<open>Examples\<close>

text \<open>A state before the file system is set up, with one large free block at the end of the heap.\<close>

definition example_boot :: ramfs where
  "example_boot = proc.extend (example_fork\<lparr>hb_size := (hb_size example_fork)(hB := 0x3F80), kheap_top := 0xFFFF900000004000, pcbs := (\<lambda>_. zero_pcb)\<rparr>)
     \<lparr>files = [], global_file_table = []\<rparr>"

lemma example_boot_fields:
  "l_next example_boot = l_next example_fork" "l_prev example_boot = l_prev example_fork" "kheap_list example_boot = 0xFFFFFFFF80010000"
  "kheap_top example_boot = 0xFFFF900000004000" "hb_size example_boot = (\<lambda>_. 0)(hA := 64, hB := 0x3F80)"
  "hb_free example_boot = (\<lambda>_. False)(hB := True)" "pcbs example_boot = (\<lambda>_. zero_pcb)"
  by (simp_all add: example_boot_def proc.extend_def example_fork_fields)

lemma heap_inv_same:
  assumes "l_next t = l_next s" "l_prev t = l_prev s" "kheap_list t = kheap_list s" "kheap_top t = kheap_top s" "hb_size t = hb_size s"
  shows "heap_inv t xs = heap_inv s xs"
proof -
  have "chain t h xs h' = chain s h xs h'" for h h' by (rule chain_cong) (simp_all add: assms)
  then show ?thesis using assms by (simp add: heap_inv_def dll_def)
qed

lemma example_boot_runs: "\<exists>s. ramfs_init a n example_boot = Some s"
proof -
  obtain s6 where s6: "files s6 = first_nodes (take 5 (init_nodes a n 0 0))" "s6 = (ramfs_root example_boot)\<lparr>files := files s6\<rparr>"
    and eq: "ramfs_init a n example_boot = Option.bind (make_text_file (str ''shell.c'') 2 (str ''// This is SudoOS Shell Source Code...'' @ [10]) s6)
       (\<lambda>(i, t). map_option snd (make_text_file (str ''usrmain.c'') 2 (str ''// User Main Entry Point'' @ [10]) t))"
    by (rule ramfs_init_split)
  have al: "ALIGN_UP PAGE_SIZE 8 = 4096" by code_simp
  define ns where "ns = take 5 (init_nodes a n 0 0)"
  have ns: "\<forall>n \<in> set ns. is_used n" "length ns < 64" "length ns = 5" by (simp_all add: ns_def init_nodes_def)
  define t where "t = s6\<lparr>files := first_nodes (ns @ [new_node (str ''shell.c'') 1 2 (length ns)])\<rparr>"
  have t: "l_next t = l_next example_boot" "l_prev t = l_prev example_boot" "kheap_list t = kheap_list example_boot"
    "kheap_top t = kheap_top example_boot" "hb_size t = hb_size example_boot" "hb_free t = hb_free example_boot"
    unfolding t_def by (subst s6(2), simp add: ramfs_root_def)+
  have "heap_inv t [hA, hB]" unfolding heap_inv_same [OF t(1-5)]
    by (simp add: heap_inv_def dll_def example_boot_fields example_fork_fields example_kheap_fields)
  then have km: "kmalloc PAGE_SIZE t = Some (hB + 32, take_block hB 4096 t)"
    using kmalloc_fits [of t "[hA, hB]" PAGE_SIZE hB] by (simp add: al t example_boot_fields)
  define u where "u = (take_block hB 4096 t)\<lparr>kmem := write_bytes (kmem (take_block hB 4096 t)) (hB + 32) ((str ''// This is SudoOS Shell Source Code...'' @ [10]) @ [0]),
        files := first_nodes (ns @ [new_node (str ''shell.c'') 1 2 (length ns)\<lparr>node_content := hB + 32, node_size := of_nat (length (str ''// This is SudoOS Shell Source Code...'' @ [10]))\<rparr>])\<rparr>"
  have mk: "make_text_file (str ''shell.c'') 2 (str ''// This is SudoOS Shell Source Code...'' @ [10]) s6 = Some (length ns, u)"
    using make_text_file_tree(2) [OF s6(1) [folded ns_def] ns(1,2) km [unfolded t_def]] by (simp add: u_def t_def)
  let ?ns = "ns @ [new_node (str ''shell.c'') 1 2 (length ns)\<lparr>node_content := hB + 32, node_size := of_nat (length (str ''// This is SudoOS Shell Source Code...'' @ [10]))\<rparr>]"
  define v where "v = u\<lparr>files := first_nodes (?ns @ [new_node (str ''usrmain.c'') 1 2 (length ?ns)])\<rparr>"
  let ?hD = "0xFFFF900000001080 :: u64"
  have v: "l_next v = (l_next example_boot)(hB := ?hD, ?hD := 0xFFFFFFFF80010000)" "l_prev v = (l_prev example_boot)(0xFFFFFFFF80010000 := ?hD, ?hD := hB)"
    "kheap_list v = kheap_list example_boot" "kheap_top v = kheap_top example_boot" "hb_size v = (hb_size example_boot)(?hD := 0x2F60, hB := 4096)"
    "hb_free v = (hb_free example_boot)(?hD := True, hB := False)"
    by (simp_all add: v_def u_def take_block_def Let_def list_add_after_def list_add_between_def t example_boot_fields example_fork_fields example_kheap_fields fun_eq_iff)
  have "heap_inv v [hA, hB, ?hD]"
    by (simp add: heap_inv_def dll_def v example_boot_fields example_fork_fields example_kheap_fields)
  then have km2: "kmalloc PAGE_SIZE v = Some (?hD + 32, take_block ?hD 4096 v)"
    using kmalloc_fits [of v "[hA, hB, ?hD]" PAGE_SIZE ?hD] by (simp add: al v example_boot_fields)
  have "files u = first_nodes ?ns" "\<forall>m \<in> set ?ns. is_used m" "length ?ns < 64" using ns by (auto simp: u_def)
  from make_text_file_tree(2) [OF this km2 [unfolded v_def]] show ?thesis unfolding eq mk by (simp add: v_def)
qed

text \<open>
  C5: after \<^verbatim>\<open>ramfs_init\<close>, run when no process has a file open and every working directory is the root, any
  sequence of calls by any processes keeps the tables well formed: the nodes in use are a prefix of
  the array and form a tree below the root, in which two entries of a directory never have the same
  name and names fit their field; every descriptor owns a handle of its own, in use, that leads to a
  node in use; every working directory is a directory.
\<close>

theorem ramfs_invariant:
  assumes "ramfs_init init_addr init_size s = Some s0"
    and "\<forall>p. fd_table (pcbs s p) = replicate 16 None \<and> cwd_inode (pcbs s p) = 0"
    and "ramfs_call\<^sup>*\<^sup>* s0 s'"
  shows "ramfs_ok s'"
proof -
  have "ramfs_ok s0" using ramfs_init_ok [OF assms(1)] assms(2) by simp
  then show ?thesis by (rule ramfs_calls_ok [OF assms(3)])
qed

theorem ramfs_invariant_witness:
  "\<exists>s0 r s'. ramfs_init 0x600000 9000 example_boot = Some s0 \<and> ramfs_chdir (Some (str ''/usr'')) s0 = Some (r, s') \<and> ramfs_ok s'"
proof -
  obtain s0 where s0: "ramfs_init 0x600000 9000 example_boot = Some s0" using example_boot_runs by blast
  have z: "\<forall>p. fd_table (pcbs example_boot p) = replicate 16 None \<and> cwd_inode (pcbs example_boot p) = 0"
    by (simp add: example_boot_fields zero_pcb_def)
  have ok: "ramfs_ok s0" using ramfs_invariant [OF s0 z] by simp
  obtain i d nm where "resolve_path (Some (str ''/usr'')) False s0 = Some (i, d, nm)"
    using resolve_path_resolved(1) [OF ok, of "Some (str ''/usr'')"] by (metis option.exhaust prod_cases3)
  then have "ramfs_chdir (Some (str ''/usr'')) s0 \<noteq> None" by (simp add: ramfs_chdir_def)
  then obtain r s' where m: "ramfs_chdir (Some (str ''/usr'')) s0 = Some (r, s')" by auto
  then have "ramfs_call\<^sup>*\<^sup>* s0 s'" by (blast intro: ramfs_call.chdir_call)
  from ramfs_invariant [OF s0 z this] s0 m show ?thesis by blast
qed

subsection \<open>Reading what was written\<close>

lemma write_effect:
  assumes fd: "fd_handle fd s = Some (Some h)" "file_node (global_file_table s ! h) = Some i"
    and node: "node_type (files s ! i) \<noteq> RAMFS_TYPE_DIR" "node_content (files s ! i) \<noteq> 0"
    and off: "file_offset (global_file_table s ! h) = off" and count: "0 < count" "unat off + nat count \<le> 4096"
  defines "n \<equiv> off + to_u64 count"
  shows "unat n = unat off + nat count"
    and "ramfs_write fd buf count s = Some (count,
      let s1 = set_file h (\<lambda>f. f\<lparr>file_offset := n\<rparr>) (s\<lparr>kmem := write_bytes (kmem s) (node_content (files s ! i) + off) (map buf [0..<nat count])\<rparr>)
      in if n > node_size (files s ! i) then set_node i (\<lambda>x. x\<lparr>node_size := n\<rparr>) s1 else s1)"
proof -
  have u: "unat (to_u64 count) = nat count" using count by (intro to_u64_small) auto
  show un: "unat n = unat off + nat count" unfolding n_def using u count(2) by (subst unat_add_no_overflow) simp_all
  have "\<not> n > 4096" using un count(2) by (simp add: word_less_nat_alt not_less)
  then show "ramfs_write fd buf count s = Some (count,
      let s1 = set_file h (\<lambda>f. f\<lparr>file_offset := n\<rparr>) (s\<lparr>kmem := write_bytes (kmem s) (node_content (files s ! i) + off) (map buf [0..<nat count])\<rparr>)
      in if n > node_size (files s ! i) then set_node i (\<lambda>x. x\<lparr>node_size := n\<rparr>) s1 else s1)"
    using fd node count(1) unfolding ramfs_write_def n_def by (simp add: Let_def off)
qed

lemma read_effect:
  assumes fd: "fd_handle fd s = Some (Some h)" "file_node (global_file_table s ! h) = Some i"
    and node: "node_type (files s ! i) \<noteq> RAMFS_TYPE_DIR"
    and off: "file_offset (global_file_table s ! h) = off" and count: "0 < count" "count < 2 ^ 31" "unat off + nat count \<le> unat (node_size (files s ! i))"
  shows "ramfs_read fd count s = Some (count, map (\<lambda>k. kmem s (node_content (files s ! i) + off + of_nat k)) [0..<nat count],
    set_file h (\<lambda>f. f\<lparr>file_offset := off + to_u64 count\<rparr>) s)"
proof -
  have u: "unat (to_u64 count) = nat count" using count by (intro to_u64_small) auto
  have "unat (off + to_u64 count) = unat off + nat count"
    using u count(3) unat_lt_2p64 [of "node_size (files s ! i)"] by (subst unat_add_no_overflow) simp_all
  then have "\<not> off + to_u64 count > node_size (files s ! i)" "\<not> off \<ge> node_size (files s ! i)"
    using count by (simp_all add: word_less_nat_alt word_le_nat_alt)
  then show ?thesis using fd node count(1) by (simp add: ramfs_read_def off Let_def)
qed

lemma fd_handle_distinct:
  assumes "ramfs_ok s" "fd_handle fd s = Some (Some h)" "fd_handle fd' s = Some (Some h')" "fd \<noteq> fd'"
  shows "h \<noteq> h'"
proof
  assume "h = h'"
  then have "nat fd = nat fd'" using fd_handle_ok(3,4) [OF assms(1,2)] fd_handle_ok(3,4) [OF assms(1,3)] assms(1)
    unfolding ramfs_ok_def fds_inv_def by metis
  moreover have "0 \<le> fd" "0 \<le> fd'" using assms(2,3) by (auto simp: fd_handle_def split: if_splits)
  ultimately show False using assms(4) by simp
qed

lemma write_read_back:
  assumes ok: "ramfs_ok s" and fd: "fd_handle fd s = Some (Some h)" "fd_handle fd' s = Some (Some h')" "fd \<noteq> fd'"
    and node: "file_node (global_file_table s ! h) = Some i" "file_node (global_file_table s ! h') = Some i"
      "node_type (files s ! i) = RAMFS_TYPE_FILE" "node_content (files s ! i) \<noteq> 0"
    and off: "file_offset (global_file_table s ! h) = off" "file_offset (global_file_table s ! h') = off"
    and count: "0 < count" "unat off + nat count \<le> 4096"
  shows "\<exists>s1 s2. ramfs_write fd buf count s = Some (count, s1) \<and> ramfs_read fd' count s1 = Some (count, map buf [0..<nat count], s2)
    \<and> node_size (files s1 ! i) = max (node_size (files s ! i)) (off + to_u64 count)
    \<and> (\<forall>x. nat count \<le> unat (x - (node_content (files s ! i) + off)) \<longrightarrow> kmem s1 x = kmem s x)"
proof -
  have nd: "node_type (files s ! i) \<noteq> RAMFS_TYPE_DIR" using node(3) by simp
  define n where "n = off + to_u64 count"
  define a where "a = node_content (files s ! i) + off"
  define m where "m = write_bytes (kmem s) a (map buf [0..<nat count])"
  define s1 where "s1 = (let s1 = set_file h (\<lambda>f. f\<lparr>file_offset := n\<rparr>) (s\<lparr>kmem := m\<rparr>)
      in if n > node_size (files s ! i) then set_node i (\<lambda>x. x\<lparr>node_size := n\<rparr>) s1 else s1)"
  note w = write_effect [OF fd(1) node(1) nd node(4) off(1) count]
  have wr: "ramfs_write fd buf count s = Some (count, s1)" using w(2) unfolding s1_def m_def a_def n_def .
  have ne: "h \<noteq> h'" by (rule fd_handle_distinct [OF ok fd])
  have i64: "i < 64" "length (files s) = 64" using fd_handle_ok(2) [OF ok fd(1)] node(1) ok by (auto simp: ramfs_ok_def fs_inv_def)
  have k: "kmem s1 = m" by (simp add: s1_def Let_def)
  have f: "node_type (files s1 ! i) = RAMFS_TYPE_FILE" "node_content (files s1 ! i) = node_content (files s ! i)"
    "node_size (files s1 ! i) = max (node_size (files s ! i)) n" using i64 node(3) by (auto simp: s1_def Let_def max_def)
  have h': "fd_handle fd' s1 = Some (Some h')" "file_node (global_file_table s1 ! h') = Some i" "file_offset (global_file_table s1 ! h') = off"
    using fd(2) node(2) off(2) ne by (simp_all add: s1_def Let_def fd_handle_def split: if_splits)
  have m: "m = (\<lambda>x. if unat (x - a) < nat count then buf (unat (x - a)) else kmem s x)"
    unfolding m_def by (subst write_bytes_eq) (use count in \<open>auto simp: fun_eq_iff\<close>)
  have "unat off + nat count \<le> unat (node_size (files s1 ! i))" using w(1) f(3) by (simp add: n_def max_def word_le_nat_alt)
  then have rd: "ramfs_read fd' count s1 = Some (count, map (\<lambda>k. kmem s1 (node_content (files s1 ! i) + off + of_nat k)) [0..<nat count],
      set_file h' (\<lambda>f. f\<lparr>file_offset := off + to_u64 count\<rparr>) s1)"
    using f(1) count by (intro read_effect [OF h'(1,2) _ h'(3)]) simp_all
  have "kmem s1 (node_content (files s1 ! i) + off + of_nat k) = buf k" if "k < nat count" for k
  proof -
    have "unat (of_nat k :: u64) = k" using that count by (subst unat_of_nat) simp
    then show ?thesis using that unfolding f(2) k m a_def by simp
  qed
  then have "map (\<lambda>k. kmem s1 (node_content (files s1 ! i) + off + of_nat k)) [0..<nat count] = map buf [0..<nat count]" by simp
  moreover have "kmem s1 x = kmem s x" if "nat count \<le> unat (x - a)" for x using that by (simp add: k m)
  ultimately show ?thesis using wr rd f(3) unfolding a_def n_def by metis
qed


text \<open>Process \<open>0x2000\<close> works in \<^verbatim>\<open>/u/l\<close> and has the file \<^verbatim>\<open>/f\<close> open twice.\<close>

definition example_ramfs :: ramfs where
  "example_ramfs = proc.extend (example_fork\<lparr>pcbs := (\<lambda>_. zero_pcb)(0x2000 := zero_pcb\<lparr>fd_table := (replicate 16 None)[3 := Some 0, 4 := Some 1], cwd_inode := 2\<rparr>)\<rparr>)
     \<lparr>files = example_files, global_file_table = (replicate 128 zero_file)[0 := \<lparr>file_node = Some 3, file_offset = 0, file_ref_count = 1\<rparr>,
        1 := \<lparr>file_node = Some 3, file_offset = 0, file_ref_count = 1\<rparr>]\<rparr>"

lemma example_ramfs_fields:
  "files example_ramfs = example_files" "current_proc example_ramfs = 0x2000" "cwd_inode (pcbs example_ramfs 0x2000) = 2"
  "fd_table (pcbs example_ramfs 0x2000) = (replicate 16 None)[3 := Some 0, 4 := Some 1]"
  "p \<noteq> 0x2000 \<Longrightarrow> pcbs example_ramfs p = zero_pcb"
  "global_file_table example_ramfs = (replicate 128 zero_file)[0 := \<lparr>file_node = Some 3, file_offset = 0, file_ref_count = 1\<rparr>,
        1 := \<lparr>file_node = Some 3, file_offset = 0, file_ref_count = 1\<rparr>]"
  by (simp_all add: example_ramfs_def proc.extend_def example_fork_fields)

lemma example_nodes:
  "dir_at example_files 0" "dir_at example_files 2" "is_used (example_files ! 3)" "node_type (example_files ! 3) = 1"
  "node_content (example_files ! 3) = 0xFFFF900000000200" "node_size (example_files ! 3) = 0"
  by code_simp+

lemma example_ramfs_ok: "ramfs_ok example_ramfs"
proof -
  have fd: "fd_table (pcbs example_ramfs p) ! i = (if p = 0x2000 \<and> i = 3 then Some 0 else if p = 0x2000 \<and> i = 4 then Some 1 else None)" if "i < 16" for p i
    using that by (cases "p = 0x2000") (simp_all add: example_ramfs_fields nth_list_update zero_pcb_def)
  have "length (fd_table (pcbs example_ramfs p)) = 16" "dir_at example_files (cwd_inode (pcbs example_ramfs p))" for p
    using example_nodes(1,2) by (cases "p = 0x2000"; simp add: example_ramfs_fields zero_pcb_def)+
  then have "fds_inv example_ramfs" unfolding fds_inv_def using fd example_nodes(3)
    by (auto simp: example_ramfs_fields split: if_splits)
  then show ?thesis using example_files_inv by (simp add: ramfs_ok_def example_ramfs_fields)
qed

lemma example_fds: "fd_handle 3 example_ramfs = Some (Some 0)" "fd_handle 4 example_ramfs = Some (Some 1)"
  by (simp_all add: fd_handle_def example_ramfs_fields)


subsection \<open>New directories\<close>

lemma mkdir_effect:
  assumes ok: "ramfs_ok s" and run: "ramfs_mkdir path s = Some (0, s')"
  obtains i d nm where "resolve_path path True s = Some (-1, Some d, Some nm)" "i < 64" "\<not> is_used (files s ! i)"
    "s' = s\<lparr>files := (files s)[i := new_node nm RAMFS_TYPE_DIR d i]\<rparr>" "d \<noteq> -1"
proof -
  obtain inode par nm where rp: "resolve_path path True s = Some (inode, par, nm)"
    using run by (cases "resolve_path path True s") (auto simp: ramfs_mkdir_def)
  have new: "inode = -1" using run rp by (auto simp: ramfs_mkdir_def Let_def split: if_splits)
  obtain d where d: "par = Some d" "d \<noteq> -1" using run rp new by (cases par) (auto simp: ramfs_mkdir_def split: if_splits)
  obtain n where n: "nm = Some n" using resolved_new(2) [OF ok] rp new d by blast
  obtain i s1 where i: "make_node n RAMFS_TYPE_DIR d s = Some (i, s1)" "s' = set_node i (\<lambda>n. n\<lparr>node_size := 0\<rparr>) s1"
    using run rp new d n by (auto simp: ramfs_mkdir_def split: option.splits)
  have len: "length (files s) = 64" using ok by (simp add: ramfs_ok_def fs_inv_def)
  note m = make_node_eq [OF i(1) len]
  have "s' = s\<lparr>files := (files s)[i := new_node n RAMFS_TYPE_DIR d i]\<rparr>" using m(1,4) i(2) len by (simp add: set_node_def new_node_def zero_node_def)
  then show thesis using that rp new d n m(1,2) by blast
qed

lemma mkdir_resolves:
  assumes ok: "ramfs_ok s" and run: "ramfs_mkdir path s = Some (0, s')"
  shows "\<exists>i d nm. files s' = (files s)[i := new_node nm RAMFS_TYPE_DIR d i] \<and> \<not> is_used (files s ! i)
    \<and> resolve_path path True s' = Some (int i, Some d, Some nm) \<and> dir_at (files s') (int i)
    \<and> ramfs_mkdir path s' = Some (-1, s')
    \<and> (\<forall>path2 j d2 nm2. resolve_path path2 False s = Some (j, d2, nm2) \<longrightarrow> j \<noteq> -1 \<longrightarrow> resolve_path path2 False s' = Some (j, d2, nm2))"
proof -
  obtain i d nm where e: "resolve_path path True s = Some (-1, Some d, Some nm)" "i < 64" "\<not> is_used (files s ! i)"
    "s' = s\<lparr>files := (files s)[i := new_node nm RAMFS_TYPE_DIR d i]\<rparr>" "d \<noteq> -1" by (rule mkdir_effect [OF ok run])
  have ok': "ramfs_ok s'" by (rule mkdir_ok [OF ok run])
  then have inv': "fs_inv (files s')" by (simp add: ramfs_ok_def)
  have len: "length (files s) = 64" using ok by (simp add: ramfs_ok_def fs_inv_def)
  have fs': "files s' = (files s)[i := new_node nm RAMFS_TYPE_DIR d i]" and same: "current_proc s' = current_proc s" "pcbs s' = pcbs s" by (simp_all add: e(4))
  have at: "files s' ! i = new_node nm RAMFS_TYPE_DIR d i" using e(2) len by (simp add: fs')
  have fc: "find_child (files s') d nm = int i" using find_child_eq [OF inv' e(2)] at by simp
  have rp: "resolve_path path True s' = Some (int i, Some d, Some nm)"
    using resolve_path_grows [OF ok e(1) inv' fs' e(2,3) same] fc by simp
  have "ramfs_mkdir path s' = Some (-1, s')" unfolding ramfs_mkdir_def rp by simp
  moreover have "dir_at (files s') (int i)" using at e(2) by (simp add: dir_at_def)
  moreover have "resolve_path path2 False s' = Some (j, d2, nm2)" if r: "resolve_path path2 False s = Some (j, d2, nm2)" "j \<noteq> -1" for path2 j d2 nm2
  proof -
    have "d2 \<noteq> None" using resolve_path_resolved(2) [OF ok r(1)] r(2) by (cases d2) (simp_all add: resolved_def)
    then obtain d3 where "d2 = Some d3" by blast
    then show ?thesis using resolve_path_grows [OF ok _ inv' fs' e(2,3) same, of path2 False j d3 nm2] r by simp
  qed
  ultimately show ?thesis using fs' e(3) rp by blast
qed

subsection \<open>The working directory\<close>

lemma getcwd_path:
  assumes ok: "ramfs_ok s" and cp: "current_proc s \<noteq> 0"
  defines "c \<equiv> cwd_inode (pcbs s (current_proc s))"
  defines "pth \<equiv> (if c = 0 then [slash] else path_str (abs_names (files s) (nat c)))"
  shows "ramfs_getcwd True sz s = Some (if length pth < unat sz then Some pth else None)
    \<and> (length pth \<le> 128 \<longrightarrow> (\<exists>d nm. resolve_path (Some pth) False s = Some (c, d, nm)))"
proof -
  have inv: "fs_inv (files s)" using ok by (simp add: ramfs_ok_def)
  have dc: "dir_at (files s) c" using ok by (simp add: ramfs_ok_def fds_inv_def c_def)
  define i where "i = nat c"
  have i: "c = int i" "i < 64" "is_used (files s ! i)" using dc by (auto simp: dir_at_def i_def)
  show ?thesis
  proof (cases "c = 0")
    case True
    have "sz < 2 \<longleftrightarrow> \<not> 1 < unat sz" by (simp add: word_less_nat_alt) linarith
    then have g: "ramfs_getcwd True sz s = Some (if length pth < unat sz then Some pth else None)"
      using True cp by (auto simp: ramfs_getcwd_def c_def [symmetric] pth_def)
    have "resolve_path (Some pth) False s = Some (0, Some (parent_idx (files s ! 0)), None)"
      using True by (simp add: pth_def resolve_path_def resolve_loop.simps [of _ 0] path_token_def)
    then show ?thesis using g True by blast
  next
    case False
    then have i0: "i \<noteq> 0" and pth: "pth = path_str (abs_names (files s) i)" by (auto simp: i pth_def)
    have ne: "abs_names (files s) i \<noteq> []" using abs_names_nonempty [OF inv i(2,3)] i0 by simp
    have sl: "pth = slash # tl pth" unfolding pth by (rule path_str_nonempty [OF ne])
    have len: "length pth \<le> 32 * i" unfolding pth by (rule path_str_bound [OF inv i(2,3)])
    have g: "ramfs_getcwd True sz s = Some (if length pth < unat sz then Some pth else None)"
    proof (cases "sz = 0")
      case True
      then show ?thesis by (simp add: ramfs_getcwd_def)
    next
      case nz: False
      have l: "cwd_length (files s) sz (int i) 0 = Some (if length pth < unat sz then int (length pth) else -1)"
        using cwd_length_path [OF inv i(2,3), of 0 sz] i0 i(2) by (simp add: pth)
      have w: "cwd_write (files s) (int i) [] = Some pth" using cwd_write_path [OF inv i(2,3)] by (simp add: pth)
      show ?thesis unfolding ramfs_getcwd_def c_def [symmetric] using cp nz False l w by (simp add: i(1) Let_def)
    qed
    moreover have "\<exists>d nm. resolve_path (Some pth) False s = Some (c, d, nm)" if "length pth \<le> 128"
    proof -
      obtain d nm where r: "resolve_loop (files s) 0 (tl pth) = Some (int i, Some d, Some nm)"
        using resolve_abs [OF inv i(2,3) i0] unfolding pth by blast
      have h: "pth \<noteq> []" "hd pth = slash" using sl by (cases pth; simp)+
      have "take 127 (tl pth) = tl pth" using that by simp
      then show ?thesis using r h unfolding resolve_path_def by (simp add: i(1))
    qed
    ultimately show ?thesis by blast
  qed
qed


subsection \<open>Names that do not fit\<close>

lemma long_name_overflows:
  assumes ok: "ramfs_ok s" and nm: "good_name nm" "32 \<le> length nm" "length nm \<le> 127"
  shows "ramfs_mkdir (Some nm) s = None \<and> ramfs_open (Some nm) flags s = None \<and> ramfs_chdir (Some nm) s = Some (-1, s)"
proof -
  define c where "c = (if current_proc s \<noteq> 0 then cwd_inode (pcbs s (current_proc s)) else 0)"
  have inv: "fs_inv (files s)" using ok by (simp add: ramfs_ok_def)
  have c: "dir_at (files s) c" using ok dir_at_root [OF inv] by (simp add: c_def ramfs_ok_def fds_inv_def)
  have h: "\<not> (nm \<noteq> [] \<and> hd nm = slash)" using nm(1) by (cases nm) (auto simp: good_name_def)
  have nf: "find_child (files s) c nm = -1"
  proof (rule ccontr)
    assume "find_child (files s) c nm \<noteq> -1"
    note f = find_child_Some [OF this]
    let ?k = "nat (find_child (files s) c nm)"
    have k: "?k < 64" using f by simp
    have "?k \<noteq> 0"
    proof
      assume z: "?k = 0"
      then have "node_ok (files s) 0" using fs_inv_node [OF inv, of 0] f(3) by simp
      then show False using z f(4) c by (simp add: node_ok_def dir_at_def)
    qed
    then show False using fs_inv_node [OF inv f(3) k] f(5) nm(2) by (simp add: node_ok_def)
  qed
  have "resolve_loop (files s) c nm = Some (-1, Some c, Some nm)"
    using resolve_component(1) [OF nm(1), of c "files s"] c nf by (simp add: dir_at_def)
  then have r: "resolve_path (Some nm) out s = (if out then None else Some (-1, Some c, Some nm))" for out
    unfolding resolve_path_def Let_def option.case if_not_P [OF h] c_def [symmetric] using nm(2,3) by simp
  show ?thesis by (simp add: ramfs_mkdir_def ramfs_open_def ramfs_chdir_def r)
qed

subsection \<open>Properties of files and directories\<close>

text \<open>
  C9: what is written through one descriptor is read back through another one of the same file at the
  same offset: a write of \<open>count\<close> bytes that ends within the first 4096 bytes of the file returns \<open>count\<close>,
  extends the size of the file to the end of the write, and changes no byte of memory outside the
  written part; the read then returns \<open>count\<close> and the bytes written.
\<close>

theorem ramfs_write_read_roundtrip:
  assumes "ramfs_ok s" "fd_handle fd s = Some (Some h)" "fd_handle fd' s = Some (Some h')" "fd \<noteq> fd'"
    and "file_node (global_file_table s ! h) = Some i" "file_node (global_file_table s ! h') = Some i"
      "node_type (files s ! i) = RAMFS_TYPE_FILE" "node_content (files s ! i) \<noteq> 0"
    and "file_offset (global_file_table s ! h) = off" "file_offset (global_file_table s ! h') = off"
    and "0 < count" "unat off + nat count \<le> 4096"
  shows "\<exists>s1 s2. ramfs_write fd buf count s = Some (count, s1) \<and> ramfs_read fd' count s1 = Some (count, map buf [0..<nat count], s2)
    \<and> node_size (files s1 ! i) = max (node_size (files s ! i)) (off + to_u64 count)
    \<and> (\<forall>x. nat count \<le> unat (x - (node_content (files s ! i) + off)) \<longrightarrow> kmem s1 x = kmem s x)"
  by (rule write_read_back [OF assms])

theorem ramfs_write_read_roundtrip_witness:
  "\<exists>s1 s2. ramfs_write 3 (\<lambda>k. [104, 105] ! k) 2 example_ramfs = Some (2, s1) \<and> ramfs_read 4 2 s1 = Some (2, [104, 105], s2)"
proof -
  have m: "map (\<lambda>k. [104, 105 :: u8] ! k) [0..<nat 2] = [104, 105]" by code_simp
  have "(3 :: int) \<noteq> 4" "(0 :: int) < 2" "unat (0 :: u64) + nat 2 \<le> 4096" by simp_all
  from ramfs_write_read_roundtrip [OF example_ramfs_ok example_fds this(1) _ _ _ _ _ _ this(2,3), of 3 "\<lambda>k. [104, 105] ! k"]
  show ?thesis unfolding m using example_nodes by (auto simp: example_ramfs_fields)
qed

text \<open>
  C24: after a successful \<^verbatim>\<open>mkdir\<close> the path resolves to a directory, made in a node that was not in use
  before; making it again fails and changes nothing; every path that could be resolved before still
  resolves to the same node.
\<close>

theorem ramfs_mkdir_resolves:
  assumes "ramfs_ok s" and "ramfs_mkdir path s = Some (0, s')"
  shows "\<exists>i d nm. files s' = (files s)[i := new_node nm RAMFS_TYPE_DIR d i] \<and> \<not> is_used (files s ! i)
    \<and> resolve_path path True s' = Some (int i, Some d, Some nm) \<and> dir_at (files s') (int i)
    \<and> ramfs_mkdir path s' = Some (-1, s')
    \<and> (\<forall>path2 j d2 nm2. resolve_path path2 False s = Some (j, d2, nm2) \<longrightarrow> j \<noteq> -1 \<longrightarrow> resolve_path path2 False s' = Some (j, d2, nm2))"
  by (rule mkdir_resolves [OF assms])

lemma example_mkdir: "\<exists>s'. ramfs_mkdir (Some [46, 46, 47, 97]) example_ramfs = Some (0, s')"
proof -
  have "resolve_loop example_files 2 [46, 46, 47, 97] = Some (-1, Some 1, Some [97])" by code_simp
  then have r: "resolve_path (Some [46, 46, 47, 97]) True example_ramfs = Some (-1, Some 1, Some [97])"
    by (simp add: resolve_path_def example_ramfs_fields)
  have "find (\<lambda>i. \<not> is_used (example_files ! i)) [0..<64] = Some 4" by code_simp
  then show ?thesis by (simp add: ramfs_mkdir_def r make_node_def alloc_inode_def example_ramfs_fields)
qed

theorem ramfs_mkdir_resolves_witness:
  "\<exists>s' i d nm. ramfs_mkdir (Some [46, 46, 47, 97]) example_ramfs = Some (0, s')
     \<and> resolve_path (Some [46, 46, 47, 97]) True s' = Some (int i, Some d, Some nm) \<and> ramfs_mkdir (Some [46, 46, 47, 97]) s' = Some (-1, s')"
proof -
  obtain s' where s': "ramfs_mkdir (Some [46, 46, 47, 97]) example_ramfs = Some (0, s')" using example_mkdir by blast
  then show ?thesis using ramfs_mkdir_resolves [OF example_ramfs_ok s'] by blast
qed

text \<open>
  C25: \<^verbatim>\<open>getcwd\<close> ends; it stores the path of the working directory if that and its terminating zero fit the
  buffer and returns \<^verbatim>\<open>NULL\<close> otherwise; a path of at most 128 bytes resolves back to the working directory.
\<close>

theorem ramfs_getcwd_roundtrip:
  assumes "ramfs_ok s" and "current_proc s \<noteq> 0" and "c = cwd_inode (pcbs s (current_proc s))"
    and "pth = (if c = 0 then [slash] else path_str (abs_names (files s) (nat c)))"
  shows "ramfs_getcwd True sz s = Some (if length pth < unat sz then Some pth else None)
    \<and> (length pth \<le> 128 \<longrightarrow> (\<exists>d nm. resolve_path (Some pth) False s = Some (c, d, nm)))"
  unfolding assms(3,4) by (rule getcwd_path [OF assms(1,2)])

theorem ramfs_getcwd_roundtrip_witness:
  "ramfs_getcwd True 5 example_ramfs = Some (Some [47, 117, 47, 108]) \<and> ramfs_getcwd True 4 example_ramfs = Some None
    \<and> (\<exists>d nm. resolve_path (Some [47, 117, 47, 108]) False example_ramfs = Some (2, d, nm))"
proof -
  have p: "path_str (abs_names example_files 2) = [47, 117, 47, 108]" by code_simp
  note g = ramfs_getcwd_roundtrip [OF example_ramfs_ok _ refl refl]
  show ?thesis using g [of 5] g [of 4] by (simp add: example_ramfs_fields p)
qed



subsection \<open>Components as \<^verbatim>\<open>strtok_r\<close> finds them\<close>

lemma path_token_strtok:
  assumes d: "cstr m delim [slash]" and c: "cstr m p s" and "p \<noteq> 0"
  shows "case path_token s of
      None \<Rightarrow> strtok_r m p delim p = Some (m, 0, p + of_nat (length s))
    | Some (tok, rest) \<Rightarrow> \<exists>m' q p'. strtok_r m p delim p = Some (m', q, p') \<and> cstr m' q tok \<and> cstr m' p' rest
        \<and> (\<forall>x. m' x \<noteq> m x \<longrightarrow> (\<exists>j < length s. x = p + of_nat j))"
proof -
  define rest where "rest = dropWhile (\<lambda>c. c = slash) s"
  define pre where "pre = takeWhile (\<lambda>c. c = slash) s"
  define tok where "tok = takeWhile (\<lambda>c. c \<noteq> slash) rest"
  define a where "a = p + of_nat (length pre)"
  have s: "s = pre @ rest" by (simp add: pre_def rest_def)
  then have len: "length s - length rest = length pre" by simp
  have sets: "(\<lambda>c. c \<in> set [slash]) = (\<lambda>c. c = slash)" "(\<lambda>c. c \<notin> set [slash]) = (\<lambda>c. c \<noteq> slash)" by auto
  have st: "strtok_r m p delim p = (if rest = [] then Some (m, 0, a) else if tok = rest then Some (m, a, a + of_nat (length tok))
      else Some (m(a + of_nat (length tok) := 0), a, a + of_nat (length tok) + 1))"
    using strtok_r_cstr [OF d c, of p p] assms(3) unfolding sets Let_def rest_def [symmetric] tok_def [symmetric] len a_def [symmetric] by simp
  have ca: "cstr m a rest" unfolding a_def using c cstr_append s by metis
  have pt: "path_token s = (if rest = [] then None else Some (tok, drop 1 (dropWhile (\<lambda>c. c \<noteq> slash) rest)))"
    by (simp add: path_token_def Let_def rest_def tok_def)
  consider "rest = []" | "rest \<noteq> []" "tok = rest" | y zs where "rest = tok @ y # zs"
    by (metis tok_def append_Nil2 takeWhile_dropWhile_id neq_Nil_conv)
  then show ?thesis
  proof cases
    case 1
    then show ?thesis using st pt s by (simp add: a_def)
  next
    case 2
    then have dw: "dropWhile (\<lambda>c. c \<noteq> slash) rest = []" by (metis tok_def takeWhile_dropWhile_id append_self_conv)
    have "path_token s = Some (tok, [])" unfolding pt dw using 2 by simp
    moreover have "cstr m (a + of_nat (length tok)) []" using cstr_append [of m a rest "[]"] ca 2 by simp
    ultimately show ?thesis using 2 st ca by simp
  next
    case 3
    have dw: "dropWhile (\<lambda>c. c \<noteq> slash) rest = y # zs" using 3 by (metis tok_def takeWhile_dropWhile_id same_append_eq)
    note cut = cstr_cut [OF ca [unfolded 3]]
    have fr: "\<exists>j < length s. x = p + of_nat j" if "(m(a + of_nat (length tok) := 0)) x \<noteq> m x" for x
      using that s 3 by (intro exI [of _ "length pre + length tok"]) (auto simp: a_def add.assoc split: if_splits)
    have "rest \<noteq> []" "tok \<noteq> rest" using 3 by (metis append_is_Nil_conv list.distinct(1), metis append_self_conv list.distinct(1))
    then have e: "strtok_r m p delim p = Some (m(a + of_nat (length tok) := 0), a, a + of_nat (length tok) + 1)" "path_token s = Some (tok, zs)"
      using st pt dw by simp_all
    show ?thesis unfolding e option.case prod.case using cut fr by blast
  qed
qed

text \<open>
  C26: the components of a path as the model of \<^verbatim>\<open>resolve_path\<close> cuts them off are those of \<^verbatim>\<open>strtok_r\<close> on the
  path in memory with \<^verbatim>\<open>"/"\<close> as the delimiter: it returns \<^verbatim>\<open>NULL\<close> exactly when no component is left, and
  otherwise a pointer to the component, leaves the saved pointer on the rest, and writes only into the
  path.
\<close>

theorem path_token_is_strtok_r:
  assumes "cstr m delim [slash]" and "cstr m p s" and "p \<noteq> 0"
  shows "case path_token s of
      None \<Rightarrow> strtok_r m p delim p = Some (m, 0, p + of_nat (length s))
    | Some (tok, rest) \<Rightarrow> \<exists>m' q p'. strtok_r m p delim p = Some (m', q, p') \<and> cstr m' q tok \<and> cstr m' p' rest
        \<and> (\<forall>x. m' x \<noteq> m x \<longrightarrow> (\<exists>j < length s. x = p + of_nat j))"
  by (rule path_token_strtok [OF assms])

theorem path_token_is_strtok_r_witness:
  "\<exists>m' q p'. strtok_r (mem_of 16 [47, 0, 117, 47, 108, 0]) 18 16 18 = Some (m', q, p') \<and> cstr m' q [117] \<and> cstr m' p' [108]"
proof -
  have c: "cstr (mem_of 16 [47, 0, 117, 47, 108, 0]) 16 [47]" "cstr (mem_of 16 [47, 0, 117, 47, 108, 0]) 18 [117, 47, 108]" by code_simp+
  have t: "path_token [117, 47, 108] = Some ([117], [108])" by code_simp
  have "(18 :: u64) \<noteq> 0" by simp
  from path_token_is_strtok_r [OF c this] show ?thesis unfolding t option.case prod.case by blast
qed

end
