(* ===== verification/Console.thy ===== *)
theory Console
  imports KString
begin

text \<open>
  The console, \<^verbatim>\<open>drivers/console.c\<close>: the text of the last 1000 lines in \<^verbatim>\<open>history_buffer\<close>, the cursor in it, the
  part that is on view, and the pixels of the frame buffer, which are indexed by their position from
  \<^verbatim>\<open>g_fb->address\<close> on. The theorems relate the pixels to the text.
\<close>

abbreviation (input) SCALE :: int where "SCALE \<equiv> 2"
abbreviation (input) FONT_W :: int where "FONT_W \<equiv> 8"
abbreviation (input) FONT_H :: int where "FONT_H \<equiv> 8"
abbreviation (input) FG_COLOR :: u32 where "FG_COLOR \<equiv> 0xFFFFFFFF"
abbreviation (input) BG_COLOR :: u32 where "BG_COLOR \<equiv> 0"
abbreviation (input) MAX_HISTORY :: nat where "MAX_HISTORY \<equiv> 1000"
abbreviation (input) MAX_COLS :: nat where "MAX_COLS \<equiv> 128"

record limine_framebuffer =
  fb_width :: u64
  fb_height :: u64
  fb_pitch :: u64

record console =
  history_buffer :: "u8 list list"
  g_fb :: "limine_framebuffer option"
  g_cursor_x :: int
  g_cursor_y :: int
  g_view_offset :: int
  g_screen_rows :: int
  g_screen_cols :: int
  pixels :: "int \<Rightarrow> u32"

definition font8x8_basic :: "u8 list list" where
  "font8x8_basic =
    [[0x00, 0x00, 0x00, 0x00, 0x00, 0x00, 0x00, 0x00],
     [0x00, 0x00, 0x00, 0x00, 0x00, 0x00, 0x00, 0x00],
     [0x00, 0x00, 0x00, 0x00, 0x00, 0x00, 0x00, 0x00],
     [0x00, 0x00, 0x00, 0x00, 0x00, 0x00, 0x00, 0x00],
     [0x00, 0x00, 0x00, 0x00, 0x00, 0x00, 0x00, 0x00],
     [0x00, 0x00, 0x00, 0x00, 0x00, 0x00, 0x00, 0x00],
     [0x00, 0x00, 0x00, 0x00, 0x00, 0x00, 0x00, 0x00],
     [0x00, 0x00, 0x00, 0x00, 0x00, 0x00, 0x00, 0x00],
     [0x00, 0x00, 0x00, 0x00, 0x00, 0x00, 0x00, 0x00],
     [0x00, 0x00, 0x00, 0x00, 0x00, 0x00, 0x00, 0x00],
     [0x00, 0x00, 0x00, 0x00, 0x00, 0x00, 0x00, 0x00],
     [0x00, 0x00, 0x00, 0x00, 0x00, 0x00, 0x00, 0x00],
     [0x00, 0x00, 0x00, 0x00, 0x00, 0x00, 0x00, 0x00],
     [0x00, 0x00, 0x00, 0x00, 0x00, 0x00, 0x00, 0x00],
     [0x00, 0x00, 0x00, 0x00, 0x00, 0x00, 0x00, 0x00],
     [0x00, 0x00, 0x00, 0x00, 0x00, 0x00, 0x00, 0x00],
     [0x00, 0x00, 0x00, 0x00, 0x00, 0x00, 0x00, 0x00],
     [0x00, 0x00, 0x00, 0x00, 0x00, 0x00, 0x00, 0x00],
     [0x00, 0x00, 0x00, 0x00, 0x00, 0x00, 0x00, 0x00],
     [0x00, 0x00, 0x00, 0x00, 0x00, 0x00, 0x00, 0x00],
     [0x00, 0x00, 0x00, 0x00, 0x00, 0x00, 0x00, 0x00],
     [0x00, 0x00, 0x00, 0x00, 0x00, 0x00, 0x00, 0x00],
     [0x00, 0x00, 0x00, 0x00, 0x00, 0x00, 0x00, 0x00],
     [0x00, 0x00, 0x00, 0x00, 0x00, 0x00, 0x00, 0x00],
     [0x00, 0x00, 0x00, 0x00, 0x00, 0x00, 0x00, 0x00],
     [0x00, 0x00, 0x00, 0x00, 0x00, 0x00, 0x00, 0x00],
     [0x00, 0x00, 0x00, 0x00, 0x00, 0x00, 0x00, 0x00],
     [0x00, 0x00, 0x00, 0x00, 0x00, 0x00, 0x00, 0x00],
     [0x00, 0x00, 0x00, 0x00, 0x00, 0x00, 0x00, 0x00],
     [0x00, 0x00, 0x00, 0x00, 0x00, 0x00, 0x00, 0x00],
     [0x00, 0x00, 0x00, 0x00, 0x00, 0x00, 0x00, 0x00],
     [0x00, 0x00, 0x00, 0x00, 0x00, 0x00, 0x00, 0x00],
     [0x00, 0x00, 0x00, 0x00, 0x00, 0x00, 0x00, 0x00],
     [0x18, 0x3C, 0x3C, 0x18, 0x18, 0x00, 0x18, 0x00],
     [0x36, 0x36, 0x00, 0x00, 0x00, 0x00, 0x00, 0x00],
     [0x36, 0x36, 0x7F, 0x36, 0x7F, 0x36, 0x36, 0x00],
     [0x0C, 0x3E, 0x03, 0x1E, 0x30, 0x1F, 0x0C, 0x00],
     [0x00, 0x63, 0x33, 0x18, 0x0C, 0x66, 0x63, 0x00],
     [0x1C, 0x36, 0x1C, 0x6E, 0x3B, 0x33, 0x6E, 0x00],
     [0x06, 0x06, 0x03, 0x00, 0x00, 0x00, 0x00, 0x00],
     [0x18, 0x0C, 0x06, 0x06, 0x06, 0x0C, 0x18, 0x00],
     [0x06, 0x0C, 0x18, 0x18, 0x18, 0x0C, 0x06, 0x00],
     [0x00, 0x66, 0x3C, 0xFF, 0x3C, 0x66, 0x00, 0x00],
     [0x00, 0x0C, 0x0C, 0x3F, 0x0C, 0x0C, 0x00, 0x00],
     [0x00, 0x00, 0x00, 0x00, 0x00, 0x0C, 0x0C, 0x06],
     [0x00, 0x00, 0x00, 0x3F, 0x00, 0x00, 0x00, 0x00],
     [0x00, 0x00, 0x00, 0x00, 0x00, 0x0C, 0x0C, 0x00],
     [0x60, 0x30, 0x18, 0x0C, 0x06, 0x03, 0x01, 0x00],
     [0x3E, 0x63, 0x73, 0x7B, 0x6F, 0x67, 0x3E, 0x00],
     [0x0C, 0x0E, 0x0C, 0x0C, 0x0C, 0x0C, 0x3F, 0x00],
     [0x1E, 0x33, 0x30, 0x1C, 0x06, 0x33, 0x3F, 0x00],
     [0x1E, 0x33, 0x30, 0x1C, 0x30, 0x33, 0x1E, 0x00],
     [0x38, 0x3C, 0x36, 0x33, 0x7F, 0x30, 0x78, 0x00],
     [0x3F, 0x03, 0x1F, 0x30, 0x30, 0x33, 0x1E, 0x00],
     [0x1C, 0x06, 0x03, 0x1F, 0x33, 0x33, 0x1E, 0x00],
     [0x3F, 0x33, 0x30, 0x18, 0x0C, 0x0C, 0x0C, 0x00],
     [0x1E, 0x33, 0x33, 0x1E, 0x33, 0x33, 0x1E, 0x00],
     [0x1E, 0x33, 0x33, 0x3E, 0x30, 0x18, 0x0E, 0x00],
     [0x00, 0x0C, 0x0C, 0x00, 0x00, 0x0C, 0x0C, 0x00],
     [0x00, 0x0C, 0x0C, 0x00, 0x00, 0x0C, 0x0C, 0x06],
     [0x18, 0x0C, 0x06, 0x03, 0x06, 0x0C, 0x18, 0x00],
     [0x00, 0x00, 0x3F, 0x00, 0x00, 0x3F, 0x00, 0x00],
     [0x06, 0x0C, 0x18, 0x30, 0x18, 0x0C, 0x06, 0x00],
     [0x1E, 0x33, 0x30, 0x18, 0x0C, 0x00, 0x0C, 0x00],
     [0x3E, 0x63, 0x7B, 0x7B, 0x7B, 0x03, 0x1E, 0x00],
     [0x0C, 0x1E, 0x33, 0x33, 0x3F, 0x33, 0x33, 0x00],
     [0x3F, 0x66, 0x66, 0x3E, 0x66, 0x66, 0x3F, 0x00],
     [0x3C, 0x66, 0x03, 0x03, 0x03, 0x66, 0x3C, 0x00],
     [0x1F, 0x36, 0x66, 0x66, 0x66, 0x36, 0x1F, 0x00],
     [0x7F, 0x46, 0x16, 0x1E, 0x16, 0x46, 0x7F, 0x00],
     [0x7F, 0x46, 0x16, 0x1E, 0x16, 0x06, 0x0F, 0x00],
     [0x3C, 0x66, 0x03, 0x03, 0x73, 0x66, 0x7C, 0x00],
     [0x33, 0x33, 0x33, 0x3F, 0x33, 0x33, 0x33, 0x00],
     [0x1E, 0x0C, 0x0C, 0x0C, 0x0C, 0x0C, 0x1E, 0x00],
     [0x78, 0x30, 0x30, 0x30, 0x33, 0x33, 0x1E, 0x00],
     [0x67, 0x66, 0x36, 0x1E, 0x36, 0x66, 0x67, 0x00],
     [0x0F, 0x06, 0x06, 0x06, 0x46, 0x66, 0x7F, 0x00],
     [0x63, 0x77, 0x7F, 0x7F, 0x6B, 0x63, 0x63, 0x00],
     [0x63, 0x67, 0x6F, 0x7B, 0x73, 0x63, 0x63, 0x00],
     [0x1C, 0x36, 0x63, 0x63, 0x63, 0x36, 0x1C, 0x00],
     [0x3F, 0x66, 0x66, 0x3E, 0x06, 0x06, 0x0F, 0x00],
     [0x1E, 0x33, 0x33, 0x33, 0x3B, 0x1E, 0x38, 0x00],
     [0x3F, 0x66, 0x66, 0x3E, 0x36, 0x66, 0x67, 0x00],
     [0x1E, 0x33, 0x07, 0x0E, 0x38, 0x33, 0x1E, 0x00],
     [0x3F, 0x2D, 0x0C, 0x0C, 0x0C, 0x0C, 0x1E, 0x00],
     [0x33, 0x33, 0x33, 0x33, 0x33, 0x33, 0x3F, 0x00],
     [0x33, 0x33, 0x33, 0x33, 0x33, 0x1E, 0x0C, 0x00],
     [0x63, 0x63, 0x63, 0x6B, 0x7F, 0x77, 0x63, 0x00],
     [0x63, 0x63, 0x36, 0x1C, 0x1C, 0x36, 0x63, 0x00],
     [0x33, 0x33, 0x33, 0x1E, 0x0C, 0x0C, 0x1E, 0x00],
     [0x7F, 0x63, 0x31, 0x18, 0x4C, 0x66, 0x7F, 0x00],
     [0x1E, 0x06, 0x06, 0x06, 0x06, 0x06, 0x1E, 0x00],
     [0x03, 0x06, 0x0C, 0x18, 0x30, 0x60, 0x40, 0x00],
     [0x1E, 0x18, 0x18, 0x18, 0x18, 0x18, 0x1E, 0x00],
     [0x08, 0x1C, 0x36, 0x63, 0x00, 0x00, 0x00, 0x00],
     [0x00, 0x00, 0x00, 0x00, 0x00, 0x00, 0x00, 0xFF],
     [0x0C, 0x0C, 0x18, 0x00, 0x00, 0x00, 0x00, 0x00],
     [0x00, 0x00, 0x1E, 0x30, 0x3E, 0x33, 0x6E, 0x00],
     [0x07, 0x06, 0x06, 0x3E, 0x66, 0x66, 0x3B, 0x00],
     [0x00, 0x00, 0x1E, 0x33, 0x03, 0x33, 0x1E, 0x00],
     [0x38, 0x30, 0x30, 0x3e, 0x33, 0x33, 0x6E, 0x00],
     [0x00, 0x00, 0x1E, 0x33, 0x3f, 0x03, 0x1E, 0x00],
     [0x1C, 0x36, 0x06, 0x0f, 0x06, 0x06, 0x0F, 0x00],
     [0x00, 0x00, 0x6E, 0x33, 0x33, 0x3E, 0x30, 0x1F],
     [0x07, 0x06, 0x36, 0x6E, 0x66, 0x66, 0x67, 0x00],
     [0x0C, 0x00, 0x0E, 0x0C, 0x0C, 0x0C, 0x1E, 0x00],
     [0x30, 0x00, 0x30, 0x30, 0x30, 0x33, 0x33, 0x1E],
     [0x07, 0x06, 0x66, 0x36, 0x1E, 0x36, 0x67, 0x00],
     [0x0E, 0x0C, 0x0C, 0x0C, 0x0C, 0x0C, 0x1E, 0x00],
     [0x00, 0x00, 0x33, 0x7F, 0x7F, 0x6B, 0x63, 0x00],
     [0x00, 0x00, 0x1F, 0x33, 0x33, 0x33, 0x33, 0x00],
     [0x00, 0x00, 0x1E, 0x33, 0x33, 0x33, 0x1E, 0x00],
     [0x00, 0x00, 0x3B, 0x66, 0x66, 0x3E, 0x06, 0x0F],
     [0x00, 0x00, 0x6E, 0x33, 0x33, 0x3E, 0x30, 0x78],
     [0x00, 0x00, 0x3B, 0x6E, 0x66, 0x06, 0x0F, 0x00],
     [0x00, 0x00, 0x3E, 0x03, 0x1E, 0x30, 0x1F, 0x00],
     [0x08, 0x0C, 0x3E, 0x0C, 0x0C, 0x2C, 0x18, 0x00],
     [0x00, 0x00, 0x33, 0x33, 0x33, 0x33, 0x6E, 0x00],
     [0x00, 0x00, 0x33, 0x33, 0x33, 0x1E, 0x0C, 0x00],
     [0x00, 0x00, 0x63, 0x6B, 0x7F, 0x7F, 0x36, 0x00],
     [0x00, 0x00, 0x63, 0x36, 0x1C, 0x36, 0x63, 0x00],
     [0x00, 0x00, 0x33, 0x33, 0x33, 0x3E, 0x30, 0x1F],
     [0x00, 0x00, 0x3F, 0x19, 0x0C, 0x26, 0x3F, 0x00],
     [0x38, 0x0C, 0x0C, 0x07, 0x0C, 0x0C, 0x38, 0x00],
     [0x18, 0x18, 0x18, 0x00, 0x18, 0x18, 0x18, 0x00],
     [0x07, 0x0C, 0x0C, 0x38, 0x0C, 0x0C, 0x07, 0x00],
     [0x6E, 0x3B, 0x00, 0x00, 0x00, 0x00, 0x00, 0x00],
     [0x00, 0x00, 0x00, 0x00, 0x00, 0x00, 0x00, 0x00]]"

subsection \<open>Drawing\<close>

definition pitch_pixels :: "limine_framebuffer \<Rightarrow> int" where
  "pitch_pixels fb = uint (ucast (fb_pitch fb div 4) :: u32)"

definition put_pixel_scaled :: "int \<Rightarrow> int \<Rightarrow> u32 \<Rightarrow> console \<Rightarrow> console" where
  "put_pixel_scaled x y color s =
     (case g_fb s of
        None \<Rightarrow> s
      | Some fb \<Rightarrow>
          let start_x = x * SCALE; start_y = y * SCALE
          in fold (\<lambda>dy. fold (\<lambda>dx s.
               if start_x + dx < to_int (fb_width fb) \<and> start_y + dy < to_int (fb_height fb)
               then s\<lparr>pixels := (pixels s)(((start_y + dy) * pitch_pixels fb) mod 2 ^ 32 + start_x + dx := color)\<rparr>
               else s) [0, 1]) [0, 1] s)"

definition draw_char_on_screen :: "int \<Rightarrow> int \<Rightarrow> u8 \<Rightarrow> console \<Rightarrow> console" where
  "draw_char_on_screen col row c s =
     (if c > 127 then s
      else
        let bmp = font8x8_basic ! unat c
        in fold (\<lambda>y. fold (\<lambda>x.
             put_pixel_scaled (col * FONT_W + int x) (row * FONT_H + int y) (if bit (bmp ! y) x then FG_COLOR else BG_COLOR)) [0..<8]) [0..<8] s)"

text \<open>The character at a cell of the history, with the zero bytes of unwritten cells as blanks.\<close>

definition history_char :: "console \<Rightarrow> int \<Rightarrow> nat \<Rightarrow> u8" where
  "history_char s r j = (let c = history_buffer s ! nat r ! j in if c = 0 then 32 else c)"

definition console_refresh :: "console \<Rightarrow> console" where
  "console_refresh s =
     (case g_fb s of
        None \<Rightarrow> s
      | Some fb \<Rightarrow>
          let t = g_cursor_y s - (g_screen_rows s - 1) - g_view_offset s;
              screen_top_row_idx = (if t < 0 then 0 else t)
          in fold (\<lambda>i s.
               let buf_row = screen_top_row_idx + int i
               in if buf_row > g_cursor_y s \<or> buf_row \<ge> int MAX_HISTORY
                  then fold (\<lambda>j. draw_char_on_screen (int j) (int i) 32) [0..<nat (g_screen_cols s)] s
                  else fold (\<lambda>j s. draw_char_on_screen (int j) (int i) (history_char s buf_row j) s) [0..<nat (g_screen_cols s)] s)
             [0..<nat (g_screen_rows s)] s)"

definition kclear :: "console \<Rightarrow> console" where
  "kclear s =
     (case g_fb s of
        None \<Rightarrow> s
      | Some fb \<Rightarrow> s\<lparr>pixels := (\<lambda>i. if 0 \<le> i \<and> i < uint (fb_width fb * fb_height fb) then BG_COLOR else pixels s i)\<rparr>)"

definition console_init :: "limine_framebuffer \<Rightarrow> console \<Rightarrow> console" where
  "console_init fb s =
     (let cols = to_int (fb_width fb div 16); rows = to_int (fb_height fb div 16)
      in kclear (s\<lparr>g_fb := Some fb, g_screen_cols := (if cols > int MAX_COLS then int MAX_COLS else cols), g_screen_rows := rows,
           history_buffer := replicate MAX_HISTORY (replicate MAX_COLS 0), g_cursor_x := 0, g_cursor_y := 0, g_view_offset := 0\<rparr>))"

definition console_scroll :: "int \<Rightarrow> console \<Rightarrow> console" where
  "console_scroll lines s =
     (let v = g_view_offset s + lines;
          v1 = (if v > g_cursor_y s then g_cursor_y s else v);
          v2 = (if v1 < 0 then 0 else v1)
      in console_refresh (s\<lparr>g_view_offset := v2\<rparr>))"

subsection \<open>Printing a character\<close>

definition check_history_scroll :: "console \<Rightarrow> console" where
  "check_history_scroll s =
     (if g_cursor_y s \<ge> int MAX_HISTORY
      then console_refresh (s\<lparr>history_buffer := tl (history_buffer s) @ [replicate MAX_COLS 0], g_cursor_y := int MAX_HISTORY - 1\<rparr>)
      else s)"

definition set_history :: "u8 \<Rightarrow> console \<Rightarrow> console" where
  "set_history c s =
     s\<lparr>history_buffer := (history_buffer s)[nat (g_cursor_y s) := (history_buffer s ! nat (g_cursor_y s))[nat (g_cursor_x s) := c]]\<rparr>"

text \<open>What follows when the cursor has moved to a new line.\<close>

definition next_line :: "console \<Rightarrow> console" where
  "next_line s =
     (let s1 = check_history_scroll (s\<lparr>g_cursor_x := 0, g_cursor_y := g_cursor_y s + 1\<rparr>)
      in if g_cursor_y s1 \<ge> g_screen_rows s1 then console_refresh s1 else s1)"

definition kprint_char :: "u8 \<Rightarrow> console \<Rightarrow> console" where
  "kprint_char c s =
     (if c = 10 then next_line (s\<lparr>g_view_offset := 0\<rparr>)
      else if c = 8
      then if g_cursor_x s > 0
           then
             let s1 = set_history 32 (s\<lparr>g_cursor_x := g_cursor_x s - 1\<rparr>)
             in if g_view_offset s1 = 0
                then draw_char_on_screen (g_cursor_x s1)
                  (if g_screen_rows s1 > 0 \<and> g_cursor_y s1 \<ge> g_screen_rows s1 then g_screen_rows s1 - 1 else g_cursor_y s1) 32 s1
                else s1
           else s
      else if c \<ge> 32 \<and> c \<le> 126
      then
        let s1 = (if g_cursor_y s \<ge> int MAX_HISTORY then s\<lparr>g_cursor_y := int MAX_HISTORY - 1\<rparr> else s);
            s2 = set_history c s1;
            s3 = (if g_view_offset s2 = 0
                  then draw_char_on_screen (g_cursor_x s2) (if g_cursor_y s2 \<ge> g_screen_rows s2 then g_screen_rows s2 - 1 else g_cursor_y s2) c s2
                  else s2);
            s4 = s3\<lparr>g_cursor_x := g_cursor_x s3 + 1\<rparr>
        in if g_cursor_x s4 \<ge> g_screen_cols s4 then next_line s4 else s4
      else s)"

subsection \<open>Printing values\<close>

partial_function (option) kprint :: "mem \<Rightarrow> u64 \<Rightarrow> console \<Rightarrow> console option" where
  "kprint m p s = (if m p = 0 then Some s else kprint m (p + 1) (kprint_char (m p) s))"

definition kprintln :: "mem \<Rightarrow> u64 \<Rightarrow> console \<Rightarrow> console option" where
  "kprintln m p s = map_option (kprint_char 10) (kprint m p s)"

text \<open>The local buffers of the next two are memories of their own that start at address 0.\<close>

definition kprint_int :: "int \<Rightarrow> console \<Rightarrow> console option" where
  "kprint_int val s = Option.bind (itoa (\<lambda>_. 0) val 0 10) (\<lambda>buf. kprint buf 0 s)"

definition kprint_uint64 :: "u64 \<Rightarrow> console \<Rightarrow> console option" where
  "kprint_uint64 val s = kprint (itoa_uint64 (\<lambda>_. 0) val 0 10) 0 s"

definition hex_digit :: "nat \<Rightarrow> u8" where
  "hex_digit d = (if d < 10 then of_nat (48 + d) else of_nat (55 + d))"

function hex_digits :: "u64 \<Rightarrow> u8 list" where
  "hex_digits n = (if n = 0 then [] else hex_digit (unat (n mod 16)) # hex_digits (n div 16))"
  by pat_completeness auto
termination
  by (relation "measure unat") (simp_all add: div_decreases)

declare hex_digits.simps [simp del]

definition kprint_hex :: "u64 \<Rightarrow> console \<Rightarrow> console" where
  "kprint_hex n s = (if n = 0 then kprint_char 48 s else fold kprint_char (rev (hex_digits n)) s)"

text \<open>
  \<^verbatim>\<open>kprintf\<close>: the arguments are a list; taking one of another type or one too many, undefined in C, is \<open>None\<close>.
\<close>

datatype va_arg = VA_int int | VA_u64 u64

fun next_int :: "va_arg list \<Rightarrow> (int \<times> va_arg list) option" where
  "next_int (VA_int v # as) = Some (v, as)"
| "next_int _ = None"

fun next_u64 :: "va_arg list \<Rightarrow> (u64 \<times> va_arg list) option" where
  "next_u64 (VA_u64 v # as) = Some (v, as)"
| "next_u64 _ = None"

definition kprint_str :: "mem \<Rightarrow> u64 \<Rightarrow> console \<Rightarrow> console option" where
  "kprint_str m q s = (if q = 0 then Some (fold kprint_char [40, 110, 117, 108, 108, 41] s) else kprint m q s)"

text \<open>One round of the loop: the rest of the format, the arguments left, and the console.\<close>

definition kprintf_step :: "mem \<Rightarrow> u64 \<Rightarrow> va_arg list \<Rightarrow> console \<Rightarrow> (u64 \<times> va_arg list \<times> console) option" where
  "kprintf_step m p args s =
     (if m p \<noteq> 37 then Some (p + 1, args, kprint_char (m p) s)
      else if m (p + 1) = 100 \<or> m (p + 1) = 105 \<or> m (p + 1) = 117
      then Option.bind (next_int args) (\<lambda>(v, as). map_option (\<lambda>s'. (p + 2, as, s')) (kprint_int v s))
      else if m (p + 1) = 99
      then map_option (\<lambda>(v, as). (p + 2, as, kprint_char (word_of_int v) s)) (next_int args)
      else if m (p + 1) = 115
      then Option.bind (next_u64 args) (\<lambda>(q, as). map_option (\<lambda>s'. (p + 2, as, s')) (kprint_str m q s))
      else if m (p + 1) = 120 \<or> m (p + 1) = 112
      then map_option (\<lambda>(v, as). (p + 2, as, kprint_hex v (if m (p + 1) = 112 then fold kprint_char [48, 120] s else s))) (next_u64 args)
      else if m (p + 1) = 108
      then if m (p + 2) = 117 \<or> m (p + 2) = 100
           then Option.bind (next_u64 args) (\<lambda>(v, as). map_option (\<lambda>s'. (p + 3, as, s')) (kprint_uint64 v s))
           else if m (p + 2) = 120 then map_option (\<lambda>(v, as). (p + 3, as, kprint_hex v s)) (next_u64 args)
           else Some (p + 3, args, s)
      else if m (p + 1) = 37 then Some (p + 2, args, kprint_char 37 s)
      else Some (p + 2, args, kprint_char (m (p + 1)) (kprint_char 37 s)))"

partial_function (option) kprintf :: "mem \<Rightarrow> u64 \<Rightarrow> va_arg list \<Rightarrow> console \<Rightarrow> console option" where
  "kprintf m p args s =
     (if m p = 0 then Some s
      else Option.bind (kprintf_step m p args s) (\<lambda>r. kprintf m (fst r) (fst (snd r)) (snd (snd r))))"

subsection \<open>Pixels\<close>

text \<open>The screen has at least one cell, all cells lie inside the frame buffer, and pixel offsets fit 32 bits.\<close>

definition con_geom :: "limine_framebuffer \<Rightarrow> console \<Rightarrow> bool" where
  "con_geom fb s \<longleftrightarrow> g_fb s = Some fb \<and> 0 < g_screen_rows s \<and> 0 < g_screen_cols s \<and> g_screen_cols s \<le> 128
     \<and> g_screen_cols s * 16 \<le> to_int (fb_width fb) \<and> g_screen_rows s * 16 \<le> to_int (fb_height fb)
     \<and> to_int (fb_width fb) \<le> pitch_pixels fb \<and> to_int (fb_height fb) * pitch_pixels fb \<le> 2 ^ 32"

definition px :: "limine_framebuffer \<Rightarrow> console \<Rightarrow> int \<Rightarrow> int \<Rightarrow> u32" where
  "px fb s X Y = pixels s (Y * pitch_pixels fb + X)"

lemma pixel_index:
  fixes P :: int
  assumes "0 \<le> X" "X < P" "0 \<le> X'" "X' < P"
  shows "Y * P + X = Y' * P + X' \<longleftrightarrow> X = X' \<and> Y = Y'"
proof
  assume e: "Y * P + X = Y' * P + X'"
  have "(Y * P + X) div P = Y" "(Y' * P + X') div P = Y'" using assms by (simp_all add: div_add1_eq)
  then show "X = X' \<and> Y = Y'" using e by simp
qed simp

lemma put_pixel:
  assumes g: "con_geom fb s" and x: "0 \<le> x" "2 * x + 1 < to_int (fb_width fb)" and y: "0 \<le> y" "2 * y + 1 < to_int (fb_height fb)"
  shows "put_pixel_scaled x y c s = s\<lparr>pixels := pixels (put_pixel_scaled x y c s)\<rparr>"
    and "0 \<le> X \<Longrightarrow> X < pitch_pixels fb \<Longrightarrow> px fb (put_pixel_scaled x y c s) X Y = (if X div 2 = x \<and> Y div 2 = y then c else px fb s X Y)"
proof -
  let ?P = "pitch_pixels fb"
  have fb: "g_fb s = Some fb" and W: "to_int (fb_width fb) \<le> ?P" and HP: "to_int (fb_height fb) * ?P \<le> 2 ^ 32" using g by (simp_all add: con_geom_def)
  have P: "2 * x + 1 < ?P" using x W by simp
  have m: "(Y' * ?P) mod 2 ^ 32 = Y' * ?P" if "0 \<le> Y'" "Y' < to_int (fb_height fb)" for Y'
  proof -
    have "Y' * ?P < to_int (fb_height fb) * ?P" using that(2) P x(1) by (intro mult_strict_right_mono) simp_all
    then have "Y' * ?P < 2 ^ 32" using HP by (rule less_le_trans)
    then show ?thesis using that(1) P x(1) by (intro mod_pos_pos_trivial) simp_all
  qed
  have e: "put_pixel_scaled x y c s = s\<lparr>pixels := (pixels s)(2 * y * ?P + 2 * x := c, 2 * y * ?P + (2 * x + 1) := c,
      (2 * y + 1) * ?P + 2 * x := c, (2 * y + 1) * ?P + (2 * x + 1) := c)\<rparr>"
    using m [of "2 * y"] m [of "2 * y + 1"] x y by (simp add: put_pixel_scaled_def fb Let_def ac_simps)
  show "put_pixel_scaled x y c s = s\<lparr>pixels := pixels (put_pixel_scaled x y c s)\<rparr>" unfolding e by simp
  assume X: "0 \<le> X" "X < ?P"
  have i: "Y * ?P + X = Y' * ?P + X' \<longleftrightarrow> X = X' \<and> Y = Y'" if "X' = 2 * x \<or> X' = 2 * x + 1" for X' Y'
    using that x P by (intro pixel_index) (use X in auto)
  have "px fb (put_pixel_scaled x y c s) X Y = (if (X = 2 * x \<or> X = 2 * x + 1) \<and> (Y = 2 * y \<or> Y = 2 * y + 1) then c else px fb s X Y)"
    unfolding e px_def by (auto simp: i)
  moreover have "X div 2 = x \<longleftrightarrow> X = 2 * x \<or> X = 2 * x + 1" "Y div 2 = y \<longleftrightarrow> Y = 2 * y \<or> Y = 2 * y + 1" by presburger+
  ultimately show "px fb (put_pixel_scaled x y c s) X Y = (if X div 2 = x \<and> Y div 2 = y then c else px fb s X Y)" by simp
qed

lemma con_geom_pixels [simp]: "con_geom fb (s\<lparr>pixels := f\<rparr>) = con_geom fb s"
  by (simp add: con_geom_def)

text \<open>One row of a glyph, then the whole glyph.\<close>

lemma draw_row:
  fixes col :: "nat \<Rightarrow> u32"
  assumes g: "con_geom fb s" and x: "0 \<le> x0" "2 * (x0 + int n) \<le> to_int (fb_width fb)" and y: "0 \<le> y" "2 * y + 1 < to_int (fb_height fb)"
  defines "t \<equiv> fold (\<lambda>x. put_pixel_scaled (x0 + int x) y (col x)) [0..<n] s"
  shows "t = s\<lparr>pixels := pixels t\<rparr> \<and> (\<forall>X Y. 0 \<le> X \<longrightarrow> X < pitch_pixels fb \<longrightarrow>
    px fb t X Y = (if Y div 2 = y \<and> x0 \<le> X div 2 \<and> X div 2 < x0 + int n then col (nat (X div 2 - x0)) else px fb s X Y))"
  using x(2) unfolding t_def
proof (induction n)
  case 0
  then show ?case by auto
next
  case (Suc n)
  define u where "u = fold (\<lambda>x. put_pixel_scaled (x0 + int x) y (col x)) [0..<n] s"
  have IH: "u = s\<lparr>pixels := pixels u\<rparr>" "\<And>X Y. 0 \<le> X \<Longrightarrow> X < pitch_pixels fb \<Longrightarrow>
    px fb u X Y = (if Y div 2 = y \<and> x0 \<le> X div 2 \<and> X div 2 < x0 + int n then col (nat (X div 2 - x0)) else px fb s X Y)"
    using Suc by (simp_all add: u_def)
  have gu: "con_geom fb u" using g by (subst IH(1)) simp
  have w: "0 \<le> x0 + int n" "2 * (x0 + int n) + 1 < to_int (fb_width fb)" using Suc.prems x(1) by simp_all
  note p = put_pixel [OF gu w y, where c = "col n"]
  have e: "fold (\<lambda>x. put_pixel_scaled (x0 + int x) y (col x)) [0..<Suc n] s = put_pixel_scaled (x0 + int n) y (col n) u" by (simp add: u_def)
  have "put_pixel_scaled (x0 + int n) y (col n) u = s\<lparr>pixels := pixels (put_pixel_scaled (x0 + int n) y (col n) u)\<rparr>"
    by (subst p(1), subst IH(1)) simp
  then show ?case unfolding e using p(2) IH(2) by auto
qed

definition glyph :: "u8 \<Rightarrow> int \<Rightarrow> int \<Rightarrow> u32" where
  "glyph c x y = (if bit (font8x8_basic ! unat c ! nat y) (nat x) then FG_COLOR else BG_COLOR)"

lemma draw_rows:
  fixes bmp :: "u8 list"
  assumes g: "con_geom fb s" and x: "0 \<le> x0" "2 * (x0 + 8) \<le> to_int (fb_width fb)" and y: "0 \<le> y0" "2 * (y0 + int n) \<le> to_int (fb_height fb)"
  defines "t \<equiv> fold (\<lambda>y. fold (\<lambda>x. put_pixel_scaled (x0 + int x) (y0 + int y) (if bit (bmp ! y) x then FG_COLOR else BG_COLOR)) [0..<8]) [0..<n] s"
  shows "t = s\<lparr>pixels := pixels t\<rparr> \<and> (\<forall>X Y. 0 \<le> X \<longrightarrow> X < pitch_pixels fb \<longrightarrow>
    px fb t X Y = (if y0 \<le> Y div 2 \<and> Y div 2 < y0 + int n \<and> x0 \<le> X div 2 \<and> X div 2 < x0 + 8
      then if bit (bmp ! nat (Y div 2 - y0)) (nat (X div 2 - x0)) then FG_COLOR else BG_COLOR else px fb s X Y))"
  using y(2) unfolding t_def
proof (induction n)
  case 0
  then show ?case by auto
next
  case (Suc n)
  let ?row = "\<lambda>y. fold (\<lambda>x. put_pixel_scaled (x0 + int x) (y0 + int y) (if bit (bmp ! y) x then FG_COLOR else BG_COLOR)) [0..<8]"
  define u where "u = fold ?row [0..<n] s"
  have IH: "u = s\<lparr>pixels := pixels u\<rparr>" "\<And>X Y. 0 \<le> X \<Longrightarrow> X < pitch_pixels fb \<Longrightarrow>
    px fb u X Y = (if y0 \<le> Y div 2 \<and> Y div 2 < y0 + int n \<and> x0 \<le> X div 2 \<and> X div 2 < x0 + 8
      then if bit (bmp ! nat (Y div 2 - y0)) (nat (X div 2 - x0)) then FG_COLOR else BG_COLOR else px fb s X Y)"
    using Suc unfolding u_def by simp_all
  have gu: "con_geom fb u" using g by (subst IH(1)) simp
  have w: "2 * (x0 + int 8) \<le> to_int (fb_width fb)" "0 \<le> y0 + int n" "2 * (y0 + int n) + 1 < to_int (fb_height fb)" using Suc.prems x y(1) by simp_all
  note r = draw_row [OF gu x(1) w, where col = "\<lambda>x. if bit (bmp ! n) x then FG_COLOR else BG_COLOR"]
  have e: "fold ?row [0..<Suc n] s = ?row n u" unfolding u_def by simp
  have "?row n u = s\<lparr>pixels := pixels (?row n u)\<rparr>" by (subst r [THEN conjunct1], subst IH(1)) simp
  moreover have "px fb (?row n u) X Y = (if y0 \<le> Y div 2 \<and> Y div 2 < y0 + int (Suc n) \<and> x0 \<le> X div 2 \<and> X div 2 < x0 + 8
      then if bit (bmp ! nat (Y div 2 - y0)) (nat (X div 2 - x0)) then FG_COLOR else BG_COLOR else px fb s X Y)"
    if X: "0 \<le> X" "X < pitch_pixels fb" for X Y
  proof (cases "Y div 2 = y0 + int n")
    case True
    then show ?thesis using r [THEN conjunct2, rule_format, OF X, of Y] IH(2) [OF X, of Y] by simp
  next
    case False
    then show ?thesis using r [THEN conjunct2, rule_format, OF X, of Y] IH(2) [OF X, of Y] by simp
  qed
  ultimately show ?case unfolding e by blast
qed


lemma div8_iff: "r * 8 \<le> q \<and> q < r * 8 + 8 \<longleftrightarrow> q div 8 = (r :: int)"
proof -
  have "q = 8 * (q div 8) + q mod 8" "0 \<le> q mod 8" "q mod 8 < 8" by simp_all
  then show ?thesis by linarith
qed

lemma cell_index:
  fixes k r :: int
  shows "r * 8 \<le> k div 2 \<and> k div 2 < r * 8 + 8 \<longleftrightarrow> k div 16 = r" and "k div 16 = r \<Longrightarrow> k div 2 - r * 8 = k mod 16 div 2"
proof -
  have "k div 16 = k div 2 div 8" using zdiv_zmult2_eq [of 8 k 2] by simp
  then show "r * 8 \<le> k div 2 \<and> k div 2 < r * 8 + 8 \<longleftrightarrow> k div 16 = r" using div8_iff by metis
  assume r: "k div 16 = r"
  have "k mod 16 div 2 = (k - 16 * (k div 16)) div 2" by (simp add: minus_mult_div_eq_mod [symmetric])
  also have "\<dots> = (k + (- 8 * r) * 2) div 2" by (simp add: r)
  also have "\<dots> = k div 2 - r * 8" by (subst div_mult_self1) simp_all
  finally show "k div 2 - r * 8 = k mod 16 div 2" by simp
qed

lemma draw_char:
  assumes g: "con_geom fb s" and col: "0 \<le> col" "col < g_screen_cols s" and row: "0 \<le> row" "row < g_screen_rows s" and c: "c \<le> 127"
  shows "draw_char_on_screen col row c s = s\<lparr>pixels := pixels (draw_char_on_screen col row c s)\<rparr>"
    and "0 \<le> X \<Longrightarrow> X < pitch_pixels fb \<Longrightarrow> px fb (draw_char_on_screen col row c s) X Y =
      (if X div 16 = col \<and> Y div 16 = row then glyph c (X mod 16 div 2) (Y mod 16 div 2) else px fb s X Y)"
proof -
  have w: "0 \<le> col * 8" "2 * (col * 8 + 8) \<le> to_int (fb_width fb)" "0 \<le> row * 8" "2 * (row * 8 + int 8) \<le> to_int (fb_height fb)"
    using g col row by (simp_all add: con_geom_def)
  note d = draw_rows [OF g w, where bmp = "font8x8_basic ! unat c"]
  have e: "draw_char_on_screen col row c s = fold (\<lambda>y. fold (\<lambda>x. put_pixel_scaled (col * 8 + int x) (row * 8 + int y)
      (if bit (font8x8_basic ! unat c ! y) x then FG_COLOR else BG_COLOR)) [0..<8]) [0..<8] s"
    using c by (simp add: draw_char_on_screen_def Let_def not_less)
  show "draw_char_on_screen col row c s = s\<lparr>pixels := pixels (draw_char_on_screen col row c s)\<rparr>" unfolding e by (rule d [THEN conjunct1])
  assume X: "0 \<le> X" "X < pitch_pixels fb"
  have i: "(row * 8 \<le> Y div 2 \<and> Y div 2 < row * 8 + int 8 \<and> col * 8 \<le> X div 2 \<and> X div 2 < col * 8 + 8) \<longleftrightarrow> X div 16 = col \<and> Y div 16 = row"
    using cell_index(1) [of row Y] cell_index(1) [of col X] by auto
  have n: "Y div 2 - row * 8 = Y mod 16 div 2" "X div 2 - col * 8 = X mod 16 div 2" if "X div 16 = col" "Y div 16 = row"
    using cell_index(2) that by blast+
  show "px fb (draw_char_on_screen col row c s) X Y =
      (if X div 16 = col \<and> Y div 16 = row then glyph c (X mod 16 div 2) (Y mod 16 div 2) else px fb s X Y)"
    unfolding e d [THEN conjunct2, rule_format, OF X] i using n by (simp add: glyph_def)
qed

text \<open>A cell of the screen shows a character.\<close>

definition shown :: "limine_framebuffer \<Rightarrow> console \<Rightarrow> int \<Rightarrow> int \<Rightarrow> u8 \<Rightarrow> bool" where
  "shown fb s i j c \<longleftrightarrow> (\<forall>X Y. X div 16 = j \<longrightarrow> Y div 16 = i \<longrightarrow> px fb s X Y = glyph c (X mod 16 div 2) (Y mod 16 div 2))"

lemma cell_pixel:
  assumes "con_geom fb s" "0 \<le> j" "j < g_screen_cols s" "X div 16 = j"
  shows "0 \<le> X" "X < pitch_pixels fb"
proof -
  have "X = 16 * (X div 16) + X mod 16" "0 \<le> X mod 16" "X mod 16 < 16" by simp_all
  then have b: "16 * j \<le> X" "X < 16 * j + 16" using assms(4) by linarith+
  show "0 \<le> X" using b(1) assms(2) by linarith
  have "16 * j + 16 \<le> g_screen_cols s * 16" using assms(3) by linarith
  then show "X < pitch_pixels fb" using b(2) assms(1) by (simp add: con_geom_def)
qed

lemma shown_draw:
  assumes g: "con_geom fb s" and col: "0 \<le> col" "col < g_screen_cols s" and row: "0 \<le> row" "row < g_screen_rows s" and c: "c \<le> 127"
  shows "shown fb (draw_char_on_screen col row c s) row col c"
    and "0 \<le> j \<Longrightarrow> j < g_screen_cols s \<Longrightarrow> i \<noteq> row \<or> j \<noteq> col \<Longrightarrow> shown fb (draw_char_on_screen col row c s) i j d = shown fb s i j d"
proof -
  note p = draw_char(2) [OF g col row c]
  show "shown fb (draw_char_on_screen col row c s) row col c"
    unfolding shown_def using p cell_pixel [OF g col] by auto
  assume j: "0 \<le> j" "j < g_screen_cols s" "i \<noteq> row \<or> j \<noteq> col"
  have "px fb (draw_char_on_screen col row c s) X Y = px fb s X Y" if "X div 16 = j" "Y div 16 = i" for X Y
    using p [OF cell_pixel [OF g j(1,2) that(1)]] that j(3) by auto
  then show "shown fb (draw_char_on_screen col row c s) i j d = shown fb s i j d" unfolding shown_def by simp
qed

lemma draw_line:
  fixes F :: "nat \<Rightarrow> console \<Rightarrow> u8"
  assumes g: "con_geom fb s" and row: "0 \<le> row" "row < g_screen_rows s" and F: "\<And>j p. F j (s\<lparr>pixels := p\<rparr>) = f j"
    and n: "int n \<le> g_screen_cols s" "\<And>j. j < n \<Longrightarrow> f j \<le> 127"
  defines "t \<equiv> fold (\<lambda>j u. draw_char_on_screen (int j) row (F j u) u) [0..<n] s"
  shows "t = s\<lparr>pixels := pixels t\<rparr> \<and> (\<forall>j < n. shown fb t row (int j) (f j))
    \<and> (\<forall>i j d. 0 \<le> j \<longrightarrow> j < g_screen_cols s \<longrightarrow> i \<noteq> row \<or> int n \<le> j \<longrightarrow> shown fb t i j d = shown fb s i j d)"
  using n unfolding t_def
proof (induction n)
  case (Suc n)
  define u where "u = fold (\<lambda>j u. draw_char_on_screen (int j) row (F j u) u) [0..<n] s"
  have IH: "u = s\<lparr>pixels := pixels u\<rparr>" "\<And>j. j < n \<Longrightarrow> shown fb u row (int j) (f j)"
    "\<And>i j d. 0 \<le> j \<Longrightarrow> j < g_screen_cols s \<Longrightarrow> i \<noteq> row \<or> int n \<le> j \<Longrightarrow> shown fb u i j d = shown fb s i j d"
    using Suc by (simp_all add: u_def)
  have gu: "con_geom fb u" "g_screen_cols u = g_screen_cols s" "g_screen_rows u = g_screen_rows s" using g by (subst IH(1), simp)+
  have Fu: "F n u = f n" by (subst IH(1)) (rule F)
  have b: "0 \<le> int n" "int n < g_screen_cols u" "row < g_screen_rows u" "f n \<le> 127" using Suc.prems row gu by simp_all
  let ?t = "draw_char_on_screen (int n) row (f n) u"
  note sd = shown_draw [OF gu(1) b(1,2) row(1) b(3,4)]
  have e: "fold (\<lambda>j u. draw_char_on_screen (int j) row (F j u) u) [0..<Suc n] s = ?t" by (simp add: u_def [symmetric] Fu)
  have "?t = s\<lparr>pixels := pixels ?t\<rparr>" by (subst draw_char(1) [OF gu(1) b(1,2) row(1) b(3,4)], subst IH(1)) simp
  moreover have "shown fb ?t row (int j) (f j)" if "j < Suc n" for j
    using that sd(1) sd(2) [of "int j" row] IH(2) [of j] b(2) by (cases "j = n") simp_all
  moreover have "shown fb ?t i j d = shown fb s i j d" if "0 \<le> j" "j < g_screen_cols s" "i \<noteq> row \<or> int (Suc n) \<le> j" for i j d
    using sd(2) [of j i d] IH(3) [of j i d] that gu(2) by auto
  ultimately show ?case unfolding e by blast
qed simp


subsection \<open>The screen shows the history\<close>

text \<open>The character that belongs to a cell of the screen.\<close>

definition top_row :: "console \<Rightarrow> int" where
  "top_row s = (let t = g_cursor_y s - (g_screen_rows s - 1) - g_view_offset s in if t < 0 then 0 else t)"

definition screen_text :: "console \<Rightarrow> int \<Rightarrow> nat \<Rightarrow> u8" where
  "screen_text s i j =
     (let r = top_row s + i in if r > g_cursor_y s \<or> r \<ge> int MAX_HISTORY then 32 else history_char s r j)"

definition shows_text :: "limine_framebuffer \<Rightarrow> console \<Rightarrow> bool" where
  "shows_text fb s \<longleftrightarrow> (\<forall>i j. 0 \<le> i \<longrightarrow> i < g_screen_rows s \<longrightarrow> int j < g_screen_cols s \<longrightarrow> shown fb s i (int j) (screen_text s i j))"

text \<open>The history has its size and printable characters, the cursor is inside it, and nothing is written below the cursor.\<close>

definition con_inv :: "console \<Rightarrow> bool" where
  "con_inv s \<longleftrightarrow> length (history_buffer s) = 1000
     \<and> (\<forall>r < 1000. length (history_buffer s ! r) = 128 \<and> (\<forall>j < 128. history_buffer s ! r ! j = 0 \<or> 32 \<le> history_buffer s ! r ! j \<and> history_buffer s ! r ! j \<le> 126))
     \<and> 0 \<le> g_cursor_y s \<and> g_cursor_y s < 1000 \<and> 0 \<le> g_cursor_x s \<and> g_cursor_x s < g_screen_cols s \<and> 0 \<le> g_view_offset s
     \<and> (\<forall>r < 1000. g_cursor_y s < int r \<longrightarrow> history_buffer s ! r = replicate 128 0)"

lemma con_views [simp]:
  "top_row (s\<lparr>pixels := p\<rparr>) = top_row s" "history_char (s\<lparr>pixels := p\<rparr>) r j = history_char s r j"
  "screen_text (s\<lparr>pixels := p\<rparr>) i j = screen_text s i j" "con_inv (s\<lparr>pixels := p\<rparr>) = con_inv s"
  by (simp_all add: top_row_def history_char_def screen_text_def con_inv_def)

lemma screen_text_printable:
  assumes "con_inv s" "0 \<le> i" "j < 128"
  shows "screen_text s i j \<le> 127"
proof (cases "top_row s + i > g_cursor_y s \<or> top_row s + i \<ge> 1000")
  case True
  then show ?thesis by (auto simp: screen_text_def Let_def)
next
  case False
  define r where "r = nat (top_row s + i)"
  have "0 \<le> top_row s" by (simp add: top_row_def Let_def)
  then have "r < 1000" using False assms(2) by (simp add: r_def nat_less_iff)
  then have "history_buffer s ! r ! j = 0 \<or> history_buffer s ! r ! j \<le> 126" using assms(1,3) unfolding con_inv_def by blast
  then have "history_buffer s ! r ! j = 0 \<or> history_buffer s ! r ! j \<le> 127" by (auto simp: word_le_nat_alt)
  then show ?thesis using False by (auto simp: screen_text_def history_char_def Let_def r_def)
qed

lemma refresh_rows:
  fixes L :: "nat \<Rightarrow> console \<Rightarrow> console" and f :: "nat \<Rightarrow> nat \<Rightarrow> u8"
  assumes g: "con_geom fb s" and n: "int n \<le> g_screen_rows s"
    and L: "\<And>i u. i < n \<Longrightarrow> u = s\<lparr>pixels := pixels u\<rparr> \<Longrightarrow> L i u = u\<lparr>pixels := pixels (L i u)\<rparr>
      \<and> (\<forall>j. int j < g_screen_cols s \<longrightarrow> shown fb (L i u) (int i) (int j) (f i j))
      \<and> (\<forall>k j d. 0 \<le> j \<longrightarrow> j < g_screen_cols s \<longrightarrow> k \<noteq> int i \<longrightarrow> shown fb (L i u) k j d = shown fb u k j d)"
  defines "t \<equiv> fold L [0..<n] s"
  shows "t = s\<lparr>pixels := pixels t\<rparr> \<and> (\<forall>i < n. \<forall>j. int j < g_screen_cols s \<longrightarrow> shown fb t (int i) (int j) (f i j))"
  using n L unfolding t_def
proof (induction n)
  case (Suc n)
  define u where "u = fold L [0..<n] s"
  have IH: "u = s\<lparr>pixels := pixels u\<rparr>" "\<And>i j. i < n \<Longrightarrow> int j < g_screen_cols s \<Longrightarrow> shown fb u (int i) (int j) (f i j)"
    using Suc.IH Suc.prems by (simp_all add: u_def)
  note l = Suc.prems(2) [OF lessI IH(1)]
  have e: "fold L [0..<Suc n] s = L n u" by (simp add: u_def)
  have "L n u = s\<lparr>pixels := pixels (L n u)\<rparr>" by (subst l [THEN conjunct1], subst IH(1)) simp
  moreover have "shown fb (L n u) (int i) (int j) (f i j)" if "i < Suc n" "int j < g_screen_cols s" for i j
  proof (cases "i = n")
    case False
    then show ?thesis using IH(2) [of i j] that l by auto
  qed (use l that in auto)
  ultimately show ?case unfolding e by blast
qed simp

lemma refresh_ok:
  assumes g: "con_geom fb s" and inv: "con_inv s"
  shows "console_refresh s = s\<lparr>pixels := pixels (console_refresh s)\<rparr>" and "shows_text fb (console_refresh s)"
proof -
  define L where "L = (\<lambda>i u. let buf_row = top_row s + int i
               in if buf_row > g_cursor_y u \<or> buf_row \<ge> int MAX_HISTORY
                  then fold (\<lambda>j. draw_char_on_screen (int j) (int i) 32) [0..<nat (g_screen_cols u)] u
                  else fold (\<lambda>j v. draw_char_on_screen (int j) (int i) (history_char v buf_row j) v) [0..<nat (g_screen_cols u)] u)"
  have e: "console_refresh s = fold L [0..<nat (g_screen_rows s)] s"
    using g by (simp add: console_refresh_def con_geom_def L_def top_row_def Let_def)
  have cols: "int (nat (g_screen_cols s)) = g_screen_cols s" "g_screen_cols s \<le> 128" using g by (simp_all add: con_geom_def)
  have L: "L i u = u\<lparr>pixels := pixels (L i u)\<rparr>
      \<and> (\<forall>j. int j < g_screen_cols s \<longrightarrow> shown fb (L i u) (int i) (int j) (screen_text s (int i) j))
      \<and> (\<forall>k j d. 0 \<le> j \<longrightarrow> j < g_screen_cols s \<longrightarrow> k \<noteq> int i \<longrightarrow> shown fb (L i u) k j d = shown fb u k j d)"
    if i: "i < nat (g_screen_rows s)" and u: "u = s\<lparr>pixels := pixels u\<rparr>" for i u
  proof -
    have gu: "con_geom fb u" "g_screen_cols u = g_screen_cols s" "g_screen_rows u = g_screen_rows s" "g_cursor_y u = g_cursor_y s"
      using g by (subst u, simp)+
    have row: "0 \<le> int i" "int i < g_screen_rows u" using i gu by auto
    have le: "screen_text s (int i) j \<le> 127" if "j < nat (g_screen_cols s)" for j
      using screen_text_printable [OF inv, of "int i" j] that cols by simp
    have ut: "u\<lparr>pixels := p\<rparr> = s\<lparr>pixels := p\<rparr>" for p by (subst u) simp
    define F where "F = (\<lambda>j v. if top_row s + int i > g_cursor_y s \<or> top_row s + int i \<ge> 1000 then 32 else history_char v (top_row s + int i) j)"
    have F: "F j (u\<lparr>pixels := p\<rparr>) = screen_text s (int i) j" for j p unfolding ut by (simp add: F_def screen_text_def Let_def)
    have "L i u = fold (\<lambda>j v. draw_char_on_screen (int j) (int i) (F j v) v) [0..<nat (g_screen_cols s)] u"
      by (simp add: L_def F_def gu Let_def)
    then show ?thesis
      using draw_line [OF gu(1) row, where F = F and f = "screen_text s (int i)" and n = "nat (g_screen_cols s)", OF F _ le] cols gu(2)
      by (auto simp: zless_nat_eq_int_zless)
  qed
  have n: "int (nat (g_screen_rows s)) \<le> g_screen_rows s" using g by (simp add: con_geom_def)
  note r = refresh_rows [OF g n, of L "\<lambda>i j. screen_text s (int i) j", OF L]
  show eq: "console_refresh s = s\<lparr>pixels := pixels (console_refresh s)\<rparr>" unfolding e using r by blast
  have sh: "shown fb (console_refresh s) (int i) (int j) (screen_text s (int i) j)" if "i < nat (g_screen_rows s)" "int j < g_screen_cols s" for i j
    unfolding e using r that by blast
  have d: "g_screen_rows (console_refresh s) = g_screen_rows s" "g_screen_cols (console_refresh s) = g_screen_cols s"
    "screen_text (console_refresh s) i j = screen_text s i j" for i j by (subst eq, simp)+
  show "shows_text fb (console_refresh s)" unfolding shows_text_def d
  proof (intro allI impI)
    fix i j assume "0 \<le> i" "i < g_screen_rows s" "int j < g_screen_cols s"
    then show "shown fb (console_refresh s) i (int j) (screen_text s i j)" using sh [of "nat i" j] by simp
  qed
qed


lemma set_history_con:
  assumes inv: "con_inv s" and c: "32 \<le> c" "c \<le> 126" and cols: "g_screen_cols s \<le> 128"
  shows "con_inv (set_history c s)"
    and "0 \<le> r \<Longrightarrow> history_char (set_history c s) r j = (if r = g_cursor_y s \<and> int j = g_cursor_x s then c else history_char s r j)"
proof -
  define y where "y = nat (g_cursor_y s)"
  define k where "k = nat (g_cursor_x s)"
  let ?h = "history_buffer s"
  have y: "y < 1000" "int y = g_cursor_y s" and k: "k < 128" "int k = g_cursor_x s" and len: "length ?h = 1000" "\<And>r. r < 1000 \<Longrightarrow> length (?h ! r) = 128"
    using inv cols by (auto simp: con_inv_def y_def k_def)
  have h: "history_buffer (set_history c s) = ?h[y := (?h ! y)[k := c]]" by (simp add: set_history_def y_def k_def)
  have at: "?h[y := (?h ! y)[k := c]] ! r ! j = (if r = y \<and> j = k then c else ?h ! r ! j)" for r j
    using y(1) k(1) len by (cases "r = y"; cases "j = k") simp_all
  have rows: "length (?h[y := (?h ! y)[k := c]] ! r) = length (?h ! r)" for r using y(1) len(1) by (cases "r = y") simp_all
  have "?h[y := (?h ! y)[k := c]] ! r = replicate 128 0" if "r < 1000" "g_cursor_y s < int r" for r
    using inv that y(2) by (simp add: con_inv_def)
  then show "con_inv (set_history c s)"
    using inv c len unfolding con_inv_def h at rows by (simp add: set_history_def)
  assume "0 \<le> r"
  then have "nat r = y \<longleftrightarrow> r = g_cursor_y s" "j = k \<longleftrightarrow> int j = g_cursor_x s" using y(2) k(2) by auto
  moreover have "c \<noteq> 0" using c(1) by auto
  ultimately show "history_char (set_history c s) r j = (if r = g_cursor_y s \<and> int j = g_cursor_x s then c else history_char s r j)"
    by (simp add: history_char_def h at Let_def)
qed

lemma set_history_fields [simp]:
  "g_cursor_x (set_history c s) = g_cursor_x s" "g_cursor_y (set_history c s) = g_cursor_y s" "g_view_offset (set_history c s) = g_view_offset s"
  "g_screen_rows (set_history c s) = g_screen_rows s" "g_screen_cols (set_history c s) = g_screen_cols s" "pixels (set_history c s) = pixels s"
  "con_geom fb (set_history c s) = con_geom fb s" "top_row (set_history c s) = top_row s"
  by (simp_all add: set_history_def con_geom_def top_row_def)

definition console_ok :: "limine_framebuffer \<Rightarrow> console \<Rightarrow> bool" where
  "console_ok fb s \<longleftrightarrow> con_geom fb s \<and> con_inv s \<and> shows_text fb s"

text \<open>Storing a character at the cursor and drawing it where the cursor is on the screen.\<close>

lemma put_char_ok:
  assumes g: "con_geom fb s" and inv: "con_inv s" and off: "g_view_offset s = 0" and c: "32 \<le> c" "c \<le> 126"
    and sh: "shows_text fb s"
  defines "row \<equiv> if g_cursor_y s \<ge> g_screen_rows s then g_screen_rows s - 1 else g_cursor_y s"
  defines "t \<equiv> draw_char_on_screen (g_cursor_x s) row c (set_history c s)"
  shows "t = (set_history c s)\<lparr>pixels := pixels t\<rparr>" and "con_inv t" and "shows_text fb t"
proof -
  define u where "u = set_history c s"
  have cols: "g_screen_cols s \<le> 128" "0 < g_screen_rows s" using g by (simp_all add: con_geom_def)
  have cur: "0 \<le> g_cursor_x s" "g_cursor_x s < g_screen_cols s" "0 \<le> g_cursor_y s" using inv by (simp_all add: con_inv_def)
  have gu: "con_geom fb u" using g by (simp add: u_def)
  have row: "0 \<le> row" "row < g_screen_rows s" "row = g_cursor_y s - top_row s" using cols(2) cur off by (auto simp: row_def top_row_def)
  have c127: "c \<le> 127" using c(2) by (simp add: word_le_nat_alt)
  note d = draw_char(1) [OF gu, of "g_cursor_x s" row c] and sd = shown_draw [OF gu, of "g_cursor_x s" row c]
  show e: "t = (set_history c s)\<lparr>pixels := pixels t\<rparr>" unfolding t_def u_def [symmetric] using d cur row c127 by (simp add: u_def)
  note hc = set_history_con [OF inv c cols(1)]
  show "con_inv t" by (subst e) (simp add: hc)
  have tx: "screen_text t i j = (if i = row \<and> int j = g_cursor_x s then c else screen_text s i j)" if "0 \<le> i" for i j
  proof -
    have nn: "0 \<le> top_row s + i" using that by (simp add: top_row_def Let_def)
    have cy: "g_cursor_y s < 1000" using inv by (simp add: con_inv_def)
    have "screen_text t i j = screen_text u i j" unfolding u_def by (subst e) simp
    also have "\<dots> = (if i = row \<and> int j = g_cursor_x s then c else screen_text s i j)"
      using hc(2) [OF nn, of j] row(3) cy by (auto simp: screen_text_def u_def Let_def)
    finally show ?thesis .
  qed
  have dims: "g_screen_rows t = g_screen_rows s" "g_screen_cols t = g_screen_cols s" by (subst e, simp)+
  show "shows_text fb t" unfolding shows_text_def dims
  proof (intro allI impI)
    fix i j assume i: "0 \<le> i" "i < g_screen_rows s" and j: "int j < g_screen_cols s"
    have su: "shown fb u i (int j) (screen_text s i j)" using sh i j by (simp add: shows_text_def shown_def px_def u_def)
    show "shown fb t i (int j) (screen_text t i j)"
    proof (cases "i = row \<and> int j = g_cursor_x s")
      case True
      then show ?thesis using sd(1) cur row c127 tx [OF i(1), of j] by (simp add: t_def u_def)
    next
      case False
      then show ?thesis using sd(2) [of "int j" i] su cur row c127 j tx [OF i(1), of j] by (auto simp: t_def u_def)
    qed
  qed
qed


lemma refresh_console_ok:
  assumes "con_geom fb s" "con_inv s"
  shows "console_ok fb (console_refresh s)" "g_view_offset (console_refresh s) = g_view_offset s"
    "g_cursor_y (console_refresh s) = g_cursor_y s" "g_screen_rows (console_refresh s) = g_screen_rows s"
proof -
  note r = refresh_ok [OF assms]
  have "con_geom fb (console_refresh s)" "con_inv (console_refresh s)" using assms by (subst r(1), simp)+
  then show "console_ok fb (console_refresh s)" using r(2) by (simp add: console_ok_def)
  show "g_view_offset (console_refresh s) = g_view_offset s" "g_cursor_y (console_refresh s) = g_cursor_y s"
    "g_screen_rows (console_refresh s) = g_screen_rows s" by (subst r(1), simp)+
qed

lemma next_line_ok:
  assumes g: "con_geom fb s" and inv: "con_inv (s\<lparr>g_cursor_x := 0\<rparr>)" and sh: "shows_text fb s" and off: "g_view_offset s = 0"
  shows "console_ok fb (next_line s)" "g_view_offset (next_line s) = 0"
proof -
  let ?y = "g_cursor_y s"
  define s0 where "s0 = s\<lparr>g_cursor_x := 0, g_cursor_y := ?y + 1\<rparr>"
  have g0: "con_geom fb s0" using g by (simp add: s0_def con_geom_def)
  have y: "0 \<le> ?y" "?y < 1000" using inv by (simp_all add: con_inv_def)
  consider (full) "?y = 999" | (scroll) "?y < 999" "?y + 1 \<ge> g_screen_rows s" | (free) "?y < 999" "?y + 1 < g_screen_rows s" using y by linarith
  then have "console_ok fb (next_line s) \<and> g_view_offset (next_line s) = 0"
  proof cases
    case full
    define s1 where "s1 = s0\<lparr>history_buffer := tl (history_buffer s) @ [replicate 128 0], g_cursor_y := 999\<rparr>"
    have h: "length (history_buffer s) = 1000" using inv by (simp add: con_inv_def)
    have at: "(tl (history_buffer s) @ [replicate 128 0]) ! r = (if r = 999 then replicate 128 0 else history_buffer s ! Suc r)" if "r < 1000" for r
      using that h by (simp add: nth_append nth_tl)
    have "con_inv s1" using inv unfolding con_inv_def by (auto simp: s1_def s0_def at)
    moreover have "con_geom fb s1" using g0 by (simp add: s1_def con_geom_def)
    ultimately have c: "console_ok fb (console_refresh s1)" "g_view_offset (console_refresh s1) = 0"
      using refresh_console_ok [of fb s1] off by (simp_all add: s1_def s0_def)
    have "check_history_scroll s0 = console_refresh s1" using full by (simp add: check_history_scroll_def s1_def s0_def)
    then show ?thesis using c refresh_console_ok [of fb "console_refresh s1"]
      unfolding next_line_def s0_def [symmetric] Let_def by (auto simp: console_ok_def)
  next
    case scroll
    have i0: "con_inv s0" using inv scroll y unfolding con_inv_def by (simp add: s0_def)
    have "next_line s = console_refresh s0" using scroll by (simp add: next_line_def check_history_scroll_def s0_def)
    then show ?thesis using refresh_console_ok [OF g0 i0] off by (simp add: s0_def)
  next
    case free
    have i0: "con_inv s0" using inv free y unfolding con_inv_def by (simp add: s0_def)
    have nl: "next_line s = s0" using free by (simp add: next_line_def check_history_scroll_def s0_def)
    have top: "top_row s = 0" "top_row s0 = 0" using free off by (simp_all add: top_row_def s0_def Let_def)
    have z: "history_buffer s ! nat (?y + 1) = replicate 128 0" using inv free y unfolding con_inv_def by simp
    have "screen_text s0 i j = screen_text s i j" if "0 \<le> i" "j < 128" for i j
    proof (cases "i = ?y + 1")
      case True
      then show ?thesis using z that by (simp add: screen_text_def top history_char_def) (simp add: s0_def history_char_def Let_def z)
    next
      case False
      then show ?thesis using that by (auto simp: screen_text_def top history_char_def Let_def) (simp_all add: s0_def)
    qed
    moreover have "g_screen_cols s \<le> 128" using g by (simp add: con_geom_def)
    ultimately have "shows_text fb s0" using sh unfolding shows_text_def by (simp add: s0_def shown_def px_def)
    then show ?thesis unfolding nl using g0 i0 off by (simp add: console_ok_def s0_def)
  qed
  then show "console_ok fb (next_line s)" "g_view_offset (next_line s) = 0" by auto
qed

lemma shows_text_cursor_x: "shows_text fb (s\<lparr>g_cursor_x := k\<rparr>) = shows_text fb s"
  by (simp add: shows_text_def shown_def px_def screen_text_def top_row_def history_char_def)

lemma kprint_char_ok:
  assumes ok: "console_ok fb s" and off: "g_view_offset s = 0"
  shows "console_ok fb (kprint_char c s) \<and> g_view_offset (kprint_char c s) = 0"
proof -
  have g: "con_geom fb s" and inv: "con_inv s" and sh: "shows_text fb s" using ok by (simp_all add: console_ok_def)
  have cols: "0 < g_screen_cols s" "0 < g_screen_rows s" using g by (simp_all add: con_geom_def)
  have cur: "0 \<le> g_cursor_x s" "g_cursor_x s < g_screen_cols s" "g_cursor_y s < 1000" using inv by (simp_all add: con_inv_def)
  have inv0: "con_inv (s\<lparr>g_cursor_x := k\<rparr>)" if "0 \<le> k" "k < g_screen_cols s" for k using inv that by (simp add: con_inv_def)
  have gx: "con_geom fb (s\<lparr>g_cursor_x := k\<rparr>)" for k using g by (simp add: con_geom_def)
  consider (line) "c = 10" | (erase) "c = 8" "g_cursor_x s > 0" | (char) "32 \<le> c" "c \<le> 126" "c \<noteq> 10" "c \<noteq> 8" | (other) "c = 8 \<and> g_cursor_x s = 0 \<or> c \<noteq> 8 \<and> c \<noteq> 10 \<and> \<not> (32 \<le> c \<and> c \<le> 126)"
    using cur(1) by linarith
  then show ?thesis
  proof cases
    case line
    have "s\<lparr>g_view_offset := 0\<rparr> = s" using off by simp
    then show ?thesis using line next_line_ok [OF g inv0 sh off] cols by (simp add: kprint_char_def)
  next
    case erase
    define s1 where "s1 = s\<lparr>g_cursor_x := g_cursor_x s - 1\<rparr>"
    have i1: "con_inv s1" using inv0 erase cur by (simp add: s1_def)
    have sh1: "shows_text fb s1" using sh by (simp add: s1_def shows_text_cursor_x)
    define t where "t = draw_char_on_screen (g_cursor_x s1) (if g_cursor_y s1 \<ge> g_screen_rows s1 then g_screen_rows s1 - 1 else g_cursor_y s1) 32 (set_history 32 s1)"
    note p = put_char_ok [OF gx [of "g_cursor_x s - 1", folded s1_def] i1 _ _ _ sh1, of 32, folded t_def]
    have off1: "g_view_offset s1 = 0" using off by (simp add: s1_def)
    have e: "t = (set_history 32 s1)\<lparr>pixels := pixels t\<rparr>" using p(1) off1 by simp
    have "con_geom fb t" "g_view_offset t = 0" using gx off1 by (subst e, simp add: s1_def)+
    moreover have "kprint_char c s = t" using erase off cols by (simp add: kprint_char_def s1_def [symmetric] t_def Let_def) (simp add: s1_def)
    ultimately show ?thesis using p(2,3) off1 by (simp add: console_ok_def)
  next
    case char
    define t where "t = draw_char_on_screen (g_cursor_x s) (if g_cursor_y s \<ge> g_screen_rows s then g_screen_rows s - 1 else g_cursor_y s) c (set_history c s)"
    note p = put_char_ok [OF g inv off char(1,2) sh, folded t_def]
    define u where "u = t\<lparr>g_cursor_x := g_cursor_x t + 1\<rparr>"
    have t: "con_geom fb t" "g_view_offset t = 0" "g_cursor_x t = g_cursor_x s" "g_screen_cols t = g_screen_cols s"
      using g off by (subst p(1), simp)+
    have gu: "con_geom fb u" using t(1) by (simp add: u_def con_geom_def)
    have shu: "shows_text fb u" using p(3) by (simp add: u_def shows_text_cursor_x)
    have iu: "con_inv (u\<lparr>g_cursor_x := k\<rparr>)" if "0 \<le> k" "k < g_screen_cols s" for k using p(2) that t by (simp add: u_def con_inv_def)
    have e: "kprint_char c s = (if g_cursor_x u \<ge> g_screen_cols u then next_line u else u)"
      using char off cur by (simp add: kprint_char_def t_def u_def Let_def)
    show ?thesis
    proof (cases "g_cursor_x u \<ge> g_screen_cols u")
      case True
      then show ?thesis unfolding e using next_line_ok [OF gu iu shu] cols t(2) by (simp add: u_def)
    next
      case False
      then have "con_inv u" using iu [of "g_cursor_x u"] cur t by (simp add: u_def)
      then show ?thesis unfolding e using False gu shu t(2) by (simp add: console_ok_def u_def)
    qed
  next
    case other
    then show ?thesis using ok off by (auto simp: kprint_char_def)
  qed
qed

lemma kprint_chars_ok:
  "console_ok fb s \<Longrightarrow> g_view_offset s = 0 \<Longrightarrow> console_ok fb (fold kprint_char cs s) \<and> g_view_offset (fold kprint_char cs s) = 0"
  by (induction cs arbitrary: s) (simp_all add: kprint_char_ok)

lemma scroll_ok:
  assumes "con_geom fb s" "con_inv s"
  shows "console_ok fb (console_scroll n s)"
proof -
  define v where "v = (let a = g_view_offset s + n; b = (if a > g_cursor_y s then g_cursor_y s else a) in if b < 0 then 0 else b)"
  have "con_inv (s\<lparr>g_view_offset := v\<rparr>)" "con_geom fb (s\<lparr>g_view_offset := v\<rparr>)"
    using assms by (simp_all add: con_inv_def con_geom_def v_def Let_def)
  then show ?thesis using refresh_console_ok(1) by (simp add: console_scroll_def v_def Let_def)
qed


text \<open>A frame buffer of ordinary size without padding at the end of its lines.\<close>

definition plain_fb :: "limine_framebuffer \<Rightarrow> bool" where
  "plain_fb fb \<longleftrightarrow> 16 \<le> unat (fb_width fb) \<and> unat (fb_width fb) < 32768 \<and> 16 \<le> unat (fb_height fb) \<and> unat (fb_height fb) < 32768
     \<and> fb_pitch fb = 4 * fb_width fb"

lemma plain_fb_dims:
  assumes "plain_fb fb"
  defines "w \<equiv> int (unat (fb_width fb))" and "h \<equiv> int (unat (fb_height fb))"
  shows "to_int (fb_width fb) = w" "to_int (fb_height fb) = h" "pitch_pixels fb = w"
    "to_int (fb_width fb div 16) = w div 16" "to_int (fb_height fb div 16) = h div 16"
    "uint (fb_width fb * fb_height fb) = w * h"
proof -
  have b: "unat (fb_width fb) < 32768" "unat (fb_height fb) < 32768" and p: "fb_pitch fb = 4 * fb_width fb" using assms(1) by (simp_all add: plain_fb_def)
  show "to_int (fb_width fb) = w" "to_int (fb_height fb) = h" using b by (simp_all add: to_int_small w_def h_def)
  have d: "unat (fb_width fb div 16) = unat (fb_width fb) div 16" "unat (fb_height fb div 16) = unat (fb_height fb) div 16" by (simp_all add: unat_div)
  show "to_int (fb_width fb div 16) = w div 16" "to_int (fb_height fb div 16) = h div 16"
    using b by (simp_all add: to_int_small d w_def h_def zdiv_int)
  have "unat (fb_width fb) * unat (fb_height fb) < 32768 * 32768" using b by (intro mult_strict_mono) simp_all
  then show "uint (fb_width fb * fb_height fb) = w * h" unfolding uint_nat by (subst unat_mult_no_overflow) (simp_all add: w_def h_def)
  have "unat (4 * fb_width fb) = 4 * unat (fb_width fb)" using b by (subst unat_mult_no_overflow) simp_all
  then have e: "4 * fb_width fb div 4 = fb_width fb" by (intro unsigned_word_eqI [where 'a = nat]) (simp add: unat_div)
  have "uint (fb_width fb) = w" by (simp add: w_def)
  moreover have "0 \<le> w" "w < 4294967296" unfolding w_def using b by linarith+
  then have "take_bit 32 w = w" by (intro take_bit_int_eq_self) simp_all
  ultimately show "pitch_pixels fb = w" by (simp add: pitch_pixels_def p e unsigned_ucast_eq)
qed

lemma blank_glyph: "y < 8 \<Longrightarrow> glyph 32 x (int y) = 0"
proof -
  assume "y < 8"
  moreover have "font8x8_basic ! 32 = replicate 8 0" by code_simp
  ultimately show ?thesis by (simp add: glyph_def)
qed

lemma console_init_ok:
  assumes fb: "plain_fb fb"
  shows "console_ok fb (console_init fb s)" "g_view_offset (console_init fb s) = 0"
proof -
  define w where "w = int (unat (fb_width fb))"
  define h where "h = int (unat (fb_height fb))"
  note d = plain_fb_dims [OF fb, folded w_def h_def]
  have wh: "16 \<le> w" "w < 32768" "16 \<le> h" "h < 32768" using fb unfolding plain_fb_def w_def h_def by linarith+
  let ?t = "console_init fb s"
  define cols where "cols = (if w div 16 > 128 then 128 else w div 16)"
  have f: "g_fb ?t = Some fb" "g_screen_cols ?t = cols" "g_screen_rows ?t = h div 16" "history_buffer ?t = replicate 1000 (replicate 128 0)"
    "g_cursor_x ?t = 0" "g_cursor_y ?t = 0" "g_view_offset ?t = 0" "\<And>i. 0 \<le> i \<Longrightarrow> i < w * h \<Longrightarrow> pixels ?t i = 0"
    by (simp_all add: console_init_def kclear_def d Let_def cols_def)
  show "g_view_offset ?t = 0" by (rule f)
  have c: "0 < cols" "cols \<le> 128" "cols * 16 \<le> w" using wh(1) by (auto simp: cols_def)
  have hw: "h * w \<le> 32768 * 32768" using wh by (intro mult_mono) simp_all
  have hd: "0 < h div 16" "h div 16 * 16 \<le> h" using wh(3) by presburger+
  have g: "con_geom fb ?t" unfolding con_geom_def f d using c wh hw hd by simp
  have inv: "con_inv ?t" unfolding con_inv_def f using c by simp
  have blank: "screen_text ?t i j = 32" if "0 \<le> i" "j < 128" for i j
    using that f by (auto simp: screen_text_def top_row_def history_char_def Let_def)
  have "shows_text fb ?t" unfolding shows_text_def f shown_def
  proof (intro allI impI)
    fix i j X Y assume i: "0 \<le> i" "i < h div 16" and j: "int j < cols" and X: "X div 16 = int j" and Y: "Y div 16 = i"
    have X': "0 \<le> X" "X < w" using cell_pixel [OF g, of "int j" X] j X d(3) f(2) by simp_all
    have "16 * i \<le> Y" "Y < 16 * i + 16" using Y by presburger+
    then have Y': "0 \<le> Y" "Y < h" using i by linarith+
    have "Y * w + X < (Y + 1) * w" using X' by (simp add: algebra_simps)
    also have "\<dots> \<le> h * w" using Y' wh by (intro mult_right_mono) simp_all
    finally have "px fb ?t X Y = 0" unfolding px_def d using f(8) X' Y' wh by (simp add: mult.commute)
    moreover have "glyph 32 (X mod 16 div 2) (Y mod 16 div 2) = 0"
    proof -
      have "0 \<le> Y mod 16 div 2" "Y mod 16 div 2 < 8" by presburger+
      then show ?thesis using blank_glyph [of "nat (Y mod 16 div 2)"] by simp
    qed
    ultimately show "px fb ?t X Y = glyph (screen_text ?t i j) (X mod 16 div 2) (Y mod 16 div 2)" using blank i j c by simp
  qed
  then show "console_ok fb ?t" using g inv by (simp add: console_ok_def)
qed

subsection \<open>Properties\<close>


definition example_fb :: limine_framebuffer where
  "example_fb = \<lparr>fb_width = 32, fb_height = 64, fb_pitch = 128\<rparr>"

definition example_console :: console where
  "example_console = \<lparr>history_buffer = [], g_fb = None, g_cursor_x = 0, g_cursor_y = 0, g_view_offset = 0, g_screen_rows = 0, g_screen_cols = 0, pixels = (\<lambda>_. 7)\<rparr>"

lemma example_fb_plain: "plain_fb example_fb"
  by (simp add: plain_fb_def example_fb_def)


text \<open>
  What is typed after scrolling back on a screen that is not full yet stays invisible: the line of
  the cursor is on the screen, but the character is not drawn because the view is scrolled; the line
  feed then returns to the newest lines without redrawing, so that the cell keeps its old contents
  although the history has the character.
\<close>

theorem console_typing_stays_hidden:
  assumes "console_ok fb s" and "0 < g_view_offset s" and "g_cursor_y s + 1 < g_screen_rows s" "g_cursor_y s < 999" "g_cursor_x s + 1 < g_screen_cols s"
    and "32 \<le> c" "c \<le> 126" and "t = kprint_char 10 (kprint_char c s)"
  shows "g_view_offset t = 0 \<and> screen_text t (g_cursor_y s) (nat (g_cursor_x s)) = c
    \<and> shown fb t (g_cursor_y s) (g_cursor_x s) (screen_text s (g_cursor_y s) (nat (g_cursor_x s)))"
proof -
  have g: "con_geom fb s" and inv: "con_inv s" and sh: "shows_text fb s" using assms(1) by (simp_all add: console_ok_def)
  have cur: "0 \<le> g_cursor_x s" "g_cursor_x s < g_screen_cols s" "0 \<le> g_cursor_y s" "g_screen_cols s \<le> 128" using inv g by (simp_all add: con_inv_def con_geom_def)
  have c: "c \<noteq> 10" "c \<noteq> 8" using assms(6) by (auto simp: word_le_nat_alt)
  define u where "u = (set_history c s)\<lparr>g_cursor_x := g_cursor_x s + 1\<rparr>"
  have u: "kprint_char c s = u" using assms(2-7) c by (simp add: kprint_char_def u_def Let_def)
  have t: "t = u\<lparr>g_view_offset := 0, g_cursor_x := 0, g_cursor_y := g_cursor_y s + 1\<rparr>"
    using assms(3,4) unfolding assms(8) u by (simp add: kprint_char_def next_line_def check_history_scroll_def u_def Let_def)
  have hc: "history_char t (g_cursor_y s) (nat (g_cursor_x s)) = c"
    using set_history_con(2) [OF inv assms(6,7) cur(4,3), of "nat (g_cursor_x s)"] cur by (simp add: t u_def history_char_def)
  have "top_row t = 0" using assms(3) by (simp add: t u_def top_row_def Let_def)
  then have "screen_text t (g_cursor_y s) (nat (g_cursor_x s)) = c" using assms(4) hc by (simp add: screen_text_def Let_def) (simp add: t)
  moreover have "shown fb s (g_cursor_y s) (g_cursor_x s) (screen_text s (g_cursor_y s) (nat (g_cursor_x s)))"
    using sh assms(3) cur unfolding shows_text_def by (metis int_nat_eq less_trans zless_add1_eq)
  then have "shown fb t (g_cursor_y s) (g_cursor_x s) (screen_text s (g_cursor_y s) (nat (g_cursor_x s)))"
    by (simp add: shown_def px_def t u_def)
  ultimately show ?thesis by (simp add: t)
qed


text \<open>One line of text, then scrolled back: the letter typed next is not on the screen after the line feed.\<close>

theorem console_typing_stays_hidden_witness:
  "\<exists>s t. t = kprint_char 10 (kprint_char 97 s) \<and> g_view_offset t = 0 \<and> screen_text t 1 0 = 97 \<and> shown example_fb t 1 0 32"
proof -
  define s0 where "s0 = kprint_char 10 (console_init example_fb example_console)"
  define s where "s = console_scroll 10 s0"
  have ok0: "console_ok example_fb s0"
    unfolding s0_def using kprint_char_ok [OF console_init_ok [OF example_fb_plain]] by blast
  have f: "g_cursor_y s0 = 1" "g_cursor_x s0 = 0" "g_view_offset s0 = 0" "g_screen_rows s0 = 4" "g_screen_cols s0 = 2" "history_buffer s0 = replicate 1000 (replicate 128 0)"
    using plain_fb_dims(4,5) [OF example_fb_plain]
    by (simp_all add: s0_def kprint_char_def next_line_def check_history_scroll_def console_init_def kclear_def Let_def) (simp_all add: example_fb_def)
  have g: "con_geom example_fb s0" "con_inv s0" using ok0 by (simp_all add: console_ok_def)
  have ok: "console_ok example_fb s" unfolding s_def by (rule scroll_ok [OF g])
  have e: "s = s0\<lparr>g_view_offset := 1, pixels := pixels s\<rparr>"
  proof -
    have "con_inv (s0\<lparr>g_view_offset := 1\<rparr>)" "con_geom example_fb (s0\<lparr>g_view_offset := 1\<rparr>)" using g f by (simp_all add: con_inv_def con_geom_def)
    from refresh_ok(1) [OF this(2,1)] show ?thesis unfolding s_def console_scroll_def Let_def by (simp add: f)
  qed
  have fs: "g_cursor_y s = 1" "g_cursor_x s = 0" "g_view_offset s = 1" "g_screen_rows s = 4" "g_screen_cols s = 2" "history_buffer s = replicate 1000 (replicate 128 0)"
    by (subst e, simp add: f)+
  have blank: "screen_text s 1 0 = 32" using fs by (simp add: screen_text_def top_row_def history_char_def Let_def)
  have "(32 :: u8) \<le> 97" "(97 :: u8) \<le> 126" by simp_all
  from console_typing_stays_hidden [OF ok _ _ _ _ this refl] show ?thesis using fs blank by auto
qed

end
