(* ===== verification/Keyboard.thy ===== *)
theory Keyboard
  imports Console
begin

text \<open>
  The keyboard, \<^verbatim>\<open>drivers/keyboard.c\<close>: a ring buffer of 128 characters that the interrupt handler fills and
  \<^verbatim>\<open>keyboard_get_char\<close> empties. The theorems show that it is a bounded first-in-first-out queue of 127
  characters.
\<close>

abbreviation (input) KBUF_SIZE :: int where "KBUF_SIZE \<equiv> 128"

record keyboard =
  kbuf :: "u8 list"
  r_ptr :: int
  w_ptr :: int
  g_shift :: bool
  con :: console

definition kmap_low :: "u8 list" where
  "kmap_low =
    [0, 27, 49, 50, 51, 52, 53, 54, 55, 56, 57, 48, 45, 61, 8, 9,
     113, 119, 101, 114, 116, 121, 117, 105, 111, 112, 91, 93, 10, 0, 97, 115,
     100, 102, 103, 104, 106, 107, 108, 59, 39, 96, 0, 92, 122, 120, 99, 118,
     98, 110, 109, 44, 46, 47, 0, 42, 0, 32] @ replicate 70 0"

definition kmap_up :: "u8 list" where
  "kmap_up =
    [0, 27, 33, 64, 35, 36, 37, 94, 38, 42, 40, 41, 95, 43, 8, 9,
     81, 87, 69, 82, 84, 89, 85, 73, 79, 80, 123, 125, 10, 0, 65, 83,
     68, 70, 71, 72, 74, 75, 76, 58, 34, 126, 0, 124, 90, 88, 67, 86,
     66, 78, 77, 60, 62, 63, 0, 42, 0, 32] @ replicate 70 0"

text \<open>The end of \<^verbatim>\<open>keyboard_handler\<close>: a character is stored unless the buffer is full.\<close>

definition key_put :: "u8 \<Rightarrow> keyboard \<Rightarrow> keyboard" where
  "key_put c s =
     (let next_w = (w_ptr s + 1) mod KBUF_SIZE
      in if next_w \<noteq> r_ptr s then s\<lparr>kbuf := (kbuf s)[nat (w_ptr s) := c], w_ptr := next_w\<rparr> else s)"

text \<open>\<^verbatim>\<open>keyboard_handler\<close> with the byte that \<^verbatim>\<open>inb(0x60)\<close> returns.\<close>

definition keyboard_handler :: "u8 \<Rightarrow> keyboard \<Rightarrow> keyboard" where
  "keyboard_handler scancode s =
     (if scancode = 0x2A \<or> scancode = 0x36 then s\<lparr>g_shift := True\<rparr>
      else if scancode = 0xAA \<or> scancode = 0xB6 then s\<lparr>g_shift := False\<rparr>
      else if scancode AND 0x80 \<noteq> 0 then s
      else if scancode = 0x49 then s\<lparr>con := console_scroll 10 (con s)\<rparr>
      else if scancode = 0x51 then s\<lparr>con := console_scroll (-10) (con s)\<rparr>
      else if scancode > 127 then s
      else
        let c = (if g_shift s then kmap_up else kmap_low) ! unat scancode
        in if c \<noteq> 0 then key_put c s else s)"

definition keyboard_get_char :: "keyboard \<Rightarrow> u8 \<times> keyboard" where
  "keyboard_get_char s =
     (if r_ptr s = w_ptr s then (0, s)
      else (kbuf s ! nat (r_ptr s), s\<lparr>r_ptr := (r_ptr s + 1) mod KBUF_SIZE\<rparr>))"

text \<open>
  \<^verbatim>\<open>init_keyboard\<close> with the byte it reads from port 0x21; the result has the byte it writes back. The
  registration of the handler is in the theory of interrupts.
\<close>

definition init_keyboard :: "u8 \<Rightarrow> keyboard \<Rightarrow> u8 \<times> keyboard" where
  "init_keyboard imr s =
     (imr AND NOT 2,
      s\<lparr>r_ptr := 0, w_ptr := 0,
        con := fold kprint_char (map (of_nat \<circ> of_char) ''Keyboard initialized (Interrupt Mode).'' @ [10]) (con s)\<rparr>)"

text \<open>
  \<^verbatim>\<open>kinput\<close>: \<open>buf\<close> holds the first \<^verbatim>\<open>idx\<close> bytes of the buffer. While the ring buffer is empty the processor waits
  with \<^verbatim>\<open>hlt\<close> for the next interrupt of the keyboard, whose scancodes are \<open>keys\<close>; \<open>None\<close> means that it waits
  forever. The result is the string in the buffer, the scancodes left and the state.
\<close>

partial_function (option) kinput_loop :: "int \<Rightarrow> u8 list \<Rightarrow> u8 list \<Rightarrow> keyboard \<Rightarrow> (u8 list \<times> u8 list \<times> keyboard) option" where
  "kinput_loop max_len buf keys s =
     (if int (length buf) < max_len - 1
      then
        let c = fst (keyboard_get_char s); s1 = snd (keyboard_get_char s)
        in if c = 0 then (if keys = [] then None else kinput_loop max_len buf (tl keys) (keyboard_handler (hd keys) s1))
           else if c = 10 then Some (buf, keys, s1\<lparr>con := kprint_char 10 (con s1)\<rparr>)
           else if c = 8
           then (if buf \<noteq> [] then kinput_loop max_len (butlast buf) keys (s1\<lparr>con := kprint_char 8 (con s1)\<rparr>)
                 else kinput_loop max_len buf keys s1)
           else kinput_loop max_len (buf @ [c]) keys (s1\<lparr>con := kprint_char c (con s1)\<rparr>)
      else Some (buf, keys, s))"

definition kinput :: "int \<Rightarrow> u8 list \<Rightarrow> keyboard \<Rightarrow> (u8 list \<times> u8 list \<times> keyboard) option" where
  "kinput max_len keys s = kinput_loop max_len [] keys s"

subsection \<open>Bounded queues\<close>

text \<open>
  What a client of the buffer may rely on: \<open>put\<close> appends unless the queue is full, \<open>get\<close> takes the oldest
  element, and says \<open>none\<close> when there is none.
\<close>

locale bounded_queue =
  fixes put :: "'a \<Rightarrow> 's \<Rightarrow> 's" and get :: "'s \<Rightarrow> 'a \<times> 's" and none :: 'a and cap :: nat
    and contents :: "'s \<Rightarrow> 'a list" and invar :: "'s \<Rightarrow> bool"
  assumes put_contents: "invar s \<Longrightarrow> c \<noteq> none \<Longrightarrow> contents (put c s) = (if length (contents s) < cap then contents s @ [c] else contents s)"
    and put_invar: "invar s \<Longrightarrow> c \<noteq> none \<Longrightarrow> invar (put c s)"
    and get_value: "invar s \<Longrightarrow> fst (get s) = (if contents s = [] then none else hd (contents s))"
    and get_contents: "invar s \<Longrightarrow> contents (snd (get s)) = tl (contents s)"
    and get_invar: "invar s \<Longrightarrow> invar (snd (get s))"
    and no_none: "invar s \<Longrightarrow> none \<notin> set (contents s)"
    and contents_cap: "invar s \<Longrightarrow> length (contents s) \<le> cap"
begin

lemma fill:
  assumes "invar s" "none \<notin> set cs"
  shows "invar (fold put cs s)" "contents (fold put cs s) = take cap (contents s @ cs)"
  using assms
proof (induction cs arbitrary: s)
  case (Cons c cs)
  case 2
  have c: "c \<noteq> none" "none \<notin> set cs" using 2 by auto
  note IH = Cons.IH [OF put_invar [OF 2(1) c(1)] c(2)]
  show ?case using IH put_contents [OF 2(1) c(1)] contents_cap [OF 2(1)] by (auto simp: take_Cons')
qed (auto simp: contents_cap put_invar)

text \<open>Reading \<open>n\<close> times.\<close>

fun drain :: "nat \<Rightarrow> 's \<Rightarrow> 'a list \<times> 's" where
  "drain 0 s = ([], s)"
| "drain (Suc n) s = (let (c, s1) = get s; (cs, s2) = drain n s1 in (c # cs, s2))"

lemma drain_spec:
  "invar s \<Longrightarrow> fst (drain n s) = take n (contents s) @ replicate (n - length (contents s)) none
     \<and> invar (snd (drain n s)) \<and> contents (snd (drain n s)) = drop n (contents s)"
proof (induction n arbitrary: s)
  case (Suc n)
  show ?case using Suc.IH [OF get_invar [OF Suc.prems]] get_value [OF Suc.prems] get_contents [OF Suc.prems]
    by (cases "contents s") (auto simp: case_prod_unfold Let_def)
qed simp

lemma fill_then_drain:
  assumes "invar s" "contents s = []" "none \<notin> set cs" "length cs \<le> cap"
  shows "fst (drain (length cs) (fold put cs s)) = cs"
  using drain_spec [OF fill(1) [OF assms(1,3)], of "length cs"] fill(2) [OF assms(1,3)] assms(2,4) by simp

end

subsection \<open>The ring buffer is a bounded queue\<close>

definition kqueue :: "keyboard \<Rightarrow> u8 list" where
  "kqueue s = map (\<lambda>i. kbuf s ! nat ((r_ptr s + int i) mod 128)) [0..<nat ((w_ptr s - r_ptr s) mod 128)]"

definition kbd_inv :: "keyboard \<Rightarrow> bool" where
  "kbd_inv s \<longleftrightarrow> length (kbuf s) = 128 \<and> 0 \<le> r_ptr s \<and> r_ptr s < 128 \<and> 0 \<le> w_ptr s \<and> w_ptr s < 128 \<and> 0 \<notin> set (kqueue s)"

lemma ring_distance:
  assumes "0 \<le> r" "r < (128 :: int)" "0 \<le> w" "w < 128"
  shows "(w - r) mod 128 = (if r \<le> w then w - r else w - r + 128)"
    and "(w + 1) mod 128 = (if w = 127 then 0 else w + 1)" and "0 \<le> i \<Longrightarrow> i < 128 \<Longrightarrow> (r + i) mod 128 = (if r + i < 128 then r + i else r + i - 128)"
proof -
  have "(w - r + 128) mod 128 = w - r + 128" if "w < r" using assms that by (intro mod_pos_pos_trivial) simp_all
  then show "(w - r) mod 128 = (if r \<le> w then w - r else w - r + 128)" using assms by auto
  show "(w + 1) mod 128 = (if w = 127 then 0 else w + 1)" using assms by auto
  assume i: "0 \<le> i" "i < 128"
  have "(r + i - 128) mod 128 = r + i - 128" if "r + i \<ge> 128" using assms that i by (intro mod_pos_pos_trivial) simp_all
  then show "(r + i) mod 128 = (if r + i < 128 then r + i else r + i - 128)" using assms i by auto
qed

lemma kqueue_length: "kbd_inv s \<Longrightarrow> length (kqueue s) = nat ((w_ptr s - r_ptr s) mod 128)" "length (kqueue s) \<le> 127"
proof -
  have "(w_ptr s - r_ptr s) mod 128 < 128" by simp
  then show "length (kqueue s) \<le> 127" by (simp add: kqueue_def)
qed (simp add: kqueue_def)

lemma key_put_queue:
  assumes inv: "kbd_inv s" and c: "c \<noteq> 0"
  shows "kqueue (key_put c s) = (if length (kqueue s) < 127 then kqueue s @ [c] else kqueue s)" "kbd_inv (key_put c s)"
proof -
  let ?r = "r_ptr s" and ?w = "w_ptr s"
  have rw: "0 \<le> ?r" "?r < 128" "0 \<le> ?w" "?w < 128" and len: "length (kbuf s) = 128" using inv by (simp_all add: kbd_inv_def)
  note d = ring_distance [OF rw]
  define n where "n = nat ((?w - ?r) mod 128)"
  have n: "length (kqueue s) = n" by (simp add: kqueue_def n_def)
  have full: "(?w + 1) mod 128 = ?r \<longleftrightarrow> n = 127" using rw d(1,2) by (auto simp: n_def)
  have "kqueue (key_put c s) = (if n < 127 then kqueue s @ [c] else kqueue s) \<and> kbd_inv (key_put c s)"
  proof (cases "n < 127")
    case True
    then have ne: "(?w + 1) mod 128 \<noteq> ?r" using full by simp
    let ?t = "s\<lparr>kbuf := (kbuf s)[nat ?w := c], w_ptr := (?w + 1) mod 128\<rparr>"
    have e: "key_put c s = ?t" using ne by (simp add: key_put_def Let_def)
    have w': "0 \<le> (?w + 1) mod 128" "(?w + 1) mod 128 < 128" by simp_all
    have n': "nat (((?w + 1) mod 128 - ?r) mod 128) = Suc n" using ring_distance(1) [OF rw(1,2) w'] d(1,2) rw ne by (auto simp: n_def)
    have idx: "nat ?w \<noteq> nat ((?r + int i) mod 128)" if "i < n" for i
      using that True d(3) [of "int i"] rw d(1) by (auto simp: n_def split: if_splits)
    have last: "nat ((?r + int n) mod 128) = nat ?w" using True d(3) [of "int n"] rw d(1) by (auto simp: n_def split: if_splits)
    have q: "kqueue ?t = kqueue s @ [c]"
      unfolding kqueue_def using len rw idx last by (simp add: n' n_def [symmetric])
    moreover have "kbd_inv ?t" using inv c q w' by (auto simp: kbd_inv_def)
    ultimately show ?thesis using True e by simp
  next
    case False
    have "n \<le> 127" using kqueue_length(2) [of s] n by simp
    then show ?thesis using False full inv by (simp add: key_put_def)
  qed
  then show "kqueue (key_put c s) = (if length (kqueue s) < 127 then kqueue s @ [c] else kqueue s)" "kbd_inv (key_put c s)" by (simp_all add: n)
qed

lemma get_char_queue:
  assumes inv: "kbd_inv s"
  shows "fst (keyboard_get_char s) = (if kqueue s = [] then 0 else hd (kqueue s))" "kqueue (snd (keyboard_get_char s)) = tl (kqueue s)"
    "kbd_inv (snd (keyboard_get_char s))"
proof -
  let ?r = "r_ptr s" and ?w = "w_ptr s"
  have rw: "0 \<le> ?r" "?r < 128" "0 \<le> ?w" "?w < 128" and len: "length (kbuf s) = 128" using inv by (simp_all add: kbd_inv_def)
  define n where "n = nat ((?w - ?r) mod 128)"
  have empty: "?r = ?w \<longleftrightarrow> n = 0" using ring_distance(1) [OF rw] rw by (auto simp: n_def)
  have q: "kqueue s = map (\<lambda>i. kbuf s ! nat ((?r + int i) mod 128)) [0..<n]" by (simp add: kqueue_def n_def)
  have "fst (keyboard_get_char s) = (if kqueue s = [] then 0 else hd (kqueue s)) \<and> kqueue (snd (keyboard_get_char s)) = tl (kqueue s)
    \<and> kbd_inv (snd (keyboard_get_char s))"
  proof (cases n)
    case 0
    then show ?thesis using empty inv q by (simp add: keyboard_get_char_def)
  next
    case (Suc m)
    let ?t = "s\<lparr>r_ptr := (?r + 1) mod 128\<rparr>"
    have g: "keyboard_get_char s = (kbuf s ! nat ?r, ?t)" using Suc empty by (simp add: keyboard_get_char_def)
    have qs: "kqueue s = kbuf s ! nat ?r # map (\<lambda>i. kbuf s ! nat ((?r + 1 + int i) mod 128)) [0..<m]"
      unfolding q Suc using rw by (simp add: upt_conv_Cons map_Suc_upt [symmetric] ac_simps del: upt_Suc map_Suc_upt)
    have r': "0 \<le> (?r + 1) mod 128" "(?r + 1) mod 128 < 128" by simp_all
    have dm: "(?w - ?r) mod 128 = int m + 1" using Suc by (simp add: n_def nat_eq_iff2)
    have "(?w - (?r + 1) mod 128) mod 128 = ((?w - ?r) mod 128 - 1) mod 128" by (simp add: mod_simps algebra_simps)
    also have "\<dots> = int m"
    proof -
      have "int m + 1 < 128" unfolding dm [symmetric] by simp
      then show ?thesis by (simp add: dm)
    qed
    finally have "nat ((?w - (?r + 1) mod 128) mod 128) = m" by simp
    then have "kqueue ?t = tl (kqueue s)" unfolding qs by (simp add: kqueue_def mod_simps)
    moreover from this have "kbd_inv ?t" using inv r' qs by (simp add: kbd_inv_def)
    ultimately show ?thesis using g qs by simp
  qed
  then show "fst (keyboard_get_char s) = (if kqueue s = [] then 0 else hd (kqueue s))" "kqueue (snd (keyboard_get_char s)) = tl (kqueue s)"
    "kbd_inv (snd (keyboard_get_char s))" by auto
qed

interpretation keys: bounded_queue key_put keyboard_get_char 0 127 kqueue kbd_inv
  by unfold_locales (simp_all add: key_put_queue get_char_queue kqueue_length(2), simp add: kbd_inv_def)


subsection \<open>Interrupts and reads in any order\<close>

text \<open>The keyboard as a specification: a shift flag and a queue of at most 127 characters.\<close>

definition key_char :: "bool \<Rightarrow> u8 \<Rightarrow> u8" where
  "key_char shift sc = (if sc \<ge> 128 \<or> sc = 0x49 \<or> sc = 0x51 \<or> sc = 0x2A \<or> sc = 0x36 then 0 else (if shift then kmap_up else kmap_low) ! unat sc)"

definition key_shift :: "bool \<Rightarrow> u8 \<Rightarrow> bool" where
  "key_shift shift sc = (if sc = 0x2A \<or> sc = 0x36 then True else if sc = 0xAA \<or> sc = 0xB6 then False else shift)"

datatype key_event = Key u8 | Read

fun key_spec :: "key_event list \<Rightarrow> bool \<times> u8 list \<Rightarrow> u8 list \<times> bool \<times> u8 list" where
  "key_spec [] (shift, q) = ([], shift, q)"
| "key_spec (Key sc # es) (shift, q) =
     key_spec es (key_shift shift sc, if key_char shift sc \<noteq> 0 \<and> length q < 127 then q @ [key_char shift sc] else q)"
| "key_spec (Read # es) (shift, q) =
     (let (out, st) = key_spec es (shift, tl q) in ((if q = [] then 0 else hd q) # out, st))"

fun key_run :: "key_event list \<Rightarrow> keyboard \<Rightarrow> u8 list \<times> keyboard" where
  "key_run [] s = ([], s)"
| "key_run (Key sc # es) s = key_run es (keyboard_handler sc s)"
| "key_run (Read # es) s = (let (c, s1) = keyboard_get_char s; (out, s2) = key_run es s1 in (c # out, s2))"

lemma kqueue_same [simp]:
  "kqueue (s\<lparr>g_shift := b\<rparr>) = kqueue s" "kqueue (s\<lparr>con := t\<rparr>) = kqueue s" "kbd_inv (s\<lparr>g_shift := b\<rparr>) = kbd_inv s" "kbd_inv (s\<lparr>con := t\<rparr>) = kbd_inv s"
  by (simp_all add: kqueue_def kbd_inv_def)

lemma key_put_shift [simp]: "g_shift (key_put c s) = g_shift s"
  by (simp add: key_put_def Let_def)

lemma and_80: "(sc :: u8) AND 0x80 = 0 \<longleftrightarrow> sc < 128"
proof -
  have "sc AND 0x80 = 0 \<longleftrightarrow> \<not> bit sc 7"
    using and_exp_eq_0_iff_not_bit [of sc 7] by simp
  also have "\<dots> \<longleftrightarrow> even (unat sc div 128)" using bit_unsigned_iff [where 'a = nat, of sc 7] by (auto simp: bit_iff_odd [of "unat sc"])
  also have "\<dots> \<longleftrightarrow> unat sc < 128"
  proof -
    have "unat sc < 256" using unsigned_less [where 'a = nat, of sc] by simp
    then have "unat sc div 128 = 0 \<or> unat sc div 128 = 1" by linarith
    then show ?thesis by (auto simp: div_eq_0_iff)
  qed
  finally show ?thesis by (simp add: word_less_nat_alt)
qed

lemma handler_spec:
  assumes inv: "kbd_inv s"
  shows "kqueue (keyboard_handler sc s) = (if key_char (g_shift s) sc \<noteq> 0 \<and> length (kqueue s) < 127 then kqueue s @ [key_char (g_shift s) sc] else kqueue s)"
    "g_shift (keyboard_handler sc s) = key_shift (g_shift s) sc" "kbd_inv (keyboard_handler sc s)"
proof -
  have b: "\<not> sc < 128 \<longleftrightarrow> 128 \<le> sc" "sc < 128 \<longleftrightarrow> \<not> sc > 127" by (auto simp: word_less_nat_alt word_le_nat_alt)
  show "kqueue (keyboard_handler sc s) = (if key_char (g_shift s) sc \<noteq> 0 \<and> length (kqueue s) < 127 then kqueue s @ [key_char (g_shift s) sc] else kqueue s)"
    "g_shift (keyboard_handler sc s) = key_shift (g_shift s) sc" "kbd_inv (keyboard_handler sc s)"
    using inv keys.put_contents [OF inv] keys.put_invar [OF inv] b by (auto simp: keyboard_handler_def key_char_def key_shift_def and_80 Let_def)
qed

lemma key_run_spec:
  "kbd_inv s \<Longrightarrow> key_spec es (g_shift s, kqueue s) = (fst (key_run es s), g_shift (snd (key_run es s)), kqueue (snd (key_run es s)))
     \<and> kbd_inv (snd (key_run es s))"
proof (induction es arbitrary: s)
  case (Cons e es)
  show ?case
  proof (cases e)
    case (Key sc)
    show ?thesis using Cons.IH [OF handler_spec(3) [OF Cons.prems, of sc]] handler_spec(1,2) [OF Cons.prems, of sc] by (simp add: Key)
  next
    case Read
    have "g_shift (snd (keyboard_get_char s)) = g_shift s" by (simp add: keyboard_get_char_def)
    then show ?thesis using Cons.IH [OF keys.get_invar [OF Cons.prems]] keys.get_value [OF Cons.prems] keys.get_contents [OF Cons.prems]
      by (simp add: Read case_prod_unfold Let_def)
  qed
qed simp

text \<open>
  C10: the keyboard driver implements the specification for every interleaving of keyboard interrupts
  and reads: the characters read are those of the keys pressed, with the state of the shift key, in
  order, less those pressed while 127 characters were waiting; a read with nothing waiting returns 0.
\<close>

theorem keyboard_refines_queue:
  assumes "kbd_inv s"
  shows "key_spec es (g_shift s, kqueue s) = (fst (key_run es s), g_shift (snd (key_run es s)), kqueue (snd (key_run es s)))"
  using key_run_spec [OF assms] by blast

definition example_keyboard :: keyboard where
  "example_keyboard = \<lparr>kbuf = replicate 128 0, r_ptr = 127, w_ptr = 127, g_shift = False, con = example_console\<rparr>"

theorem keyboard_refines_queue_witness:
  "fst (key_run [Key 0x2A, Key 0x23, Key 0xAA, Key 0x17, Read, Read, Read] example_keyboard) = [72, 105, 0]"
proof -
  have i: "kbd_inv example_keyboard" "g_shift example_keyboard = False" "kqueue example_keyboard = []"
    by (simp_all add: kbd_inv_def kqueue_def example_keyboard_def)
  have "fst (key_spec [Key 0x2A, Key 0x23, Key 0xAA, Key 0x17, Read, Read, Read] (False, [])) = [72, 105, 0]" by code_simp
  then show ?thesis using keyboard_refines_queue [OF i(1), of "[Key 0x2A, Key 0x23, Key 0xAA, Key 0x17, Read, Read, Read]"] by (simp add: i)
qed

end
