(* ===== verification/Syscall.thy ===== *)
theory Syscall
  imports Ramfs Keyboard
begin

text \<open>
  Interrupt dispatch and system calls, \<^verbatim>\<open>arch/interrupts.c\<close>, over the whole state of the kernel: the file
  system and everything below it, the keyboard and the console, the table of interrupt handlers and
  the ports. Pointers from user space are followed through the page table in \<^verbatim>\<open>cr3\<close>; reading or writing an
  unmapped address is a fault, the value \<open>None\<close>.
\<close>

text \<open>The handlers that the kernel registers.\<close>

datatype isr = Timer_isr | Keyboard_isr

record kernel = ramfs +
  kbd :: keyboard
  interrupt_handlers :: "isr option list"
  port_log :: "(u16 \<times> u8) list"

definition register_interrupt_handler :: "u8 \<Rightarrow> isr \<Rightarrow> kernel \<Rightarrow> kernel" where
  "register_interrupt_handler n handler s = s\<lparr>interrupt_handlers := (interrupt_handlers s)[unat n := Some handler]\<rparr>"

subsection \<open>User memory\<close>

definition user_read :: "u64 \<Rightarrow> 'a paging_scheme \<Rightarrow> u8 option" where
  "user_read va s = map_option (\<lambda>pa. kmem s (pa2kva s pa)) (translate s (cr3 s) va)"

partial_function (option) user_string :: "'a paging_scheme \<Rightarrow> u64 \<Rightarrow> u8 list option" where
  "user_string s va =
     Option.bind (user_read va s) (\<lambda>b. if b = 0 then Some [] else Option.bind (user_string s (va + 1)) (\<lambda>cs. Some (b # cs)))"

definition path_arg :: "u64 \<Rightarrow> 'a paging_scheme \<Rightarrow> u8 list option option" where
  "path_arg p s = (if p = 0 then Some None else map_option Some (user_string s p))"

fun user_store :: "u64 \<Rightarrow> u8 list \<Rightarrow> 'a paging_scheme \<Rightarrow> 'a paging_scheme option" where
  "user_store va [] s = Some s"
| "user_store va (b # bs) s = Option.bind (user_write va b s) (user_store (va + 1) bs)"

definition le_bytes :: "nat \<Rightarrow> u64 \<Rightarrow> u8 list" where
  "le_bytes n v = map (\<lambda>i. ucast (drop_bit (8 * i) v)) [0..<n]"

subsection \<open>Messages\<close>

text \<open>\<^verbatim>\<open>kprintf\<close> with a literal format; \<open>arg_str\<close> is a string argument, passed as the address 0x1000.\<close>

definition kprintf_lit :: "string \<Rightarrow> string \<Rightarrow> va_arg list \<Rightarrow> kernel \<Rightarrow> kernel option" where
  "kprintf_lit fmt arg_str args s =
     map_option (\<lambda>c. s\<lparr>kbd := (kbd s)\<lparr>con := c\<rparr>\<rparr>)
       (kprintf (write_bytes (write_bytes (\<lambda>_. 0) 1 (str fmt)) 0x1000 (str arg_str)) 1 args (con (kbd s)))"

subsection \<open>Program replacement\<close>

text \<open>
  \<^verbatim>\<open>do_execve\<close>. The local structure \<^verbatim>\<open>st\<close> has one field of 8 bytes. \<^verbatim>\<open>ramfs_fstat\<close> takes it for a larger structure
  and stores the inode, the mode and the size behind it, so that \<^verbatim>\<open>st.size\<close> keeps whatever value it has on
  the stack: the argument \<open>junk\<close>. (What those stores overwrite on the stack is not part of the model.)
  \<open>exec_loaded\<close> is its second half, from the check of the number of bytes on.
\<close>

definition exec_loaded :: "u64 \<Rightarrow> u64 \<Rightarrow> int \<Rightarrow> kernel \<Rightarrow> (int \<times> kernel) option" where
  "exec_loaded junk elf_buf read_bytes s4 =
     (if to_u64 read_bytes \<noteq> junk then Some (-1, kfree elf_buf s4)
      else Option.bind (load_elf (current_proc s4) elf_buf s4)
        (\<lambda>(entry_point, s5).
           let s6 = kfree elf_buf s5; tf = pcb_trap_frame (pcbs s6 (current_proc s6))
           in if entry_point = 0 then Some (-1, s6)
              else if tf \<noteq> 0
              then Some (0, s6\<lparr>trap_frames := (trap_frames s6)(tf := (trap_frames s6 tf)\<lparr>tf_rip := entry_point,
                     tf_rsp := USER_STACK_TOP, tf_rdi := 0, tf_rsi := 0\<rparr>)\<rparr>)
              else Some (0, s6)))"

definition do_execve :: "u64 \<Rightarrow> u8 list option \<Rightarrow> kernel \<Rightarrow> (int \<times> kernel) option" where
  "do_execve junk path s =
     Option.bind (ramfs_open path 0 s)
       (\<lambda>(fd, s1).
          if fd < 0 then Some (-1, s1)
          else Option.bind (ramfs_fstat fd s1)
            (\<lambda>_. Option.bind (kmalloc junk s1)
              (\<lambda>(elf_buf, s2).
                 if elf_buf = 0 then map_option (Pair (-1)) (ramfs_close fd s2)
                 else Option.bind (ramfs_read fd (to_int junk) s2)
                   (\<lambda>(read_bytes, bytes, s3).
                      Option.bind (ramfs_close fd (s3\<lparr>kmem := write_bytes (kmem s3) elf_buf bytes\<rparr>))
                        (exec_loaded junk elf_buf read_bytes)))))"

subsection \<open>Input and output\<close>

definition sys_read :: "u64 \<Rightarrow> u64 \<Rightarrow> u64 \<Rightarrow> kernel \<Rightarrow> (u64 \<times> kernel) option" where
  "sys_read arg1 arg2 arg3 s =
     (if arg1 = 0
      then case keyboard_get_char (kbd s) of (c, k) \<Rightarrow>
        if c \<noteq> 0 then map_option (Pair 1) (user_write arg2 c (s\<lparr>kbd := k\<rparr>)) else Some (0, s\<lparr>kbd := k\<rparr>)
      else Option.bind (ramfs_read (to_int arg1) (to_int arg3) s)
        (\<lambda>(r, bytes, s1). map_option (Pair (to_u64 r)) (user_store arg2 bytes s1)))"

fun print_user :: "u64 \<Rightarrow> nat \<Rightarrow> kernel \<Rightarrow> kernel option" where
  "print_user va 0 s = Some s"
| "print_user va (Suc n) s =
     Option.bind (user_read va s) (\<lambda>c. print_user (va + 1) n (s\<lparr>kbd := (kbd s)\<lparr>con := kprint_char c (con (kbd s))\<rparr>\<rparr>))"

definition sys_write :: "u64 \<Rightarrow> u64 \<Rightarrow> u64 \<Rightarrow> kernel \<Rightarrow> (u64 \<times> kernel) option" where
  "sys_write arg1 arg2 arg3 s =
     (if arg1 = 1 \<or> arg1 = 2
      then map_option (Pair (to_u64 (to_int arg3))) (print_user arg2 (nat (to_int arg3)) s)
      else Option.bind (ramfs_write (to_int arg1) (\<lambda>k. case user_read (arg2 + of_nat k) s of None \<Rightarrow> 0 | Some b \<Rightarrow> b) (to_int arg3) s)
        (\<lambda>(r, s1). if list_all (\<lambda>k. user_read (arg2 + of_nat k) s \<noteq> None) [0..<nat r] then Some (to_u64 r, s1) else None))"

definition store_stat :: "u64 \<Rightarrow> int \<times> dummy_stat option \<Rightarrow> kernel \<Rightarrow> (u64 \<times> kernel) option" where
  "store_stat buf r s =
     (case snd r of
        None \<Rightarrow> Some (to_u64 (fst r), s)
      | Some st \<Rightarrow>
          Option.bind (user_store (buf + 8) (le_bytes 8 (st_ino st)) s)
            (\<lambda>s1. Option.bind (user_store (buf + 48) (le_bytes 8 (st_size st)) s1)
              (\<lambda>s2. map_option (Pair (to_u64 (fst r))) (user_store (buf + 24) (le_bytes 4 (ucast (st_mode st))) s2))))"

definition sys_getcwd :: "u64 \<Rightarrow> u64 \<Rightarrow> kernel \<Rightarrow> (u64 \<times> kernel) option" where
  "sys_getcwd buf sz s =
     (if buf = 0 \<or> sz = 0 then Some (0, s)
      else case ramfs_getcwd True sz s of
             None \<Rightarrow> None
           | Some None \<Rightarrow> Some (0, s)
           | Some (Some pth) \<Rightarrow> map_option (Pair buf) (user_store buf (pth @ [0]) s))"

fun store_dirents :: "u64 \<Rightarrow> linux_dirent64 list \<Rightarrow> kernel \<Rightarrow> kernel option" where
  "store_dirents dirp [] s = Some s"
| "store_dirents dirp (d # ds) s =
     Option.bind (user_store (dirp + to_u64 (d_off d - d_reclen d))
         (le_bytes 8 (d_ino d) @ le_bytes 8 (to_u64 (d_off d)) @ le_bytes 2 (to_u64 (d_reclen d)) @ le_bytes 1 (to_u64 (d_type d)) @ d_name d @ [0]) s)
       (store_dirents dirp ds)"

definition sys_getdents64 :: "u64 \<Rightarrow> u64 \<Rightarrow> u64 \<Rightarrow> kernel \<Rightarrow> (u64 \<times> kernel) option" where
  "sys_getdents64 arg1 arg2 arg3 s =
     Option.bind (ramfs_getdents64 (to_int arg1) (to_int arg3) s)
       (\<lambda>(r, ds, s1). map_option (Pair (to_u64 r)) (store_dirents arg2 ds s1))"

subsection \<open>Memory and processes\<close>

definition sys_brk :: "u64 \<Rightarrow> kernel \<Rightarrow> (u64 \<times> kernel) option" where
  "sys_brk new_brk s =
     (if current_proc s = 0 \<or> pcb_mm (pcbs s (current_proc s)) = 0 then None
      else
        let mm = pcb_mm (pcbs s (current_proc s)); cur_brk = mm_heap (mms s mm)
        in if new_brk = 0 then Some (cur_brk, s)
           else if new_brk > cur_brk
           then map_option (\<lambda>(ok, s1). if ok then (new_brk, set_mm mm (\<lambda>m. m\<lparr>mm_heap := new_brk\<rparr>) s1) else (cur_brk, s1))
             (mm_map_range mm cur_brk (new_brk - cur_brk) (VM_READ OR VM_WRITE OR VM_HEAP) s)
           else Some (cur_brk, s))"

definition sys_exit :: "u64 \<Rightarrow> kernel \<Rightarrow> kernel option" where
  "sys_exit arg1 s =
     (if current_proc s = 0 then None
      else
        let s1 = set_pcb (current_proc s) (\<lambda>p. p\<lparr>exit_code := to_int arg1, pcb_state := PROC_ZOMBIE\<rparr>) s
        in Option.bind (kprintf_lit ''Process %d exited with code %d\<newline>'' '''' [VA_int (pid (pcbs s1 (current_proc s1))), VA_int (to_int arg1)] s1) schedule)"

definition sys_getppid :: "kernel \<Rightarrow> (u64 \<times> kernel) option" where
  "sys_getppid s =
     (if current_proc s = 0 then None
      else let par = parent (pcbs s (current_proc s)) in Some (if par \<noteq> 0 then to_u64 (pid (pcbs s par)) else 0, s))"


subsection \<open>The dispatcher\<close>

text \<open>
  The switch of \<^verbatim>\<open>syscall_handler\<close> in three parts, as its comments divide it: files, memory, and processes
  with the rest. The first result is the value for \<^verbatim>\<open>rax\<close>; \<open>None\<close> there means that the call
  does not return to its process.
\<close>

definition returns :: "(u64 \<times> kernel) option \<Rightarrow> (u64 option \<times> kernel) option" where
  "returns r = map_option (\<lambda>(v, s). (Some v, s)) r"

definition sys_proc_call :: "u64 \<Rightarrow> u64 \<Rightarrow> u64 \<Rightarrow> u64 \<Rightarrow> u64 \<Rightarrow> kernel \<Rightarrow> (u64 option \<times> kernel) option" where
  "sys_proc_call junk num arg1 arg2 arg3 s =
     (if num = 24 then returns (map_option (Pair 0) (schedule s))
      else if num = 39
      then returns (if current_proc s = 0 then None else Some (to_u64 (pid (pcbs s (current_proc s))), s))
      else if num = 57 then returns (map_option (\<lambda>(r, s1). (to_u64 r, s1)) (sys_fork s))
      else if num = 59
      then returns (Option.bind (path_arg arg1 s) (\<lambda>path. map_option (\<lambda>(r, s1). (to_u64 r, s1)) (do_execve junk path s)))
      else if num = 60 then map_option (Pair None) (sys_exit arg1 s)
      else if num = 61 then returns (Some (-1, s))
      else if num = 110 then returns (sys_getppid s)
      else if num = 35 \<or> num = 96 then returns (Some (0, s))
      else returns (map_option (Pair (-1)) (kprintf_lit ''Warning: Unknown Syscall %d\<newline>'' '''' [VA_int (to_int num)] s)))"

definition sys_mem_call :: "u64 \<Rightarrow> u64 \<Rightarrow> u64 \<Rightarrow> u64 \<Rightarrow> u64 \<Rightarrow> kernel \<Rightarrow> (u64 option \<times> kernel) option" where
  "sys_mem_call junk num arg1 arg2 arg3 s =
     (if num = 9 \<or> num = 11 then returns (Some (0, s))
      else if num = 12 then returns (sys_brk arg1 s)
      else sys_proc_call junk num arg1 arg2 arg3 s)"

definition sys_call :: "u64 \<Rightarrow> u64 \<Rightarrow> u64 \<Rightarrow> u64 \<Rightarrow> u64 \<Rightarrow> kernel \<Rightarrow> (u64 option \<times> kernel) option" where
  "sys_call junk num arg1 arg2 arg3 s =
     (if num = 0 then returns (sys_read arg1 arg2 arg3 s)
      else if num = 1 then returns (sys_write arg1 arg2 arg3 s)
      else if num = 2
      then returns (Option.bind (path_arg arg1 s) (\<lambda>path. map_option (\<lambda>(r, s1). (to_u64 r, s1)) (ramfs_open path (to_int arg2) s)))
      else if num = 3 then returns (map_option (Pair 0) (ramfs_close (to_int arg1) s))
      else if num = 4
      then returns (Option.bind (path_arg arg1 s) (\<lambda>path. Option.bind (ramfs_stat path s) (\<lambda>r. store_stat arg2 r s)))
      else if num = 5 then returns (Option.bind (ramfs_fstat (to_int arg1) s) (\<lambda>r. store_stat arg2 r s))
      else if num = 8 then returns (Some (-1, s))
      else if num = 79 then returns (sys_getcwd arg1 arg2 s)
      else if num = 80
      then returns (if arg1 = 0 then Some (-1, s)
        else Option.bind (path_arg arg1 s) (\<lambda>path. map_option (\<lambda>(r, s1). (to_u64 r, s1)) (ramfs_chdir path s)))
      else if num = 83
      then returns (if arg1 = 0 then Some (-1, s)
        else Option.bind (path_arg arg1 s) (\<lambda>path. map_option (\<lambda>(r, s1). (to_u64 r, s1)) (ramfs_mkdir path s)))
      else if num = 217 then returns (sys_getdents64 arg1 arg2 arg3 s)
      else sys_mem_call junk num arg1 arg2 arg3 s)"

text \<open>
  \<^verbatim>\<open>syscall_handler\<close> on the trap frame at address \<open>fr\<close>. When a call has switched to another process, \<^verbatim>\<open>rax\<close> of
  this frame is set when its process runs again; nothing reads the frame before.
\<close>

definition syscall_handler :: "u64 \<Rightarrow> u64 \<Rightarrow> kernel \<Rightarrow> kernel option" where
  "syscall_handler junk fr s =
     (let s1 = (if current_proc s \<noteq> 0 then set_pcb (current_proc s) (\<lambda>p. p\<lparr>pcb_trap_frame := fr\<rparr>) s else s);
          f = trap_frames s1 fr
      in map_option
           (\<lambda>(ret, s2). case ret of
              None \<Rightarrow> s2
            | Some v \<Rightarrow> s2\<lparr>trap_frames := (trap_frames s2)(fr := (trap_frames s2 fr)\<lparr>tf_rax := v\<rparr>)\<rparr>)
           (sys_call junk (tf_rax f) (tf_rdi f) (tf_rsi f) (tf_rdx f) s1))"

subsection \<open>Interrupts\<close>

definition exception_messages :: "string list" where
  "exception_messages =
    [''0: Divide-by-zero Error'', ''1: Debug Exception'', ''2: Non-maskable Interrupt'', ''3: Breakpoint'',
     ''4: Overflow'', ''5: Bound Range Exceeded'', ''6: Invalid Opcode'', ''7: Device Not Available'',
     ''8: Double Fault'', ''9: Coprocessor Segment Overrun'', ''10: Invalid TSS'', ''11: Segment Not Present'',
     ''12: Stack-Segment Fault'', ''13: General Protection Fault'', ''14: Page Fault'', ''15: Reserved'',
     ''16: x87 Floating-Point Exception'', ''17: Alignment Check'', ''18: Machine Check'', ''19: SIMD Floating-Point Exception'',
     ''20: Virtualization Exception'', ''21: Control Protection Exception'', ''22: Reserved'', ''23: Reserved'',
     ''24: Reserved'', ''25: Reserved'', ''26: Reserved'', ''27: Reserved'',
     ''28: Reserved'', ''29: Reserved'', ''30: Reserved'', ''31: Reserved'']"

datatype isr_result = Resumed kernel | Halted kernel

definition send_eoi :: "u64 \<Rightarrow> kernel \<Rightarrow> kernel" where
  "send_eoi n s =
     (if n \<ge> 32 \<and> n \<le> 47
      then s\<lparr>port_log := port_log s @ (if n \<ge> 40 then [(0xA0, 0x20)] else []) @ [(0x20, 0x20)]\<rparr>
      else s)"

definition run_isr :: "isr \<Rightarrow> u8 \<Rightarrow> kernel \<Rightarrow> kernel option" where
  "run_isr h scancode s =
     (case h of Timer_isr \<Rightarrow> timer_callback s | Keyboard_isr \<Rightarrow> Some (s\<lparr>kbd := keyboard_handler scancode (kbd s)\<rparr>))"

definition report_exception :: "trap_frame \<Rightarrow> kernel \<Rightarrow> kernel option" where
  "report_exception f s =
     Option.bind (kprintf_lit ''=== CPU EXCEPTION ===\<newline>'' '''' [] s)
       (\<lambda>s1. Option.bind (kprintf_lit ''Exception: %s\<newline>'' (exception_messages ! unat (int_no f)) [VA_u64 0x1000] s1)
         (\<lambda>s2. Option.bind (kprintf_lit ''Error Code: %lx\<newline>'' '''' [VA_u64 (err_code f)] s2)
           (\<lambda>s3. Option.bind (kprintf_lit ''RIP: %lx\<newline>'' '''' [VA_u64 (tf_rip f)] s3)
             (kprintf_lit ''=====================\<newline>'' '''' []))))"

text \<open>\<^verbatim>\<open>isr_handler\<close>; \<open>scancode\<close> is the byte the keyboard controller holds. The table has 256 entries.\<close>

definition isr_handler :: "u64 \<Rightarrow> u8 \<Rightarrow> u64 \<Rightarrow> kernel \<Rightarrow> isr_result option" where
  "isr_handler junk scancode fr s =
     (let n = int_no (trap_frames s fr)
      in if n = 128 then map_option Resumed (syscall_handler junk fr s)
         else if n \<ge> 256 then None
         else
           let s1 = send_eoi n s
           in case interrupt_handlers s1 ! unat n of
                Some h \<Rightarrow> map_option Resumed (run_isr h scancode s1)
              | None \<Rightarrow> if n < 32 then map_option Halted (report_exception (trap_frames s fr) s1) else Some (Resumed s1))"

end
