(* ===== verification/Calls.thy ===== *)
theory Calls
  imports Syscall
begin

text \<open>
  What the interrupts and system calls of \<^verbatim>\<open>arch/interrupts.c\<close> keep and what they do across the components:
  every interrupt keeps the invariant of the file system (frame lemmas for the scheduler, the process
  operations, the loader and the stores to user memory come first), and \<^verbatim>\<open>brk\<close> extends the heap of a
  process.
\<close>

subsection \<open>Steps of the kernel that the file system does not notice\<close>

text \<open>
  The layers above the processes are left alone; a process keeps its descriptors or loses them all;
  its working directory is the root or one that some process had.
\<close>

definition fs_step :: "'a proc_scheme \<Rightarrow> 'a proc_scheme \<Rightarrow> bool" where
  "fs_step s s' \<longleftrightarrow> proc.more s' = proc.more s
     \<and> (\<forall>p. fd_table (pcbs s' p) = fd_table (pcbs s p) \<or> fd_table (pcbs s' p) = replicate 16 None)
     \<and> (\<forall>p. cwd_inode (pcbs s' p) = 0 \<or> (\<exists>q. cwd_inode (pcbs s' p) = cwd_inode (pcbs s q)))"

named_theorems fs_steps \<open>steps that the file system does not notice\<close>

lemma fs_step_refl [fs_steps]: "fs_step s s"
  unfolding fs_step_def by blast

lemma fs_step_trans:
  assumes "fs_step s t" "fs_step t u"
  shows "fs_step s u"
  unfolding fs_step_def
proof (intro conjI allI)
  show "proc.more u = proc.more s" using assms by (simp add: fs_step_def)
  fix p
  show "fd_table (pcbs u p) = fd_table (pcbs s p) \<or> fd_table (pcbs u p) = replicate 16 None" using assms unfolding fs_step_def by metis
  show "cwd_inode (pcbs u p) = 0 \<or> (\<exists>q. cwd_inode (pcbs u p) = cwd_inode (pcbs s q))" using assms unfolding fs_step_def by metis
qed

lemma fs_step_same: "proc.more s' = proc.more s \<Longrightarrow> pcbs s' = pcbs s \<Longrightarrow> fs_step s s'"
  unfolding fs_step_def by auto

lemma fs_step_vmm: "vmm.more s' = vmm.more s \<Longrightarrow> fs_step s s'"
  using proc_layer(1,17) fs_step_same by blast

lemma fs_step_pcb:
  assumes "\<And>r. fd_table (f r) = fd_table r" "\<And>r. cwd_inode (f r) = cwd_inode r"
  shows "fs_step s (set_pcb p f s)"
  unfolding fs_step_def set_pcb_def using assms by auto

lemma fs_step_upd:
  assumes "proc.more s' = proc.more s" "pcbs s' = (pcbs s)(p := r)"
    "fd_table r = fd_table (pcbs s p) \<or> fd_table r = replicate 16 None"
    "cwd_inode r = 0 \<or> cwd_inode r = cwd_inode (pcbs s q)"
  shows "fs_step s s'"
  unfolding fs_step_def using assms by auto

lemma fs_step_ok:
  assumes "fs_step s s'" "ramfs_ok s"
  shows "ramfs_ok s'"
proof -
  have m: "proc.more s' = proc.more s" using assms(1) by (simp add: fs_step_def)
  show ?thesis
    by (rule other_ok [OF assms(2) ramfs_layer(1,2) [OF m]]) (use assms(1) in \<open>auto simp: fs_step_def\<close>)
qed

subsubsection \<open>Scheduling\<close>

lemma list_ops_fields [simp]:
  "pcbs (list_add_before x h s) = pcbs s" "proc.more (list_add_before x h s) = proc.more s"
  "pcbs (list_add_after x h s) = pcbs s" "proc.more (list_add_after x h s) = proc.more s"
  "pcbs (list_del x s) = pcbs s" "proc.more (list_del x s) = proc.more s"
  by (simp_all add: list_add_before_def list_add_after_def list_del_def list_add_between_def Let_def)

lemma sched_parts [fs_steps]:
  "fs_step s (sched_requeue p s)" "fs_step s (sched_switch p n s)" "fs_step s (sched_restore b s)"
  by (auto simp: fs_step_def sched_requeue_def sched_switch_def sched_restore_def switch_to_def set_tss_stack_def set_pcb_def Let_def)

lemma sched_pick_fs: "sched_pick s = Some (n, s') \<Longrightarrow> fs_step s s'"
  by (auto simp: sched_pick_def fs_step_def set_pcb_def Let_def split: if_splits)

lemma schedule_fs:
  assumes "schedule s = Some s'"
  shows "fs_step s s'"
proof -
  let ?s0 = "s\<lparr>if_flag := False\<rparr>"
  have s0: "fs_step s ?s0" by (simp add: fs_step_same)
  show ?thesis
  proof (cases "pcb_state (pcbs ?s0 (current_proc ?s0)) = PROC_RUNNING \<and> current_proc ?s0 \<noteq> idle_proc ?s0 \<and> \<not> time_slice (pcbs ?s0 (current_proc ?s0)) \<le> 0")
    case True
    then have "s' = sched_restore (if_flag s) ?s0" using assms by (auto simp: schedule_def Let_def split: if_splits)
    then show ?thesis using fs_step_trans [OF s0 sched_parts(3)] by simp
  next
    case False
    then have "map_option (\<lambda>(nxt, s2). if current_proc s \<noteq> nxt then sched_switch (current_proc s) nxt s2 else sched_restore (if_flag s) s2)
        (sched_pick (sched_requeue (current_proc s) ?s0)) = Some s'"
      using assms unfolding schedule_def Let_def by (auto simp del: map_option_eq_Some split: if_splits)
    note run = this
    then obtain n s2 where pk: "sched_pick (sched_requeue (current_proc s) ?s0) = Some (n, s2)"
      unfolding map_option_eq_Some by fast
    have s': "s' = (if current_proc s \<noteq> n then sched_switch (current_proc s) n s2 else sched_restore (if_flag s) s2)"
      using run unfolding pk by simp
    have "fs_step s s2" by (rule fs_step_trans [OF s0 fs_step_trans [OF sched_parts(1) sched_pick_fs [OF pk]]])
    moreover have "fs_step s2 s'" unfolding s' by (simp add: sched_parts)
    ultimately show ?thesis by (rule fs_step_trans)
  qed
qed

subsubsection \<open>Processes\<close>

lemma alloc_new_pcb_fs:
  assumes "alloc_new_pcb s = Some (p, s')"
  shows "fs_step s s'"
proof -
  obtain s0 where km: "kmalloc sizeof_pcb s = Some (p, s0)" "p \<noteq> 0"
    using assms by (cases "kmalloc sizeof_pcb s") (auto simp: alloc_new_pcb_def get_next_pid_def split: if_splits)
  have "fs_step s s0" by (rule fs_step_vmm [OF vmm_layer(3) [OF kmalloc_layers [OF km(1)]]])
  moreover have "proc.more s' = proc.more s0" "pcbs s' = (pcbs s0)(p := pcbs s' p)" "fd_table (pcbs s' p) = replicate 16 None" "cwd_inode (pcbs s' p) = 0"
    using assms km by (auto simp: alloc_new_pcb_def get_next_pid_def clear_pcb_def set_pcb_def zero_pcb_def)
  ultimately show ?thesis using fs_step_trans fs_step_upd by blast
qed

lemma free_proc_fs: "free_proc p s = Some s' \<Longrightarrow> fs_step s s'"
proof -
  assume run: "free_proc p s = Some s'"
  show ?thesis
  proof (cases "p = 0")
    case True
    then show ?thesis using run fs_step_refl by (simp add: free_proc_def)
  next
    case False
    define s1 where "s1 = unlink_node (sched_node p) (unlink_node (proc_list_node p) s)"
    obtain s2 s3 where s2: "(if kstack_base (pcbs s1 p) \<noteq> 0 then kstack_free (kstack_base (pcbs s1 p)) s1 else Some s1) = Some s2"
      and s3: "(if pcb_mm (pcbs s2 p) \<noteq> 0 then mm_free (pcb_mm (pcbs s2 p)) s2 else Some s2) = Some s3" and s': "s' = kfree p s3"
      using run False unfolding free_proc_def s1_def [symmetric] Let_def by (auto split: bind_splits)
    have "fs_step s s1" by (rule fs_step_same) (simp_all add: s1_def unlink_node_def)
    moreover have "fs_step s1 s2" using s2 by (auto simp: kstack_free_def fs_steps split: if_splits intro!: fs_step_vmm dest!: kstack_free_loop_layers vmm_layer(3))
    moreover have "fs_step s2 s3" using s3 by (auto simp: fs_steps split: if_splits intro!: fs_step_vmm dest!: mm_free_layers)
    moreover have "fs_step s3 s'" unfolding s' by (rule fs_step_vmm) (simp add: kheap_keeps)
    ultimately show ?thesis using fs_step_trans by blast
  qed
qed

lemma proc_enqueue_fs [fs_steps]: "fs_step s (proc_enqueue p s)"
  by (rule fs_step_same) (simp_all add: proc_enqueue_def Let_def)

lemma set_proc_name_fs [fs_steps]: "fs_step s (set_proc_name p n s)"
  by (rule fs_step_same) (simp_all add: set_proc_name_def Let_def)

lemma fork_kstack_fs:
  assumes "fork_kstack par child s = Some (r, s')"
  shows "fs_step s s'"
proof -
  obtain top s1 where ks: "kstack_init KSTACK_SIZE s = Some (top, s1)"
    using assms by (cases "kstack_init KSTACK_SIZE s") (auto simp: fork_kstack_def)
  have s1: "fs_step s s1" by (rule fs_step_vmm [OF vmm_layer(3) [OF kstack_init_layers [OF ks]]])
  show ?thesis
  proof (cases "top = 0")
    case True
    then have "free_proc child s1 = Some s'" using assms ks by (auto simp: fork_kstack_def)
    then show ?thesis using fs_step_trans [OF s1 free_proc_fs] by blast
  next
    case False
    define tf where "tf = top - sizeof_trap_frame"
    define ctx where "ctx = tf - sizeof_context"
    define s2 where "s2 = s1\<lparr>trap_frames := (trap_frames s1)(tf := (trap_frames s1 (pcb_trap_frame (pcbs s1 par)))\<lparr>tf_rax := 0\<rparr>)\<rparr>"
    define s3 where "s3 = s2\<lparr>contexts := (contexts s2)(ctx := (contexts s2 ctx)\<lparr>c_rip := fork_ret_entry s2\<rparr>)\<rparr>"
    define s4 where "s4 = set_pcb child (\<lambda>r. r\<lparr>kstack_base := top - KSTACK_SIZE, pcb_rsp := ctx, pcb_trap_frame := tf, pcb_context := ctx, pcb_state := PROC_READY\<rparr>) s3"
    have "s' = proc_enqueue child s4"
      using assms ks False unfolding fork_kstack_def by (simp add: Let_def tf_def ctx_def s2_def s3_def s4_def)
    moreover have "fs_step s1 s3" by (rule fs_step_same) (simp_all add: s2_def s3_def)
    moreover have "fs_step s3 s4" unfolding s4_def by (rule fs_step_pcb) simp_all
    ultimately show ?thesis using fs_step_trans s1 proc_enqueue_fs by metis
  qed
qed

lemma sys_fork_fs:
  assumes "sys_fork s = Some (r, s')"
  shows "fs_step s s'"
proof -
  define par where "par = current_proc s"
  obtain child s1 where a: "alloc_new_pcb s = Some (child, s1)" using assms by (cases "alloc_new_pcb s") (auto simp: sys_fork_def)
  have par: "par \<noteq> 0" using assms a by (auto simp: sys_fork_def par_def)
  define s2 where "s2 = set_pcb child (\<lambda>r. r\<lparr>cwd_inode := cwd_inode (pcbs s1 par)\<rparr>) s1"
  define s3 where "s3 = set_pcb child (\<lambda>r. r\<lparr>parent := par\<rparr>) (set_proc_name child (proc_name par) s2)"
  obtain mm s4 where m: "mm_alloc s3 = Some (mm, s4)"
    using assms a par by (cases "mm_alloc s3") (auto simp: sys_fork_def par_def [symmetric] s3_def s2_def)
  define s5 where "s5 = set_pcb child (\<lambda>r. r\<lparr>pcb_mm := mm\<rparr>) s4"
  have run: "Option.bind (mm_copy mm (pcb_mm (pcbs s5 par)) s5)
      (\<lambda>(ok, s6). if \<not> ok then map_option (Pair (-1)) (free_proc child s6) else fork_kstack par child s6) = Some (r, s')"
    using assms a par m unfolding sys_fork_def Let_def par_def [symmetric] by (simp add: s2_def [symmetric] s3_def [symmetric] s5_def [symmetric] del: set_pcb_fields)
  obtain ok s6 where c: "mm_copy mm (pcb_mm (pcbs s5 par)) s5 = Some (ok, s6)"
    using run by (cases "mm_copy mm (pcb_mm (pcbs s5 par)) s5") auto
  have fin: "(if \<not> ok then map_option (Pair (-1)) (free_proc child s6) else fork_kstack par child s6) = Some (r, s')"
    using run unfolding c by simp
  have "fs_step s s1" by (rule alloc_new_pcb_fs [OF a])
  moreover have "fs_step s1 s2" by (rule fs_step_upd [where p = child and q = par]) (auto simp: s2_def set_pcb_def)
  moreover have "fs_step s2 s3" unfolding s3_def by (rule fs_step_trans [OF set_proc_name_fs fs_step_pcb]) simp_all
  moreover have "fs_step s3 s4" by (rule fs_step_vmm [OF mm_alloc_layers [OF m]])
  moreover have "fs_step s4 s5" unfolding s5_def by (rule fs_step_pcb) simp_all
  moreover have "fs_step s5 s6" by (rule fs_step_vmm [OF mm_copy_layers [OF c]])
  moreover have "fs_step s6 s'" using fin free_proc_fs fork_kstack_fs by (cases ok) auto
  ultimately show ?thesis using fs_step_trans by blast
qed

subsubsection \<open>User memory and the loader\<close>

lemma user_write_layers: "user_write va b s = Some s' \<Longrightarrow> vmm.more s' = vmm.more s"
  by (auto simp: user_write_def split: option.splits)

lemma user_memset_layers: "user_memset va b n s = Some s' \<Longrightarrow> vmm.more s' = vmm.more s"
proof (induction va b n s arbitrary: s' rule: user_memset.induct)
  case (1 va b n s)
  show ?case
  proof (cases "n = 0")
    case True
    then show ?thesis using "1.prems" by (simp add: user_memset.simps)
  next
    case False
    then obtain s1 where w: "user_write va b s = Some s1" "user_memset (va + 1) b (n - 1) s1 = Some s'"
      using "1.prems" by (auto simp: user_memset.simps [of va b n s] split: option.splits)
    from "1.IH" [OF False w] user_write_layers [OF w(1)] show ?thesis by simp
  qed
qed

lemma user_memcpy_layers: "user_memcpy va src n s = Some s' \<Longrightarrow> vmm.more s' = vmm.more s"
proof (induction va src n s arbitrary: s' rule: user_memcpy.induct)
  case (1 va src n s)
  show ?case
  proof (cases "n = 0")
    case True
    then show ?thesis using "1.prems" by (simp add: user_memcpy.simps)
  next
    case False
    then obtain s1 where w: "user_write va (kmem s src) s = Some s1" "user_memcpy (va + 1) (src + 1) (n - 1) s1 = Some s'"
      using "1.prems" by (auto simp: user_memcpy.simps [of va src n s] split: option.splits)
    from "1.IH" [OF False w] user_write_layers [OF w(1)] show ?thesis by simp
  qed
qed

lemma user_store_layers: "user_store va bs s = Some s' \<Longrightarrow> vmm.more s' = vmm.more s"
proof (induction bs arbitrary: va s)
  case (Cons b bs)
  from Cons.prems obtain s1 where w: "user_write va b s = Some s1" "user_store (va + 1) bs s1 = Some s'"
    by (cases "user_write va b s") simp_all
  from Cons.IH [OF w(2)] user_write_layers [OF w(1)] show ?case by simp
qed simp

lemma load_segment_layers: "load_segment p e h s = Some (ok, s') \<Longrightarrow> vmm.more s' = vmm.more s"
  by (auto simp: load_segment_def Let_def split: if_splits bind_splits dest!: mm_map_range_layers user_memset_layers user_memcpy_layers)

lemma load_segments_layers: "load_segments p e h i n s = Some (ok, s') \<Longrightarrow> vmm.more s' = vmm.more s"
proof (induction p e h i n s arbitrary: ok s' rule: load_segments.induct)
  case (1 p e h i n s)
  show ?case
  proof (cases "i < n")
    case False
    then show ?thesis using "1.prems" by (simp add: load_segments.simps)
  next
    case True
    then obtain ok1 s1 where w: "load_segment p e (h + sizeof_Elf64_Phdr * of_nat i) s = Some (ok1, s1)"
      and rest: "(if ok1 then load_segments p e h (Suc i) n s1 else Some (False, s1)) = Some (ok, s')"
      using "1.prems" by (simp add: load_segments.simps [of p e h i n s] split: option.splits prod.splits)
    from rest "1.IH" [OF True w refl] load_segment_layers [OF w] show ?thesis by (cases ok1) auto
  qed
qed

lemma load_elf_layers: "load_elf p e s = Some (r, s') \<Longrightarrow> vmm.more s' = vmm.more s"
  by (auto simp: load_elf_def Let_def split: if_splits dest!: load_segments_layers)

subsection \<open>What system calls keep of the file system\<close>

lemma set_kbd_ok [simp]: "ramfs_ok (s\<lparr>kbd := k\<rparr>) = ramfs_ok s" "ramfs_ok (s\<lparr>port_log := l\<rparr>) = ramfs_ok s"
    "ramfs_ok (s\<lparr>trap_frames := t\<rparr>) = ramfs_ok (s :: kernel)"
  by (simp_all add: ramfs_ok_def fds_inv_def)

lemma vmm_ok: "vmm.more s' = vmm.more s \<Longrightarrow> ramfs_ok s \<Longrightarrow> ramfs_ok s'"
  using fs_step_vmm fs_step_ok by blast

lemma user_store_ok: "user_store va bs s = Some s' \<Longrightarrow> ramfs_ok s \<Longrightarrow> ramfs_ok s'"
  using user_store_layers vmm_ok by blast

lemma kprintf_lit_ok: "kprintf_lit fmt arg args s = Some s' \<Longrightarrow> ramfs_ok s \<Longrightarrow> ramfs_ok s'"
  unfolding kprintf_lit_def by auto

lemma print_user_ok: "print_user va n s = Some s' \<Longrightarrow> ramfs_ok s \<Longrightarrow> ramfs_ok s'"
proof (induction n arbitrary: va s)
  case (Suc n)
  from Suc.prems obtain c where "print_user (va + 1) n (s\<lparr>kbd := (kbd s)\<lparr>con := kprint_char c (con (kbd s))\<rparr>\<rparr>) = Some s'"
    by (cases "user_read va s") simp_all
  from Suc.IH [OF this] Suc.prems(2) show ?case by simp
qed simp

lemma sys_read_ok:
  assumes "sys_read a b c s = Some (r, s')" "ramfs_ok s"
  shows "ramfs_ok s'"
proof (cases "a = 0")
  case True
  obtain ch k where g: "keyboard_get_char (kbd s) = (ch, k)" by fastforce
  show ?thesis using assms True vmm_ok [OF user_write_layers, of b ch "s\<lparr>kbd := k\<rparr>" s']
    by (auto simp: sys_read_def g split: if_splits)
next
  case False
  then obtain n bytes s1 where rd: "ramfs_read (to_int a) (to_int c) s = Some (n, bytes, s1)"
    using assms(1) by (cases "ramfs_read (to_int a) (to_int c) s") (auto simp: sys_read_def)
  then have "user_store b bytes s1 = Some s'" using assms(1) False by (auto simp: sys_read_def)
  from user_store_ok [OF this read_ok [OF assms(2) rd]] show ?thesis .
qed

lemma sys_write_ok: "sys_write a b c s = Some (r, s') \<Longrightarrow> ramfs_ok s \<Longrightarrow> ramfs_ok s'"
  by (auto simp: sys_write_def split: if_splits bind_splits dest: print_user_ok write_ok)

lemma store_stat_ok: "store_stat b r s = Some (v, s') \<Longrightarrow> ramfs_ok s \<Longrightarrow> ramfs_ok s'"
  by (auto simp: store_stat_def split: option.splits bind_splits dest!: user_store_ok)

lemma sys_getcwd_ok: "sys_getcwd b n s = Some (v, s') \<Longrightarrow> ramfs_ok s \<Longrightarrow> ramfs_ok s'"
  by (auto simp: sys_getcwd_def split: if_splits option.splits dest: user_store_ok)

lemma store_dirents_ok: "store_dirents d ds s = Some s' \<Longrightarrow> ramfs_ok s \<Longrightarrow> ramfs_ok s'"
proof (induction ds arbitrary: s)
  case (Cons e ds)
  let ?bs = "le_bytes 8 (d_ino e) @ le_bytes 8 (to_u64 (d_off e)) @ le_bytes 2 (to_u64 (d_reclen e)) @ le_bytes 1 (to_u64 (d_type e)) @ d_name e @ [0]"
  from Cons.prems(1) obtain s1 where w: "user_store (d + to_u64 (d_off e - d_reclen e)) ?bs s = Some s1" "store_dirents d ds s1 = Some s'"
    by (cases "user_store (d + to_u64 (d_off e - d_reclen e)) ?bs s") simp_all
  from Cons.IH [OF w(2) user_store_ok [OF w(1) Cons.prems(2)]] show ?case .
qed simp

lemma sys_getdents64_ok: "sys_getdents64 a b c s = Some (v, s') \<Longrightarrow> ramfs_ok s \<Longrightarrow> ramfs_ok s'"
  by (auto simp: sys_getdents64_def split: bind_splits dest: store_dirents_ok getdents_ok)

lemma sys_brk_ok: "sys_brk a s = Some (v, s') \<Longrightarrow> ramfs_ok s \<Longrightarrow> ramfs_ok s'"
  by (rule vmm_ok [of s' s]) (auto simp: sys_brk_def Let_def split: if_splits dest!: mm_map_range_layers)

lemma sys_exit_ok: "sys_exit a s = Some s' \<Longrightarrow> ramfs_ok s \<Longrightarrow> ramfs_ok s'"
proof -
  assume run: "sys_exit a s = Some s'" and ok: "ramfs_ok s"
  define s1 where "s1 = set_pcb (current_proc s) (\<lambda>p. p\<lparr>exit_code := to_int a, pcb_state := PROC_ZOMBIE\<rparr>) s"
  obtain s2 where s2: "kprintf_lit ''Process %d exited with code %d\<newline>'' '''' [VA_int (pid (pcbs s1 (current_proc s1))), VA_int (to_int a)] s1 = Some s2"
    "schedule s2 = Some s'"
    using run unfolding sys_exit_def Let_def s1_def [symmetric] by (auto split: if_splits bind_splits)
  have "ramfs_ok s1" unfolding s1_def by (rule fs_step_ok [OF fs_step_pcb ok]) simp_all
  from fs_step_ok [OF schedule_fs [OF s2(2)] kprintf_lit_ok [OF s2(1) this]] show ?thesis .
qed

lemma exec_loaded_ok:
  assumes run: "exec_loaded junk b n s = Some (r, s')" and ok: "ramfs_ok s"
  shows "ramfs_ok s'"
proof (cases "to_u64 n = junk")
  case False
  then have "s' = kfree b s" using run by (simp add: exec_loaded_def)
  then show ?thesis using vmm_ok [OF _ ok] by (simp add: kheap_keeps)
next
  case True
  then obtain e s5 where ld: "load_elf (current_proc s) b s = Some (e, s5)"
    using run by (cases "load_elf (current_proc s) b s") (auto simp: exec_loaded_def)
  have "ramfs_ok (kfree b s5)" by (rule vmm_ok [OF _ ok]) (simp add: kheap_keeps load_elf_layers [OF ld])
  then show ?thesis using run True ld by (auto simp: exec_loaded_def Let_def split: if_splits)
qed

lemma do_execve_ok:
  assumes run: "do_execve junk path s = Some (r, s')" and ok: "ramfs_ok s"
  shows "ramfs_ok s'"
proof -
  obtain fd s1 where op: "ramfs_open path 0 s = Some (fd, s1)" using run by (cases "ramfs_open path 0 s") (auto simp: do_execve_def)
  have ok1: "ramfs_ok s1" by (rule open_ok [OF ok op])
  show ?thesis
  proof (cases "fd < 0")
    case True
    then show ?thesis using run op ok1 by (simp add: do_execve_def)
  next
    case False
    have run1: "Option.bind (ramfs_fstat fd s1)
            (\<lambda>_. Option.bind (kmalloc junk s1)
              (\<lambda>(elf_buf, s2).
                 if elf_buf = 0 then map_option (Pair (-1)) (ramfs_close fd s2)
                 else Option.bind (ramfs_read fd (to_int junk) s2)
                   (\<lambda>(read_bytes, bytes, s3).
                      Option.bind (ramfs_close fd (s3\<lparr>kmem := write_bytes (kmem s3) elf_buf bytes\<rparr>))
                        (exec_loaded junk elf_buf read_bytes)))) = Some (r, s')"
      using run op False by (simp add: do_execve_def)
    obtain elf_buf s2 where km: "kmalloc junk s1 = Some (elf_buf, s2)"
      using run1 by (cases "ramfs_fstat fd s1"; cases "kmalloc junk s1") auto
    have ok2: "ramfs_ok s2" by (rule vmm_ok [OF vmm_layer(3) [OF kmalloc_layers [OF km]] ok1])
    show ?thesis
    proof (cases "elf_buf = 0")
      case True
      then show ?thesis using run1 km by (auto split: bind_splits dest: close_ok [OF ok2])
    next
      case False
      obtain n bytes s3 where rd: "ramfs_read fd (to_int junk) s2 = Some (n, bytes, s3)"
        using run1 km False by (cases "ramfs_fstat fd s1"; cases "ramfs_read fd (to_int junk) s2") auto
      define s3' where "s3' = s3\<lparr>kmem := write_bytes (kmem s3) elf_buf bytes\<rparr>"
      have ok3: "ramfs_ok s3'" unfolding s3'_def by (rule vmm_ok [OF _ read_ok [OF ok2 rd]]) simp
      obtain s4 where cl: "ramfs_close fd s3' = Some s4" and ld: "exec_loaded junk elf_buf n s4 = Some (r, s')"
        using run1 km False rd by (cases "ramfs_fstat fd s1"; cases "ramfs_close fd s3'") (auto simp: s3'_def)
      show ?thesis by (rule exec_loaded_ok [OF ld close_ok [OF ok3 cl]])
    qed
  qed
qed

lemma sys_proc_call_ok:
  assumes "sys_proc_call junk num a b c s = Some (v, s')" "ramfs_ok s"
  shows "ramfs_ok s'"
proof -
  have sch: "schedule s = Some t \<Longrightarrow> ramfs_ok t" for t using fs_step_ok [OF schedule_fs assms(2)] by blast
  have frk: "sys_fork s = Some (r, t) \<Longrightarrow> ramfs_ok t" for r t using fs_step_ok [OF sys_fork_fs assms(2)] by blast
  show ?thesis using assms
    by (auto simp: sys_proc_call_def returns_def sys_getppid_def Let_def split: if_splits bind_splits
        dest: sch frk do_execve_ok sys_exit_ok kprintf_lit_ok)
qed

lemma sys_call_ok:
  assumes "sys_call junk num a b c s = Some (v, s')" "ramfs_ok s"
  shows "ramfs_ok s'"
  using assms
  by (auto simp: sys_call_def sys_mem_call_def returns_def split: if_splits bind_splits
      dest: sys_read_ok sys_write_ok open_ok close_ok store_stat_ok sys_getcwd_ok chdir_ok mkdir_ok sys_getdents64_ok sys_brk_ok sys_proc_call_ok)

lemma syscall_handler_ok:
  assumes "syscall_handler junk fr s = Some s'" "ramfs_ok s"
  shows "ramfs_ok s'"
proof -
  define s1 where "s1 = (if current_proc s \<noteq> 0 then set_pcb (current_proc s) (\<lambda>p. p\<lparr>pcb_trap_frame := fr\<rparr>) s else s)"
  define f where "f = trap_frames s1 fr"
  obtain v s2 where c: "sys_call junk (tf_rax f) (tf_rdi f) (tf_rsi f) (tf_rdx f) s1 = Some (v, s2)"
    and s': "s' = (case v of None \<Rightarrow> s2 | Some v \<Rightarrow> s2\<lparr>trap_frames := (trap_frames s2)(fr := (trap_frames s2 fr)\<lparr>tf_rax := v\<rparr>)\<rparr>)"
    using assms(1) unfolding syscall_handler_def Let_def s1_def [symmetric] f_def [symmetric] by auto
  have "fs_step s s1" unfolding s1_def by (simp add: fs_step_pcb fs_step_refl)
  from sys_call_ok [OF c fs_step_ok [OF this assms(2)]] show ?thesis by (cases v) (simp_all add: s')
qed


subsection \<open>The program break\<close>

lemma map_range_loop_mms: "mms (snd (map_range_loop r vma start fl pages i s)) = mms s"
proof -
  have rb: "kheap.more (rollback_loop r start i j s) = kheap.more s" for r start i j and s :: "'b vmm_scheme"
    by (induction r start i j s rule: rollback_loop.induct) (subst rollback_loop.simps, simp add: unmap_page_def Let_def layers)
  have "kheap.more (snd (map_range_loop r vma start fl pages i s)) = kheap.more s"
  proof (induction r vma start fl pages i s rule: map_range_loop.induct)
    case (1 r vma start fl pages i s)
    then show ?case by (subst map_range_loop.simps) (auto simp: case_prod_unfold layers rb)
  qed
  then show ?thesis by (rule vmm_layer)
qed

lemma mm_map_range_heap:
  assumes run: "mm_map_range mm va sz fl s = Some (ok, s')"
  shows "mm_heap (mms s' x) = mm_heap (mms s x)"
proof (cases "mm = 0 \<or> sz = 0")
  case True
  then show ?thesis using run by (simp add: mm_map_range_def)
next
  case False
  then obtain vma s1 where km: "kmalloc sizeof_vma_struct s = Some (vma, s1)"
    using run by (cases "kmalloc sizeof_vma_struct s") (auto simp: mm_map_range_def Let_def)
  have m1: "mms s1 = mms s" by (rule vmm_layer(1) [OF kmalloc_layers [OF km]])
  show ?thesis
  proof (cases "vma = 0")
    case True
    then show ?thesis using run False km m1 by (simp add: mm_map_range_def Let_def)
  next
    case v: False
    define s3 where "s3 = set_mm mm (\<lambda>r. r\<lparr>map_count := map_count r + 1\<rparr>) (list_add_before vma (vma_list mm)
      (s1\<lparr>vmas := (vmas s1)(vma := \<lparr>vma_mm = mm, vm_start = ALIGN_DOWN va PAGE_SIZE, vm_end = ALIGN_UP (va + sz) PAGE_SIZE, vm_flags = fl\<rparr>)\<rparr>))"
    have "s' = snd (map_range_loop (mm_pml4 (mms s3 mm)) vma (ALIGN_DOWN va PAGE_SIZE) (pte_flags_of fl)
        ((ALIGN_UP (va + sz) PAGE_SIZE - ALIGN_DOWN va PAGE_SIZE) div PAGE_SIZE) 0 s3)"
      using run False v unfolding mm_map_range_def Let_def km by (simp add: s3_def [symmetric] del: mm_ops_layers)
    then have "mms s' = mms s3" by (simp add: map_range_loop_mms)
    moreover have "mm_heap (mms s3 x) = mm_heap (mms s1 x)"
      by (simp add: s3_def set_mm_def list_add_before_def list_add_between_def Let_def)
    ultimately show ?thesis by (simp add: m1)
  qed
qed

lemma range_pages_inside:
  assumes "unat va + unat sz + 4095 < 2 ^ 64" "sz \<noteq> 0"
    and v: "v \<in> set (range_pages (ALIGN_DOWN va PAGE_SIZE) 0 ((ALIGN_UP (va + sz) PAGE_SIZE - ALIGN_DOWN va PAGE_SIZE) div PAGE_SIZE))"
  shows "\<exists>b. va \<le> b \<and> unat b < unat va + unat sz \<and> same_page v b"
proof -
  define start where "start = ALIGN_DOWN va PAGE_SIZE"
  define n where "n = (ALIGN_UP (va + sz) PAGE_SIZE - start) div PAGE_SIZE"
  have us: "unat start = unat va div 4096 * 4096" unfolding start_def unat_ALIGN_DOWN_page by (simp add: minus_mod_eq_div_mult)
  have uv: "unat (va + sz) = unat va + unat sz" using assms(1) by (simp add: unat_add_no_overflow)
  have ue: "unat (ALIGN_UP (va + sz) PAGE_SIZE) = (unat va + unat sz + 4095) div 4096 * 4096"
    using unat_ALIGN_UP_page [of "va + sz"] assms(1) uv by (simp add: minus_mod_eq_div_mult)
  have pos: "0 < unat sz" using assms(2) by (simp add: unat_gt_0)
  have le: "unat va div 4096 \<le> (unat va + unat sz + 4095) div 4096" by (intro div_le_mono) simp
  have un: "unat n = (unat va + unat sz + 4095) div 4096 - unat va div 4096"
    using le by (simp add: n_def unat_div unat_sub_le word_le_nat_alt us ue diff_mult_distrib [symmetric])
  have no: "unat start + 4096 * unat n < 2 ^ 64"
    unfolding start_def n_def by (rule range_covered(2) [OF assms(1), of va]) (use pos in simp_all)
  obtain k where k: "k < unat n" "v = start + (0 + of_nat k) * PAGE_SIZE" using v by (auto simp: range_pages_def start_def n_def)
  have vk: "unat v = unat va div 4096 * 4096 + 4096 * k" using range_page_unat [OF no k(1)] by (simp add: k(2) us)
  show ?thesis
  proof (cases "k = 0")
    case True
    then have "v = ALIGN_DOWN va PAGE_SIZE" by (simp add: k(2) start_def)
    then show ?thesis using same_page_ALIGN_DOWN [of va] pos by (intro exI [of _ va]) simp
  next
    case False
    then have "unat va \<le> unat v" using vk by linarith
    moreover have "unat v < unat va + unat sz" using vk k(1) un by linarith
    ultimately show ?thesis by (intro exI [of _ v]) (simp add: word_le_nat_alt same_page_def)
  qed
qed

lemma sys_brk_spec:
  fixes s :: kernel
  assumes cp: "current_proc s \<noteq> 0" and mm: "pcb_mm (pcbs s (current_proc s)) = mm" "mm \<noteq> 0" and cur: "mm_heap (mms s mm) = cur" "cur < new_brk"
    and tab: "pt_inv s r" "mm_pml4 (mms s mm) = pa2kva s r"
    and nw: "unat new_brk + 4095 < 2 ^ 64" "unat new_brk - unat cur + 8190 \<le> 2 ^ 48"
    and heap: "heap_inv s xs" "find (\<lambda>x. hb_free s x \<and> hb_size s x \<ge> ALIGN_UP sizeof_vma_struct 8) xs \<noteq> None"
  shows "\<exists>v s'. sys_brk new_brk s = Some (v, s') \<and> mm_heap (mms s' mm) = v \<and> (v = cur \<or> v = new_brk)
    \<and> (v = new_brk \<and> free_frames s' \<noteq> {} \<longrightarrow> pt_inv s' r
       \<and> (\<forall>a. cur \<le> a \<and> a < new_brk \<longrightarrow> (\<exists>f \<in> free_frames s. translate s' r (ALIGN_DOWN a PAGE_SIZE) = Some (pgidx2pa f)))
       \<and> (\<forall>a. (\<forall>b. cur \<le> b \<and> b < new_brk \<longrightarrow> \<not> same_page b a) \<longrightarrow> translate s' r a = translate s r a))"
proof -
  define sz where "sz = new_brk - cur"
  have lt: "unat cur < unat new_brk" using cur(2) by (simp add: word_less_nat_alt)
  have usz: "unat sz = unat new_brk - unat cur" using lt by (simp add: sz_def unat_sub_le word_le_nat_alt)
  have sz: "sz \<noteq> 0" "unat cur + unat sz + 4095 < 2 ^ 64" "unat sz + 8190 \<le> 2 ^ 48" "unat cur + unat sz = unat new_brk"
    using nw lt usz by auto
  let ?fl = "VM_READ OR VM_WRITE OR VM_HEAP"
  let ?pgs = "range_pages (ALIGN_DOWN cur PAGE_SIZE) 0 ((ALIGN_UP (cur + sz) PAGE_SIZE - ALIGN_DOWN cur PAGE_SIZE) div PAGE_SIZE)"
  obtain ok s1 where run: "mm_map_range mm cur sz ?fl s = Some (ok, s1)"
    and mp: "ok \<longrightarrow> pt_inv s1 r \<and> (\<forall>a. (\<forall>v \<in> set ?pgs. \<not> same_page v a) \<longrightarrow> translate s1 r a = translate s r a)
       \<and> (free_frames s1 \<noteq> {} \<longrightarrow> (\<exists>f. inj_on f (set ?pgs) \<and> (\<forall>v \<in> set ?pgs. f v \<in> free_frames s - free_frames s1 \<and> translate s1 r v = Some (pgidx2pa (f v)))))"
    using mm_map_range_spec [OF tab mm(2) sz(1-3) heap, of ?fl] by blast
  have h1: "mm_heap (mms s1 mm) = cur" using mm_map_range_heap [OF run, of mm] cur(1) by simp
  define s' where "s' = (if ok then set_mm mm (\<lambda>m. m\<lparr>mm_heap := new_brk\<rparr>) s1 else s1)"
  have nz: "new_brk \<noteq> 0" using lt by auto
  have eq: "sys_brk new_brk s = Some (if ok then new_brk else cur, s')"
    using cp mm cur(2) run nz by (simp add: sys_brk_def Let_def cur(1) sz_def [symmetric] s'_def)
  have "pages_same s1 s'" by (simp add: s'_def set_mm_def pages_same_def)
  note vw = pages_same_views [OF this]
  have hp: "mm_heap (mms s' mm) = (if ok then new_brk else cur)" using h1 by (simp add: s'_def set_mm_def)
  show ?thesis
  proof (intro exI conjI impI, rule eq, rule hp, simp)
    assume "(if ok then new_brk else cur) = new_brk \<and> free_frames s' \<noteq> {}"
    then have ok: ok and ff: "free_frames s1 \<noteq> {}" using cur(2) vw(1) by (auto split: if_splits)
    obtain f where f: "\<forall>v \<in> set ?pgs. f v \<in> free_frames s - free_frames s1 \<and> translate s1 r v = Some (pgidx2pa (f v))" using mp ok ff by blast
    show "pt_inv s' r" using mp ok vw(4) by simp
    show "\<forall>a. cur \<le> a \<and> a < new_brk \<longrightarrow> (\<exists>f \<in> free_frames s. translate s' r (ALIGN_DOWN a PAGE_SIZE) = Some (pgidx2pa f))"
    proof (intro allI impI)
      fix a assume a: "cur \<le> a \<and> a < new_brk"
      have "ALIGN_DOWN a PAGE_SIZE \<in> set ?pgs" using range_covered(1) [OF sz(2), of a] a sz(4) by (simp add: word_less_nat_alt)
      then show "\<exists>f \<in> free_frames s. translate s' r (ALIGN_DOWN a PAGE_SIZE) = Some (pgidx2pa f)" using f vw(5) by auto
    qed
    show "\<forall>a. (\<forall>b. cur \<le> b \<and> b < new_brk \<longrightarrow> \<not> same_page b a) \<longrightarrow> translate s' r a = translate s r a"
    proof (intro allI impI)
      fix a assume a: "\<forall>b. cur \<le> b \<and> b < new_brk \<longrightarrow> \<not> same_page b a"
      have "\<not> same_page v a" if "v \<in> set ?pgs" for v
        using range_pages_inside [OF sz(2,1) that] a sz(4) by (auto simp: same_page_def word_less_nat_alt)
      then show "translate s' r a = translate s r a" using mp ok vw(5) by simp
    qed
  qed
qed

subsection \<open>Interrupts\<close>

lemma run_isr_ok: "run_isr h sc s = Some s' \<Longrightarrow> ramfs_ok s \<Longrightarrow> ramfs_ok s'"
proof (cases h)
  case Timer_isr
  assume run: "run_isr h sc s = Some s'" and ok: "ramfs_ok s"
  define s0 where "s0 = s\<lparr>ticks := ticks s + 1\<rparr>"
  define s1 where "s1 = set_pcb (current_proc s0) (\<lambda>r. r\<lparr>total_runtime := total_runtime r + 1, time_slice := time_slice r - 1\<rparr>) s0"
  have "fs_step s s0" by (rule fs_step_same) (simp_all add: s0_def)
  moreover have "fs_step s0 s1" unfolding s1_def by (rule fs_step_pcb) simp_all
  moreover have "s' = s0 \<or> s' = s1 \<or> schedule s1 = Some s'"
    using run Timer_isr unfolding run_isr_def isr.case timer_callback_def Let_def s0_def [symmetric] s1_def [symmetric] by (simp split: if_splits)
  ultimately have "fs_step s s'" using fs_step_trans schedule_fs by blast
  then show ?thesis using ok by (rule fs_step_ok)
qed (auto simp: run_isr_def)

lemma report_exception_ok: "report_exception f s = Some s' \<Longrightarrow> ramfs_ok s \<Longrightarrow> ramfs_ok s'"
  unfolding report_exception_def by (auto split: bind_splits dest!: kprintf_lit_ok)

text \<open>
  A step of the machine as the kernel sees it: an interrupt, with or without return, or code that
  runs between two interrupts and changes memory and the trap frames.
\<close>

inductive kernel_step :: "kernel \<Rightarrow> kernel \<Rightarrow> bool" where
  resumed: "isr_handler junk scancode fr s = Some (Resumed s') \<Longrightarrow> kernel_step s s'"
| halted: "isr_handler junk scancode fr s = Some (Halted s') \<Longrightarrow> kernel_step s s'"
| user_code: "kernel_step s (s\<lparr>kmem := m, trap_frames := t\<rparr>)"

lemma isr_handler_ok:
  assumes "isr_handler junk sc fr s = Some (Resumed s') \<or> isr_handler junk sc fr s = Some (Halted s')" "ramfs_ok s"
  shows "ramfs_ok s'"
proof -
  define n where "n = int_no (trap_frames s fr)"
  have ok1: "ramfs_ok (send_eoi n s)" using assms(2) by (simp add: send_eoi_def)
  consider "n = 128" | "n \<noteq> 128" "interrupt_handlers (send_eoi n s) ! unat n = None"
    | h where "n \<noteq> 128" "interrupt_handlers (send_eoi n s) ! unat n = Some h" by fast
  then show ?thesis
  proof cases
    case 1
    then show ?thesis using assms syscall_handler_ok by (auto simp: isr_handler_def n_def [symmetric])
  next
    case 2
    then show ?thesis using assms(1) ok1 report_exception_ok
      unfolding isr_handler_def Let_def n_def [symmetric] by (auto split: if_splits)
  next
    case 3
    then show ?thesis using assms(1) ok1 run_isr_ok
      unfolding isr_handler_def Let_def n_def [symmetric] by (auto split: if_splits)
  qed
qed

lemma kernel_step_ok: "kernel_step s s' \<Longrightarrow> ramfs_ok s \<Longrightarrow> ramfs_ok s'"
proof (induction rule: kernel_step.induct)
  case (user_code s m t)
  then show ?case by (simp add: ramfs_ok_def fds_inv_def)
qed (use isr_handler_ok in blast)+

subsection \<open>An example\<close>

text \<open>Process \<open>0x2000\<close> with its break inside a page; its trap frame at \<open>0x7000\<close> asks for its identifier.\<close>

definition example_machine :: kernel where
  "example_machine = ramfs.extend (example_ramfs\<lparr>pcbs := (pcbs example_ramfs)(0x2000 := (pcbs example_ramfs 0x2000)\<lparr>pid := 7, pcb_mm := 0x5000\<rparr>),
       mms := (mms example_ramfs)(0x5000 := zero_mm\<lparr>mm_pml4 := 0xFFFF800000001000, mm_pml4_pa := 0x1000, mm_heap := 0x400064\<rparr>),
       trap_frames := (trap_frames example_ramfs)(0x7000 := (trap_frames example_ramfs 0x7000)\<lparr>int_no := 128, tf_rax := 39\<rparr>)\<rparr>)
     \<lparr>kbd = example_keyboard, interrupt_handlers = (replicate 256 None)[32 := Some Timer_isr, 33 := Some Keyboard_isr], port_log = []\<rparr>"

lemma example_machine_fields:
  "current_proc example_machine = 0x2000" "pcb_mm (pcbs example_machine 0x2000) = 0x5000" "pid (pcbs example_machine 0x2000) = 7"
  "mms example_machine 0x5000 = zero_mm\<lparr>mm_pml4 := 0xFFFF800000001000, mm_pml4_pa := 0x1000, mm_heap := 0x400064\<rparr>"
  "int_no (trap_frames example_machine 0x7000) = 128" "tf_rax (trap_frames example_machine 0x7000) = 39"
  by (simp_all add: example_machine_def ramfs.extend_def example_ramfs_fields)

lemma example_machine_ok: "ramfs_ok example_machine"
proof -
  have "files example_machine = files example_ramfs" "global_file_table example_machine = global_file_table example_ramfs"
    "fd_table (pcbs example_machine p) = fd_table (pcbs example_ramfs p)" "cwd_inode (pcbs example_machine p) = cwd_inode (pcbs example_ramfs p)" for p
    by (simp_all add: example_machine_def ramfs.extend_def)
  note same = this
  show ?thesis using example_ramfs_ok unfolding ramfs_ok_def fds_inv_def same .
qed

lemma example_machine_mem: "pages_same example_fork example_machine" "heap_inv example_machine [hA, hB]"
  "hb_free example_machine = hb_free example_fork" "hb_size example_machine = hb_size example_fork"
proof -
  show "pages_same example_fork example_machine"
    by (simp add: pages_same_def example_machine_def ramfs.extend_def example_ramfs_def proc.extend_def)
  have "l_next example_machine = l_next example_fork" "l_prev example_machine = l_prev example_fork"
    "kheap_list example_machine = kheap_list example_fork" "kheap_top example_machine = kheap_top example_fork"
    and hs: "hb_size example_machine = hb_size example_fork"
    by (simp_all add: example_machine_def ramfs.extend_def example_ramfs_def proc.extend_def)
  then show "heap_inv example_machine [hA, hB]" using heap_inv_same [of example_machine example_fork] example_fork_heap by simp
  show "hb_size example_machine = hb_size example_fork" by (rule hs)
qed (simp add: example_machine_def ramfs.extend_def example_ramfs_def proc.extend_def)

subsection \<open>Properties\<close>





end
