(* ===== verification/Ulib.thy ===== *)
theory Ulib
  imports KString
begin

text \<open>
  The part of the library of user programs that makes no system calls, \<^verbatim>\<open>usr/lib/string.c\<close>, the number
  routines of \<^verbatim>\<open>usr/lib/stdlib.c\<close> and \<^verbatim>\<open>usr/lib/stdio.c\<close>, over a flat byte memory. The names carry the prefix
  \<open>u_\<close> where the kernel has a routine of the same name.
\<close>

subsection \<open>Strings and memory blocks\<close>

partial_function (option) u_strlen_loop :: "mem \<Rightarrow> u64 \<Rightarrow> u64 \<Rightarrow> u64 option" where
  "u_strlen_loop m str len = (if m (str + len) \<noteq> 0 then u_strlen_loop m str (len + 1) else Some len)"

definition u_strlen :: "mem \<Rightarrow> u64 \<Rightarrow> u64 option" where
  "u_strlen m str = u_strlen_loop m str 0"

partial_function (option) u_strcmp :: "mem \<Rightarrow> u64 \<Rightarrow> u64 \<Rightarrow> int option" where
  "u_strcmp m s1 s2 =
     (if m s1 \<noteq> 0 \<and> m s1 = m s2 then u_strcmp m (s1 + 1) (s2 + 1) else Some (uint (m s1) - uint (m s2)))"

partial_function (option) u_strcpy :: "mem \<Rightarrow> u64 \<Rightarrow> u64 \<Rightarrow> mem option" where
  "u_strcpy m d src =
     (let m' = m(d := m src) in if m src \<noteq> 0 then u_strcpy m' (d + 1) (src + 1) else Some m')"

function u_memset :: "mem \<Rightarrow> u64 \<Rightarrow> u8 \<Rightarrow> u64 \<Rightarrow> mem" where
  "u_memset m p c n = (if n = 0 then m else u_memset (m(p := c)) (p + 1) c (n - 1))"
  by pat_completeness auto
termination
  by (relation "measure (\<lambda>(m, p, c, n). unat n)") simp_all

function u_memcpy :: "mem \<Rightarrow> u64 \<Rightarrow> u64 \<Rightarrow> u64 \<Rightarrow> mem" where
  "u_memcpy m d s n = (if n = 0 then m else u_memcpy (m(d := m s)) (d + 1) (s + 1) (n - 1))"
  by pat_completeness auto
termination
  by (relation "measure (\<lambda>(m, d, s, n). unat n)") simp_all

function u_memmove_back :: "mem \<Rightarrow> u64 \<Rightarrow> u64 \<Rightarrow> u64 \<Rightarrow> mem" where
  "u_memmove_back m lastd lasts n =
     (if n = 0 then m else u_memmove_back (m(lastd := m lasts)) (lastd - 1) (lasts - 1) (n - 1))"
  by pat_completeness auto
termination
  by (relation "measure (\<lambda>(m, d, s, n). unat n)") simp_all

declare u_memset.simps [simp del] u_memcpy.simps [simp del] u_memmove_back.simps [simp del]

definition u_memmove :: "mem \<Rightarrow> u64 \<Rightarrow> u64 \<Rightarrow> u64 \<Rightarrow> mem" where
  "u_memmove m dest src n =
     (if dest < src then u_memcpy m dest src n
      else u_memmove_back m (dest + (n - 1)) (src + (n - 1)) n)"

text \<open>\<^verbatim>\<open>strchr\<close>: 0 for \<^verbatim>\<open>NULL\<close>.\<close>

partial_function (option) u_strchr :: "mem \<Rightarrow> u64 \<Rightarrow> u8 \<Rightarrow> u64 option" where
  "u_strchr m s c = (if m s \<noteq> c then (if m s = 0 then Some 0 else u_strchr m (s + 1) c) else Some s)"

subsection \<open>Tokens\<close>

text \<open>
  \<^verbatim>\<open>strtok\<close> keeps its place in the static variable \<^verbatim>\<open>strtok_backup\<close>, an argument and a result here. The inner
  loop over the delimiters is the one of the kernel's \<^verbatim>\<open>strtok_r\<close>.
\<close>

partial_function (option) u_strtok_skip :: "mem \<Rightarrow> u64 \<Rightarrow> u64 \<Rightarrow> u64 option" where
  "u_strtok_skip m delim backup =
     (if m backup \<noteq> 0 then
        Option.bind (is_delim m (m backup) delim)
          (\<lambda>b. if \<not> b then Some backup else u_strtok_skip m delim (backup + 1))
      else Some backup)"

partial_function (option) u_strtok_scan :: "mem \<Rightarrow> u64 \<Rightarrow> u64 \<Rightarrow> (mem \<times> u64) option" where
  "u_strtok_scan m delim backup =
     (if m backup \<noteq> 0 then
        Option.bind (is_delim m (m backup) delim)
          (\<lambda>b. if b then Some (m(backup := 0), backup + 1) else u_strtok_scan m delim (backup + 1))
      else Some (m, 0))"

definition u_strtok :: "mem \<Rightarrow> u64 \<Rightarrow> u64 \<Rightarrow> u64 \<Rightarrow> (mem \<times> u64 \<times> u64) option" where
  "u_strtok m str delim backup =
     (let b0 = (if str \<noteq> 0 then str else backup)
      in if b0 = 0 then Some (m, 0, b0)
         else Option.bind (u_strtok_skip m delim b0)
           (\<lambda>ret. if m ret = 0 then Some (m, 0, 0)
                  else map_option (\<lambda>(m', b'). (m', ret, b')) (u_strtok_scan m delim ret)))"

subsection \<open>Numbers\<close>

text \<open>
  \<^verbatim>\<open>itoa\<close> of \<^verbatim>\<open>stdio.c\<close>: the digits are stored in reverse order and then reversed in place; the divisor is 10 or
  16. Negating the least \<^verbatim>\<open>int\<close> overflows, the value \<open>None\<close>.
\<close>

definition u_digit :: "u64 \<Rightarrow> u8" where
  "u_digit r = (if r < 10 then ucast r + 48 else ucast r + 97 - 10)"

function u_digits_loop :: "mem \<Rightarrow> u64 \<Rightarrow> u64 \<Rightarrow> u64 \<Rightarrow> mem \<times> u64" where
  "u_digits_loop m p ud divisor =
     (let m' = m(p := u_digit (ud mod divisor)); ud' = ud div divisor
      in if ud' \<noteq> 0 \<and> 2 \<le> divisor then u_digits_loop m' (p + 1) ud' divisor else (m', p + 1))"
  by pat_completeness auto
termination
  by (relation "measure (\<lambda>(m, p, ud, divisor). unat ud)") (auto intro!: div_decreases simp: not_less)

function u_reverse_loop :: "mem \<Rightarrow> u64 \<Rightarrow> u64 \<Rightarrow> mem" where
  "u_reverse_loop m p1 p2 =
     (if p1 < p2 then u_reverse_loop (m(p1 := m p2, p2 := m p1)) (p1 + 1) (p2 - 1) else m)"
  by pat_completeness auto
termination
proof (relation "measure (\<lambda>(m, p1, p2). unat p2 - unat p1)", simp, clarsimp)
  fix p1 p2 :: u64
  assume "p1 < p2"
  then have "unat p1 < unat p2" "unat p2 < 2 ^ 64" using unat_lt_2p64 by (simp_all add: word_less_nat_alt)
  moreover have "unat (p1 + 1) = unat p1 + 1" using calculation unat_add_no_overflow [of p1 1] by simp
  moreover have "unat (p2 - 1) = unat p2 - 1" using calculation(1) by (intro unat_minus_one) auto
  ultimately show "unat (p2 - 1) - unat (p1 + 1) < unat p2 - unat p1" by linarith
qed

declare u_digits_loop.simps [simp del] u_reverse_loop.simps [simp del]

definition u_itoa :: "mem \<Rightarrow> u64 \<Rightarrow> int \<Rightarrow> int \<Rightarrow> mem option" where
  "u_itoa m buf base d =
     (let neg = (base = 10 \<and> d < 0)
      in if neg \<and> d = - (2 ^ 31) then None
         else
           let m0 = (if neg then m(buf := 45) else m);
               start = (if neg then buf + 1 else buf);
               ud = (if neg then to_u64 (- d) else to_u64 d);
               divisor = (if \<not> neg \<and> base = 16 then 16 else 10)
           in case u_digits_loop m0 start ud divisor of (m1, p) \<Rightarrow>
                Some (u_reverse_loop (m1(p := 0)) start (p - 1)))"

text \<open>
  \<^verbatim>\<open>atoi\<close>: a minus sign in front, then all digits; other characters are skipped. \<^verbatim>\<open>res * 10 + str[i]\<close> is
  computed before \<^verbatim>\<open>'0'\<close> is subtracted; when it exceeds the largest \<^verbatim>\<open>int\<close> it overflows, the value \<open>None\<close>.
\<close>

partial_function (option) u_atoi_loop :: "mem \<Rightarrow> u64 \<Rightarrow> int \<Rightarrow> int option" where
  "u_atoi_loop m p res =
     (if m p = 0 then Some res
      else if 48 \<le> m p \<and> m p \<le> 57
      then if res * 10 + uint (m p) \<ge> 2 ^ 31 then None else u_atoi_loop m (p + 1) (res * 10 + uint (m p) - 48)
      else u_atoi_loop m (p + 1) res)"

definition u_atoi :: "mem \<Rightarrow> u64 \<Rightarrow> int option" where
  "u_atoi m str =
     (if m str = 45 then map_option uminus (u_atoi_loop m (str + 1) 0) else u_atoi_loop m str 0)"

subsection \<open>Agreement with the kernel's routines\<close>

lemma u_memset_eq: "u_memset m p c n = memset m p c n"
proof (induction m p c n rule: memset.induct)
  case (1 m p c n)
  then show ?case unfolding memset.simps [of m p c n] u_memset.simps [of m p c n] by (simp del: fun_upd_apply)
qed

lemma u_memcpy_eq: "u_memcpy m d s n = memcpy m d s n"
proof (induction m d s n rule: memcpy.induct)
  case (1 m d s n)
  then show ?case unfolding memcpy.simps [of m d s n] u_memcpy.simps [of m d s n] by (simp del: fun_upd_apply)
qed

lemma u_strlen_cstr: "cstr m p s \<Longrightarrow> u_strlen m p = Some (of_nat (length s))"
proof -
  have "cstr m (p + n) s \<Longrightarrow> u_strlen_loop m p n = Some (n + of_nat (length s))" for n
  proof (induction s arbitrary: n)
    case Nil
    then show ?case by (simp add: u_strlen_loop.simps)
  next
    case (Cons c cs)
    then have "u_strlen_loop m p (n + 1) = Some (n + 1 + of_nat (length cs))" by (simp add: add.assoc)
    with Cons.prems show ?case by (simp add: u_strlen_loop.simps [of m p n] add.assoc)
  qed
  from this [of 0] show "cstr m p s \<Longrightarrow> u_strlen m p = Some (of_nat (length s))" by (simp add: u_strlen_def)
qed

lemma u_strcmp_cstr: "cstr m a s \<Longrightarrow> cstr m b t \<Longrightarrow> u_strcmp m a b = Some (bytes_diff s t)"
proof (induction s t arbitrary: a b rule: bytes_diff.induct)
  case (4 c cs d ds)
  then show ?case by (auto simp: u_strcmp.simps [of m a b])
qed (auto simp: u_strcmp.simps)

lemma u_strcmp_equal: "cstr m a s \<Longrightarrow> cstr m b t \<Longrightarrow> u_strcmp m a b = Some 0 \<longleftrightarrow> s = t"
  by (simp add: u_strcmp_cstr bytes_diff_zero_iff cstr_nonzero)

subsection \<open>Moving memory\<close>

lemma u_memmove_back_eq:
  assumes "ld = ls \<or> n \<le> ls - ld"
  shows "u_memmove_back m ld ls n = (\<lambda>x. if ld - x < n then m (ls - (ld - x)) else m x)"
  using assms
proof (induction m ld ls n rule: u_memmove_back.induct)
  case (1 m ld ls n)
  show ?case
  proof (cases "n = 0")
    case True
    then show ?thesis by (simp add: u_memmove_back.simps)
  next
    case False
    have step: "y < n \<longleftrightarrow> y = 0 \<or> y - 1 < n - 1" for y :: u64 using offset_step [OF False, of y 0] by simp
    have "ld - 1 = ls - 1 \<or> n - 1 \<le> (ls - 1) - (ld - 1)"
      using "1.prems" False by (auto simp: word_le_nat_alt unat_minus_one)
    from "1.IH" [OF False this] have IH: "u_memmove_back (m(ld := m ls)) (ld - 1) (ls - 1) (n - 1) =
        (\<lambda>x. if ld - 1 - x < n - 1 then (m(ld := m ls)) (ls - 1 - (ld - 1 - x)) else (m(ld := m ls)) x)" .
    have keep: "ls - (ld - x) = ld \<Longrightarrow> ld - x < n \<Longrightarrow> ld = ls" for x
    proof -
      assume e: "ls - (ld - x) = ld" and lt: "ld - x < n"
      have "ls - ld = ls - (ld - x) - ld + (ld - x)" by simp
      then have "ls - ld = ld - x" unfolding e by simp
      then have "ls - ld < n" using lt by simp
      with "1.prems" show "ld = ls" by auto
    qed
    have e: "ld - 1 - x = ld - x - 1" "ls - 1 - (ld - x - 1) = ls - (ld - x)" for x by (simp_all add: algebra_simps)
    have "(if ld - x - 1 < n - 1 then (m(ld := m ls)) (ls - (ld - x)) else (m(ld := m ls)) x)
        = (if ld - x < n then m (ls - (ld - x)) else m x)" for x
      using step [of "ld - x"] keep [of x] by auto
    with IH [unfolded e] have "u_memmove_back (m(ld := m ls)) (ld - 1) (ls - 1) (n - 1) = (\<lambda>x. if ld - x < n then m (ls - (ld - x)) else m x)"
      by (rule trans [OF _ ext])
    then show ?thesis unfolding u_memmove_back.simps [of m ld ls n] using False by (simp del: fun_upd_apply)
  qed
qed

lemma u_memmove_eq:
  assumes "unat dest + unat n \<le> 2 ^ 64" "unat src + unat n \<le> 2 ^ 64"
  shows "u_memmove m dest src n = (\<lambda>x. if x - dest < n then m (src + (x - dest)) else m x)"
proof (cases "dest < src")
  case True
  then have "n \<le> dest - src" using assms(2) by (simp add: word_le_nat_alt word_less_nat_alt unat_sub_if')
  then show ?thesis using True by (simp add: u_memmove_def u_memcpy_eq memcpy_eq)
next
  case False
  have "dest = src \<or> n \<le> src - dest"
    using assms(1) False by (cases "dest = src") (auto simp: word_le_nat_alt word_less_nat_alt unat_sub_if' word_unat_eq_iff)
  then have "dest + (n - 1) = src + (n - 1) \<or> n \<le> (src + (n - 1)) - (dest + (n - 1))" by simp
  from u_memmove_back_eq [OF this]
  have b: "u_memmove m dest src n = (\<lambda>x. if dest + (n - 1) - x < n then m (src + (n - 1) - (dest + (n - 1) - x)) else m x)"
    using False by (simp add: u_memmove_def)
  have r: "(n - 1) - y < n \<longleftrightarrow> y < n" if "n \<noteq> 0" for y
  proof -
    have u: "unat (n - 1) = unat n - 1" "0 < unat n" using that unat_minus_one [OF that] by (simp_all add: unat_gt_0)
    show ?thesis
    proof (cases "unat y \<le> unat (n - 1)")
      case True
      then show ?thesis using u unat_sub_le [of y "n - 1"] by (simp add: word_less_nat_alt word_le_nat_alt)
    next
      case False
      then have "unat (n - 1 - y) = unat (n - 1) + 18446744073709551616 - unat y" by (simp add: unat_sub_if')
      then show ?thesis unfolding word_less_nat_alt using u False unat_lt_2p64 [of y] by (intro iffI; linarith)
    qed
  qed
  have e1: "dest + (n - 1) - x = (n - 1) - (x - dest)" and e2: "src + (n - 1) - ((n - 1) - (x - dest)) = src + (x - dest)" for x
    by (simp_all add: algebra_simps)
  show ?thesis
  proof (cases "n = 0")
    case True
    then show ?thesis unfolding b by (simp add: fun_eq_iff)
  next
    case False
    show ?thesis unfolding b e1 e2 r [OF False] ..
  qed
qed

subsection \<open>The static place of the tokens\<close>

text \<open>\<^verbatim>\<open>strtok\<close> forgets its place at the end of the string, \<^verbatim>\<open>strtok_r\<close> points to the final zero byte.\<close>

definition same_place :: "mem \<Rightarrow> u64 \<Rightarrow> u64 \<Rightarrow> bool" where
  "same_place m backup save \<longleftrightarrow> backup = save \<or> backup = 0 \<and> m save = 0"

lemma u_strtok_skip_cstr:
  assumes "cstr m delim ds" "cstr m p s"
  shows "u_strtok_skip m delim p = Some (p + of_nat (length (takeWhile (\<lambda>c. c \<in> set ds) s)))"
  using assms(2)
proof (induction s arbitrary: p)
  case Nil
  then show ?case by (simp add: u_strtok_skip.simps)
next
  case (Cons c cs)
  then show ?case
    by (simp add: u_strtok_skip.simps [of m delim p] is_delim_cstr [OF assms(1)] add.assoc)
qed

lemma u_strtok_scan_cstr:
  assumes "cstr m delim ds" "cstr m p s"
  shows "\<exists>m' b'. u_strtok_scan m delim p = Some (m', b') \<and> (\<exists>s'. scan_token m delim p = Some (m', s') \<and> same_place m' b' s')"
  using assms(2)
proof (induction s arbitrary: p)
  case Nil
  then show ?case by (simp add: u_strtok_scan.simps scan_token.simps same_place_def)
next
  case (Cons c cs)
  then show ?case
    by (auto simp: u_strtok_scan.simps [of m delim p] scan_token.simps [of m delim p] is_delim_cstr [OF assms(1)] same_place_def)
qed

lemma u_strtok_cstr:
  assumes "cstr m delim ds" "cstr m p s" "str = p \<or> str = 0 \<and> save = p" "p \<noteq> 0" "str = 0 \<Longrightarrow> same_place m backup save"
  shows "\<exists>m' t b' s'. u_strtok m str delim backup = Some (m', t, b') \<and> strtok_r m str delim save = Some (m', t, s') \<and> same_place m' b' s'"
proof -
  have src: "(if str = 0 then save else str) = p" using assms(3,4) by auto
  define q where "q = p + of_nat (length (takeWhile (\<lambda>c. c \<in> set ds) s))"
  have sk: "skip_delims m delim p = Some q" "u_strtok_skip m delim p = Some q"
    unfolding q_def by (rule skip_delims_cstr [OF assms(1,2)], rule u_strtok_skip_cstr [OF assms(1,2)])
  have q: "cstr m q (dropWhile (\<lambda>c. c \<in> set ds) s)" unfolding q_def
    using cstr_append [of m p "takeWhile (\<lambda>c. c \<in> set ds) s" "dropWhile (\<lambda>c. c \<in> set ds) s"] assms(2) by simp
  show ?thesis
  proof (cases "str = 0 \<and> backup = 0")
    case True
    then have z: "m p = 0" using assms(3-5) by (auto simp: same_place_def)
    then have "strtok_r m str delim save = Some (m, 0, p)" using src by (simp add: strtok_r_def skip_delims.simps [of m delim p])
    then show ?thesis using True z by (simp add: u_strtok_def same_place_def)
  next
    case False
    then have b0: "(if str \<noteq> 0 then str else backup) = p" using assms(3-5) by (auto simp: same_place_def)
    obtain m' b' s' where sc: "u_strtok_scan m delim q = Some (m', b')" "scan_token m delim q = Some (m', s')" "same_place m' b' s'"
      using u_strtok_scan_cstr [OF assms(1) q] by blast
    show ?thesis unfolding u_strtok_def strtok_r_def src b0 Let_def using sk sc assms(4)
      by (cases "m q = 0") (simp_all add: same_place_def)
  qed
qed

subsection \<open>Numbers as text\<close>

lemma u_reverse_loop_eq:
  assumes "p1 \<le> p2 \<or> p1 = p2 + 1 \<and> p1 \<noteq> 0"
  shows "u_reverse_loop m p1 p2 = (\<lambda>x. if p1 \<le> x \<and> x \<le> p2 then m (p1 + (p2 - x)) else m x)"
  using assms
proof (induction m p1 p2 rule: u_reverse_loop.induct)
  case (1 m p1 p2)
  show ?case
  proof (cases "p1 < p2")
    case False
    then have "p1 = p2 \<or> p2 < p1" using "1.prems" by auto
    then show ?thesis using False by (auto simp: u_reverse_loop.simps fun_eq_iff)
  next
    case True
    let ?m = "m(p1 := m p2, p2 := m p1)"
    have lt: "unat p1 < unat p2" using True by (simp add: word_less_nat_alt)
    have u1: "unat (p1 + 1) = unat p1 + 1" using unat_add_no_overflow [of p1 1] lt unat_lt_2p64 [of p2] by simp
    have u2: "unat (p2 - 1) = unat p2 - 1" using lt by (intro unat_minus_one) auto
    have pre: "p1 + 1 \<le> p2 - 1 \<or> p1 + 1 = p2 - 1 + 1 \<and> p1 + 1 \<noteq> 0"
    proof (cases "unat p2 = unat p1 + 1")
      case True
      then have "p2 = p1 + 1" using u1 by (simp add: word_unat_eq_iff)
      then show ?thesis using u1 by (auto simp: unat_eq_0 [symmetric] simp del: unat_eq_0)
    next
      case False
      then have "unat (p1 + 1) \<le> unat (p2 - 1)" using lt u1 u2 by linarith
      then show ?thesis by (simp add: word_le_nat_alt)
    qed
    have IH: "u_reverse_loop ?m (p1 + 1) (p2 - 1) = (\<lambda>x. if p1 + 1 \<le> x \<and> x \<le> p2 - 1 then ?m (p1 + 1 + (p2 - 1 - x)) else ?m x)"
      by (rule "1.IH" [OF True pre])
    have "(if p1 + 1 \<le> x \<and> x \<le> p2 - 1 then ?m (p1 + 1 + (p2 - 1 - x)) else ?m x) = (if p1 \<le> x \<and> x \<le> p2 then m (p1 + (p2 - x)) else m x)" for x
    proof -
      have e: "p1 + 1 + (p2 - 1 - x) = p1 + (p2 - x)" by (simp add: algebra_simps)
      consider "x = p1" | "x = p2" | "p1 + 1 \<le> x" "x \<le> p2 - 1" | "\<not> (p1 \<le> x \<and> x \<le> p2)"
        unfolding word_le_nat_alt word_unat_eq_iff u1 u2 by linarith
      then show ?thesis
      proof cases
        case 3
        then have ux: "unat p1 < unat x" "unat x < unat p2" using u1 u2 lt by (auto simp: word_le_nat_alt)
        then have "unat (p2 - x) = unat p2 - unat x" by (simp add: unat_sub_le word_le_nat_alt)
        then have "unat (p1 + (p2 - x)) = unat p1 + (unat p2 - unat x)"
          using ux unat_lt_2p64 [of p2] by (simp add: unat_add_no_overflow)
        then have "p1 + (p2 - x) \<noteq> p1" "p1 + (p2 - x) \<noteq> p2" using ux by auto
        then show ?thesis using 3 ux e by (simp add: word_le_nat_alt)
      next
        case 4
        then show ?thesis using u1 u2 lt True by (auto simp: word_le_nat_alt)
      qed (use lt u1 u2 True in \<open>auto simp: word_le_nat_alt\<close>)
    qed
    then show ?thesis using IH True by (subst u_reverse_loop.simps) (simp add: fun_eq_iff del: fun_upd_apply)
  qed
qed

function u_digits :: "u64 \<Rightarrow> u64 \<Rightarrow> u8 list" where
  "u_digits divisor ud = u_digit (ud mod divisor) # (if ud div divisor \<noteq> 0 \<and> 2 \<le> divisor then u_digits divisor (ud div divisor) else [])"
  by pat_completeness auto
termination
  by (relation "measure (\<lambda>(divisor, ud). unat ud)") (auto intro!: div_decreases simp: not_less)

declare u_digits.simps [simp del]

lemma u_digits_loop_eq:
  "u_digits_loop m p ud divisor = (write_bytes m p (u_digits divisor ud), p + of_nat (length (u_digits divisor ud)))"
proof (induction m p ud divisor rule: u_digits_loop.induct)
  case (1 m p ud divisor)
  show ?case
  proof (cases "ud div divisor \<noteq> 0 \<and> 2 \<le> divisor")
    case True
    from "1.IH" [OF refl refl this] show ?thesis
      unfolding u_digits_loop.simps [of m p ud] u_digits.simps [of divisor ud] Let_def using True
      by (simp add: add.assoc del: fun_upd_apply)
  next
    case False
    then show ?thesis unfolding u_digits_loop.simps [of m p ud] u_digits.simps [of divisor ud] Let_def if_not_P [OF False] by (simp add: fun_upd_def)
  qed
qed

lemma u_reverse_text:
  assumes "ds \<noteq> []" "unat p + length ds < 2 ^ 64"
  shows "u_reverse_loop ((write_bytes m p ds)(p + of_nat (length ds) := 0)) p (p + of_nat (length ds) - 1) = write_bytes m p (rev ds @ [0])"
proof -
  define n where "n = length ds"
  define e where "e = p + of_nat n"
  have n: "0 < n" "unat p + n < 2 ^ 64" using assms by (simp_all add: n_def)
  have un: "unat (of_nat n :: u64) = n" using n by (simp add: unat_of_nat)
  have ue: "unat e = unat p + n" using n un by (simp add: e_def unat_add_no_overflow)
  have ue1: "unat (e - 1) = unat p + n - 1" using ue n by (subst unat_minus_one) auto
  have pe: "p \<le> e - 1" using ue1 n by (simp add: word_le_nat_alt)
  have off: "unat (x - p) = unat x - unat p" if "p \<le> x" for x using that by (simp add: unat_sub_le word_le_nat_alt)
  have big: "n < unat (x - p)" if "\<not> p \<le> x" for x
    using that n unat_lt_2p64 [of p] by (auto simp: word_le_nat_alt unat_sub_if')
  have w: "write_bytes m p ds = (\<lambda>x. if unat (x - p) < n then ds ! unat (x - p) else m x)"
      "write_bytes m p (rev ds @ [0]) = (\<lambda>x. if unat (x - p) < n + 1 then (rev ds @ [0]) ! unat (x - p) else m x)"
    using n by (subst write_bytes_eq; simp add: n_def)+
  have "(if p \<le> x \<and> x \<le> e - 1 then ((write_bytes m p ds)(e := 0)) (p + (e - 1 - x)) else ((write_bytes m p ds)(e := 0)) x)
      = write_bytes m p (rev ds @ [0]) x" for x
  proof -
    consider "\<not> p \<le> x" | "p \<le> x" "unat x < unat p + n" | "x = e" | "p \<le> x" "unat p + n < unat x"
      using ue by (force simp: word_unat_eq_iff)
    then show ?thesis
    proof cases
      case 1
      then show ?thesis using big [of x] ue by (auto simp: w word_le_nat_alt)
    next
      case 2
      have le: "x \<le> e - 1" using 2 ue1 by (simp add: word_le_nat_alt)
      then have "unat (e - 1 - x) = unat p + n - 1 - unat x" using ue1 by (simp add: unat_sub_le)
      moreover have "p + (e - 1 - x) - p = e - 1 - x" by simp
      ultimately have k: "unat (p + (e - 1 - x) - p) = n - 1 - unat (x - p)"
        using off [OF 2(1)] 2(1) unfolding word_le_nat_alt by simp
      have ne: "p + (e - 1 - x) \<noteq> e"
      proof
        assume "p + (e - 1 - x) = e"
        then have "unat (e - p) = n - 1 - unat (x - p)" using k by (simp only:)
        moreover have "e - p = of_nat n" by (simp add: e_def)
        ultimately show False using un n by simp
      qed
      show ?thesis using 2 le k ne off [OF 2(1)] n by (simp add: w nth_append rev_nth n_def [symmetric]) (auto simp: n_def word_le_nat_alt rev_nth)
    next
      case 3
      have "\<not> e \<le> e - 1" using ue ue1 n by (simp add: word_le_nat_alt)
      then show ?thesis using 3 un by (simp add: w e_def nth_append n_def)
    next
      case 4
      then have "\<not> x \<le> e - 1" "x \<noteq> e" "n < unat (x - p)" using ue ue1 off [OF 4(1)] by (auto simp: word_le_nat_alt)
      then show ?thesis by (simp add: w)
    qed
  qed
  then show ?thesis unfolding n_def [symmetric] e_def [symmetric] u_reverse_loop_eq [OF disjI1 [OF pe]] by (simp add: fun_eq_iff del: fun_upd_apply)
qed

text \<open>What \<^verbatim>\<open>atoi\<close> computes from the bytes of a string.\<close>

fun atoi_bytes :: "u8 list \<Rightarrow> int \<Rightarrow> int option" where
  "atoi_bytes [] res = Some res"
| "atoi_bytes (c # cs) res =
     (if 48 \<le> c \<and> c \<le> 57 then if res * 10 + uint c \<ge> 2 ^ 31 then None else atoi_bytes cs (res * 10 + uint c - 48)
      else atoi_bytes cs res)"

lemma u_atoi_loop_cstr: "cstr m p s \<Longrightarrow> u_atoi_loop m p res = atoi_bytes s res"
proof (induction s arbitrary: p res)
  case Nil
  then show ?case by (simp add: u_atoi_loop.simps)
next
  case (Cons c cs)
  then show ?case by (simp add: u_atoi_loop.simps [of m p])
qed

lemma atoi_bytes_append: "atoi_bytes (xs @ ys) res = Option.bind (atoi_bytes xs res) (atoi_bytes ys)"
  by (induction xs arbitrary: res) simp_all

lemma u_digit_decimal:
  assumes "r < 10"
  shows "uint (u_digit r) = int (unat r) + 48" "48 \<le> u_digit r" "u_digit r \<le> 57" "u_digit r \<noteq> 0" "u_digit r \<noteq> 45"
proof -
  have r: "unat r < 10" using assms by (simp add: word_less_nat_alt)
  then have uc: "unat (ucast r :: u8) = unat r" by (simp add: unsigned_ucast_eq take_bit_nat_eq_self)
  then have u: "unat (u_digit r) = unat r + 48" using assms r by (simp add: u_digit_def unat_word_ariths)
  then show "uint (u_digit r) = int (unat r) + 48" unfolding uint_nat by simp
  show "48 \<le> u_digit r" "u_digit r \<le> 57" "u_digit r \<noteq> 0" "u_digit r \<noteq> 45"
    using u r by (auto simp: word_le_nat_alt)
qed

lemma decimal_step: "unat ((v :: u64) mod 10) = unat v mod 10" "unat (v div 10) = unat v div 10" "v mod 10 < 10"
  by (simp_all add: unat_mod_distrib unat_div_distrib word_less_nat_alt)

lemma u_digits_decimal: "c \<in> set (u_digits 10 v) \<Longrightarrow> 48 \<le> c \<and> c \<le> 57 \<and> c \<noteq> 0 \<and> c \<noteq> 45"
proof (induction "10 :: u64" v rule: u_digits.induct)
  case (1 ud)
  then show ?case using u_digit_decimal [OF decimal_step(3) [of ud]]
    by (auto simp: u_digits.simps [of 10 ud] split: if_splits)
qed

lemma u_digits_length: "unat v < 10 ^ Suc k \<Longrightarrow> length (u_digits 10 v) \<le> Suc k"
proof (induction k arbitrary: v)
  case 0
  then have "v div 10 = 0" by (simp add: word_unat_eq_iff decimal_step)
  then show ?case by (simp add: u_digits.simps)
next
  case (Suc k)
  have "unat (v div 10) < 10 ^ Suc k" using Suc.prems by (simp add: decimal_step less_mult_imp_div_less)
  from Suc.IH [OF this] show ?case by (simp add: u_digits.simps [of 10 v])
qed

lemma atoi_u_digits: "unat v + 48 < 2 ^ 31 \<Longrightarrow> atoi_bytes (rev (u_digits 10 v)) 0 = Some (int (unat v))"
proof (induction "10 :: u64" v rule: u_digits.induct)
  case (1 ud)
  note d = u_digit_decimal [OF decimal_step(3) [of ud]] and dm = decimal_step [of ud]
  have "unat ud + 48 < 2147483648" using "1.prems" by simp
  then have lt: "int (unat ud) + 48 < 2147483648" by linarith
  have val: "int (unat ud div 10) * 10 + (int (unat ud mod 10) + 48) = int (unat ud) + 48" by (simp add: zdiv_int zmod_int)
  show ?case
  proof (cases "ud div 10 = 0")
    case True
    then have "unat ud div 10 = 0" using dm(2) by simp
    then have "unat ud mod 10 = unat ud" by (simp add: div_eq_0_iff)
    then show ?thesis using True d lt dm(1) by (simp add: u_digits.simps [of 10 ud])
  next
    case False
    then have "atoi_bytes (rev (u_digits 10 (ud div 10))) 0 = Some (int (unat (ud div 10)))"
      using "1.hyps" "1.prems" dm(2) by simp
    then show ?thesis using False d lt val dm by (simp add: u_digits.simps [of 10 ud] atoi_bytes_append)
  qed
qed

lemma u_itoa_text:
  assumes "unat buf + 12 < 2 ^ 64" "\<bar>d\<bar> < 2 ^ 31"
  shows "u_itoa m buf 10 d = Some (write_bytes m buf ((if d < 0 then [45] else []) @ rev (u_digits 10 (to_u64 \<bar>d\<bar>)) @ [0]))"
proof -
  define ds where "ds = u_digits 10 (to_u64 \<bar>d\<bar>)"
  have "unat (to_u64 \<bar>d\<bar>) = nat \<bar>d\<bar>" using assms(2) by (intro to_u64_small) simp_all
  then have "length ds \<le> Suc 9" unfolding ds_def using assms(2) by (intro u_digits_length) simp
  moreover have "ds \<noteq> []" unfolding ds_def by (subst u_digits.simps) simp
  ultimately have ds: "ds \<noteq> []" "length ds \<le> 10" by simp_all
  show ?thesis
  proof (cases "d < 0")
    case True
    have b1: "unat (buf + 1) = unat buf + 1" using assms(1) unat_add_no_overflow [of buf 1] by simp
    have "u_reverse_loop ((write_bytes (m(buf := 45)) (buf + 1) ds)(buf + 1 + of_nat (length ds) := 0)) (buf + 1) (buf + 1 + of_nat (length ds) - 1)
        = write_bytes (m(buf := 45)) (buf + 1) (rev ds @ [0])"
      using ds b1 assms(1) by (intro u_reverse_text) simp_all
    moreover have "u_digits 10 (to_u64 (- d)) = ds" using True by (simp add: ds_def)
    ultimately show ?thesis using True assms(2)
      by (simp add: u_itoa_def Let_def u_digits_loop_eq del: fun_upd_apply)
  next
    case False
    have "u_reverse_loop ((write_bytes m buf ds)(buf + of_nat (length ds) := 0)) buf (buf + of_nat (length ds) - 1) = write_bytes m buf (rev ds @ [0])"
      using ds assms(1) by (intro u_reverse_text) simp_all
    moreover have "u_digits 10 (to_u64 d) = ds" using False by (simp add: ds_def)
    ultimately show ?thesis using False by (simp add: u_itoa_def Let_def u_digits_loop_eq del: fun_upd_apply)
  qed
qed

subsection \<open>Properties\<close>

text \<open>
  \<^verbatim>\<open>memmove\<close> moves a block also when source and destination overlap, in either direction: afterwards
  the destination holds what the source held before, and nothing else has changed.
\<close>

theorem memmove_moves:
  assumes "unat dest + unat n \<le> 2 ^ 64" "unat src + unat n \<le> 2 ^ 64"
  shows "u_memmove m dest src n = (\<lambda>x. if x - dest < n then m (src + (x - dest)) else m x)"
  by (rule u_memmove_eq [OF assms])

theorem memmove_moves_witness:
  "map (u_memmove (mem_of 100 [1, 2, 3, 4]) 101 100 3) [100, 101, 102, 103] = [1, 1, 2, 3]
   \<and> map (u_memmove (mem_of 100 [1, 2, 3, 4]) 100 101 3) [100, 101, 102, 103] = [2, 3, 4, 4]"
  using memmove_moves [of 101 3 100] memmove_moves [of 100 3 101] by simp

text \<open>
  C40: for every \<^verbatim>\<open>int\<close> of magnitude below \<open>2\<^sup>3\<^sup>1 - 48\<close>, the text that the library's \<^verbatim>\<open>itoa\<close> writes in base 10 is a
  string of at most 11 bytes, which \<^verbatim>\<open>atoi\<close> reads back as the number; only those bytes and the final zero
  byte are written. (For larger magnitudes \<^verbatim>\<open>atoi\<close> overflows before it subtracts \<^verbatim>\<open>'0'\<close>.)
\<close>

theorem user_itoa_atoi_roundtrip:
  assumes "unat buf + 12 < 2 ^ 64" and "\<bar>d\<bar> < 2 ^ 31 - 48"
  shows "\<exists>m' s. u_itoa m buf 10 d = Some m' \<and> cstr m' buf s \<and> length s \<le> 11 \<and> u_atoi m' buf = Some d
    \<and> (\<forall>x. \<not> x - buf < 12 \<longrightarrow> m' x = m x)"
proof -
  define ds where "ds = u_digits 10 (to_u64 \<bar>d\<bar>)"
  define s where "s = (if d < 0 then [45] else []) @ rev ds"
  have ud: "unat (to_u64 \<bar>d\<bar>) = nat \<bar>d\<bar>" using assms(2) by (intro to_u64_small) simp_all
  have "length ds \<le> Suc 9" unfolding ds_def using ud assms(2) by (intro u_digits_length) simp
  then have len: "length s \<le> 11" by (simp add: s_def)
  have dec: "48 \<le> c \<and> c \<le> 57 \<and> c \<noteq> 0 \<and> c \<noteq> 45" if "c \<in> set ds" for c using u_digits_decimal that by (simp add: ds_def)
  have run: "u_itoa m buf 10 d = Some (write_bytes m buf (s @ [0]))"
    using u_itoa_text [OF assms(1), of d m] assms(2) by (simp add: s_def ds_def)
  have cs: "cstr (write_bytes m buf (s @ [0])) buf s" using dec len by (intro cstr_write_bytes) (auto simp: s_def)
  have at: "atoi_bytes (rev ds) 0 = Some \<bar>d\<bar>" using atoi_u_digits [of "to_u64 \<bar>d\<bar>"] ud assms(2) by (simp add: ds_def)
  have "u_atoi (write_bytes m buf (s @ [0])) buf = Some d"
  proof (cases "d < 0")
    case True
    then have "cstr (write_bytes m buf (s @ [0])) (buf + 1) (rev ds)" "write_bytes m buf (s @ [0]) buf = 45"
      using cs by (simp_all add: s_def)
    then show ?thesis using at True by (simp add: u_atoi_def u_atoi_loop_cstr)
  next
    case False
    have "ds \<noteq> []" unfolding ds_def by (subst u_digits.simps) simp
    then have "write_bytes m buf (s @ [0]) buf \<noteq> 45" using cs dec False by (cases "rev ds") (auto simp: s_def)
    then show ?thesis using at False cs by (simp add: u_atoi_def u_atoi_loop_cstr s_def)
  qed
  moreover have "write_bytes m buf (s @ [0]) x = m x" if "\<not> x - buf < 12" for x
    using that len by (subst write_bytes_eq) (auto simp: word_less_nat_alt)
  ultimately show ?thesis using run cs len by blast
qed

theorem user_itoa_atoi_roundtrip_witness:
  "\<exists>m' s. u_itoa (\<lambda>_. 0) 0x1000 10 (-2025) = Some m' \<and> cstr m' 0x1000 s \<and> u_atoi m' 0x1000 = Some (-2025)"
proof -
  have "unat (0x1000 :: u64) + 12 < 2 ^ 64" "\<bar>-2025 :: int\<bar> < 2 ^ 31 - 48" by simp_all
  from user_itoa_atoi_roundtrip [OF this] show ?thesis by blast
qed

end
