(* ===== verification/User.thy ===== *)
theory User
  imports Calls Ulib
begin

text \<open>
  User programs: the wrappers of the system calls, \<^verbatim>\<open>usr/lib/syscall.c\<close>, with the trap through \<^verbatim>\<open>int 0x80\<close> and
  \<^verbatim>\<open>arch/isr.S\<close>, the output routines of \<^verbatim>\<open>usr/lib/stdio.c\<close> and the allocator of \<^verbatim>\<open>usr/lib/stdlib.c\<close>. A program
  runs on the state of the kernel: its loads and stores go through the page table in \<^verbatim>\<open>cr3\<close>, a fault is the
  value \<open>None\<close>. Local variables whose address is taken lie at addresses that are arguments.
\<close>

subsection \<open>The trap\<close>

text \<open>
  \<^verbatim>\<open>int 0x80\<close> with the arguments in registers: the processor and \<^verbatim>\<open>isr128\<close> push a trap frame at the top of the
  kernel stack that the task state segment names, the handler runs on it, and \<^verbatim>\<open>rax\<close> is popped from it. The
  fields of the frame that no handler reads keep their values. \<open>junk\<close> is the uninitialised value that \<^verbatim>\<open>execve\<close>
  reads on the kernel stack.
\<close>

definition u_trap :: "u64 \<Rightarrow> u64 \<Rightarrow> u64 \<Rightarrow> u64 \<Rightarrow> u64 \<Rightarrow> u64 \<Rightarrow> u64 \<Rightarrow> kernel \<Rightarrow> (u64 \<times> kernel) option" where
  "u_trap junk n a1 a2 a3 a4 a5 s =
     (let fr = tss_rsp0 s - sizeof_trap_frame;
          f = (trap_frames s fr)\<lparr>tf_rax := n, tf_rdi := a1, tf_rsi := a2, tf_rdx := a3, tf_r10 := a4, tf_r8 := a5, int_no := 128, err_code := 0\<rparr>
      in case isr_handler junk 0 fr (s\<lparr>trap_frames := (trap_frames s)(fr := f)\<rparr>) of
           Some (Resumed s') \<Rightarrow> Some (tf_rax (trap_frames s' fr), s')
         | _ \<Rightarrow> None)"

text \<open>\<^verbatim>\<open>syscall\<close> returns when the process runs again; \<open>None\<close> also means that another process runs now.\<close>

definition u_syscall :: "u64 \<Rightarrow> u64 \<Rightarrow> u64 \<Rightarrow> u64 \<Rightarrow> u64 \<Rightarrow> u64 \<Rightarrow> u64 \<Rightarrow> kernel \<Rightarrow> (u64 \<times> kernel) option" where
  "u_syscall junk n a1 a2 a3 a4 a5 s =
     Option.bind (u_trap junk n a1 a2 a3 a4 a5 s)
       (\<lambda>(ret, s'). if current_proc s' = current_proc s then Some (ret, s') else None)"

subsection \<open>Wrappers\<close>

abbreviation (input) SYS_READ :: u64 where "SYS_READ \<equiv> 0"
abbreviation (input) SYS_WRITE :: u64 where "SYS_WRITE \<equiv> 1"
abbreviation (input) SYS_OPEN :: u64 where "SYS_OPEN \<equiv> 2"
abbreviation (input) SYS_CLOSE :: u64 where "SYS_CLOSE \<equiv> 3"
abbreviation (input) SYS_STAT :: u64 where "SYS_STAT \<equiv> 4"
abbreviation (input) SYS_FSTAT :: u64 where "SYS_FSTAT \<equiv> 5"
abbreviation (input) SYS_LSEEK :: u64 where "SYS_LSEEK \<equiv> 8"
abbreviation (input) SYS_BRK :: u64 where "SYS_BRK \<equiv> 12"
abbreviation (input) SYS_YIELD :: u64 where "SYS_YIELD \<equiv> 24"
abbreviation (input) SYS_NANOSLEEP :: u64 where "SYS_NANOSLEEP \<equiv> 35"
abbreviation (input) SYS_GETPID :: u64 where "SYS_GETPID \<equiv> 39"
abbreviation (input) SYS_FORK :: u64 where "SYS_FORK \<equiv> 57"
abbreviation (input) SYS_EXECVE :: u64 where "SYS_EXECVE \<equiv> 59"
abbreviation (input) SYS_EXIT :: u64 where "SYS_EXIT \<equiv> 60"
abbreviation (input) SYS_WAIT4 :: u64 where "SYS_WAIT4 \<equiv> 61"
abbreviation (input) SYS_GETCWD :: u64 where "SYS_GETCWD \<equiv> 79"
abbreviation (input) SYS_CHDIR :: u64 where "SYS_CHDIR \<equiv> 80"
abbreviation (input) SYS_MKDIR :: u64 where "SYS_MKDIR \<equiv> 83"
abbreviation (input) SYS_GETPPID :: u64 where "SYS_GETPPID \<equiv> 110"
abbreviation (input) SYS_GETDENTS64 :: u64 where "SYS_GETDENTS64 \<equiv> 217"

text \<open>The conversion \<^verbatim>\<open>(int)\<close> of the result.\<close>

definition ret_int :: "(u64 \<times> kernel) option \<Rightarrow> (int \<times> kernel) option" where
  "ret_int r = map_option (\<lambda>(v, s). (to_int v, s)) r"

definition u_read :: "int \<Rightarrow> u64 \<Rightarrow> int \<Rightarrow> kernel \<Rightarrow> (int \<times> kernel) option" where
  "u_read fd buf count s = ret_int (u_syscall 0 SYS_READ (to_u64 fd) buf (to_u64 count) 0 0 s)"

definition u_write :: "int \<Rightarrow> u64 \<Rightarrow> int \<Rightarrow> kernel \<Rightarrow> (int \<times> kernel) option" where
  "u_write fd buf count s = ret_int (u_syscall 0 SYS_WRITE (to_u64 fd) buf (to_u64 count) 0 0 s)"

definition u_open :: "u64 \<Rightarrow> int \<Rightarrow> int \<Rightarrow> kernel \<Rightarrow> (int \<times> kernel) option" where
  "u_open pathname flags mode s = ret_int (u_syscall 0 SYS_OPEN pathname (to_u64 flags) (to_u64 mode) 0 0 s)"

definition u_close :: "int \<Rightarrow> kernel \<Rightarrow> (int \<times> kernel) option" where
  "u_close fd s = ret_int (u_syscall 0 SYS_CLOSE (to_u64 fd) 0 0 0 0 s)"

definition u_getcwd :: "u64 \<Rightarrow> u64 \<Rightarrow> kernel \<Rightarrow> (int \<times> kernel) option" where
  "u_getcwd buf sz s = ret_int (u_syscall 0 SYS_GETCWD buf sz 0 0 0 s)"

definition u_chdir :: "u64 \<Rightarrow> kernel \<Rightarrow> (int \<times> kernel) option" where
  "u_chdir path s = ret_int (u_syscall 0 SYS_CHDIR path 0 0 0 0 s)"

text \<open>\<^verbatim>\<open>fd\<close> and \<^verbatim>\<open>count\<close> are \<^verbatim>\<open>unsigned int\<close> here.\<close>

definition u_getdents64 :: "u32 \<Rightarrow> u64 \<Rightarrow> u32 \<Rightarrow> kernel \<Rightarrow> (int \<times> kernel) option" where
  "u_getdents64 fd dirp count s = ret_int (u_syscall 0 SYS_GETDENTS64 (ucast fd) dirp (ucast count) 0 0 s)"

definition u_lseek :: "int \<Rightarrow> u64 \<Rightarrow> int \<Rightarrow> kernel \<Rightarrow> (int \<times> kernel) option" where
  "u_lseek fd offset whence s = ret_int (u_syscall 0 SYS_LSEEK (to_u64 fd) offset (to_u64 whence) 0 0 s)"

definition u_fstat :: "int \<Rightarrow> u64 \<Rightarrow> kernel \<Rightarrow> (int \<times> kernel) option" where
  "u_fstat fd statbuf s = ret_int (u_syscall 0 SYS_FSTAT (to_u64 fd) statbuf 0 0 0 s)"

definition u_stat :: "u64 \<Rightarrow> u64 \<Rightarrow> kernel \<Rightarrow> (int \<times> kernel) option" where
  "u_stat filename statbuf s = ret_int (u_syscall 0 SYS_STAT filename statbuf 0 0 0 s)"

definition u_mkdir :: "u64 \<Rightarrow> int \<Rightarrow> kernel \<Rightarrow> (int \<times> kernel) option" where
  "u_mkdir pathname mode s = ret_int (u_syscall 0 SYS_MKDIR pathname (to_u64 mode) 0 0 0 s)"

definition u_getpid :: "kernel \<Rightarrow> (int \<times> kernel) option" where
  "u_getpid s = ret_int (u_syscall 0 SYS_GETPID 0 0 0 0 0 s)"

definition u_getppid :: "kernel \<Rightarrow> (int \<times> kernel) option" where
  "u_getppid s = ret_int (u_syscall 0 SYS_GETPPID 0 0 0 0 0 s)"

definition u_fork :: "kernel \<Rightarrow> (int \<times> kernel) option" where
  "u_fork s = ret_int (u_syscall 0 SYS_FORK 0 0 0 0 0 s)"

definition u_execve :: "u64 \<Rightarrow> u64 \<Rightarrow> u64 \<Rightarrow> u64 \<Rightarrow> kernel \<Rightarrow> (int \<times> kernel) option" where
  "u_execve junk filename argv envp s = ret_int (u_syscall junk SYS_EXECVE filename argv envp 0 0 s)"

text \<open>\<^verbatim>\<open>exit\<close> and \<^verbatim>\<open>sched_yield\<close> result in the state in which the next process runs.\<close>

definition u_exit :: "int \<Rightarrow> kernel \<Rightarrow> kernel option" where
  "u_exit status s = map_option snd (u_trap 0 SYS_EXIT (to_u64 status) 0 0 0 0 s)"

definition u_wait4 :: "int \<Rightarrow> u64 \<Rightarrow> int \<Rightarrow> u64 \<Rightarrow> kernel \<Rightarrow> (int \<times> kernel) option" where
  "u_wait4 pid0 status options rusage s = ret_int (u_syscall 0 SYS_WAIT4 (to_u64 pid0) status (to_u64 options) rusage 0 s)"

definition u_waitpid :: "int \<Rightarrow> u64 \<Rightarrow> int \<Rightarrow> kernel \<Rightarrow> (int \<times> kernel) option" where
  "u_waitpid pid0 status options s = u_wait4 pid0 status options 0 s"

definition u_sched_yield :: "kernel \<Rightarrow> kernel option" where
  "u_sched_yield s = map_option snd (u_trap 0 SYS_YIELD 0 0 0 0 0 s)"

definition u_brk :: "u64 \<Rightarrow> kernel \<Rightarrow> (u64 \<times> kernel) option" where
  "u_brk addr s = u_syscall 0 SYS_BRK addr 0 0 0 0 s"

definition u_sbrk :: "u64 \<Rightarrow> kernel \<Rightarrow> (u64 \<times> kernel) option" where
  "u_sbrk increment s =
     Option.bind (u_brk 0 s)
       (\<lambda>(current_brk, s1).
          if current_brk = -1 then Some (-1, s1)
          else if increment = 0 then Some (current_brk, s1)
          else map_option (\<lambda>(ret, s2). (if ret < current_brk + increment then -1 else current_brk, s2)) (u_brk (current_brk + increment) s1))"

definition u_nanosleep :: "u64 \<Rightarrow> u64 \<Rightarrow> kernel \<Rightarrow> (int \<times> kernel) option" where
  "u_nanosleep req rem0 s = ret_int (u_syscall 0 SYS_NANOSLEEP req rem0 0 0 0 s)"

text \<open>\<^verbatim>\<open>sleep\<close>; \<open>req\<close> and \<open>rem0\<close> are the addresses of its two arrays of two \<^verbatim>\<open>long\<close>, of which it returns \<^verbatim>\<open>rem[0]\<close>.\<close>

definition user_read_le :: "nat \<Rightarrow> u64 \<Rightarrow> 'a paging_scheme \<Rightarrow> u64 option" where
  "user_read_le n va s =
     (let bs = map (\<lambda>i. user_read (va + of_nat i) s) [0..<n]
      in if None \<in> set bs then None else Some (foldr (\<lambda>b v. push_bit 8 v OR ucast (the b)) bs 0))"

definition u_sleep :: "u64 \<Rightarrow> u64 \<Rightarrow> u32 \<Rightarrow> kernel \<Rightarrow> (u32 \<times> kernel) option" where
  "u_sleep req rem0 seconds s =
     Option.bind (user_store req (le_bytes 8 (ucast seconds) @ le_bytes 8 0) s)
       (\<lambda>s1. Option.bind (user_store rem0 (le_bytes 8 0 @ le_bytes 8 0) s1)
         (\<lambda>s2. Option.bind (u_nanosleep req rem0 s2)
           (\<lambda>(r, s3). map_option (\<lambda>v. (ucast v, s3)) (user_read_le 8 rem0 s3))))"

subsection \<open>Output\<close>

text \<open>\<open>slot\<close> is where the argument of \<^verbatim>\<open>putchar\<close> lies on the stack.\<close>

definition u_putchar :: "u64 \<Rightarrow> u8 \<Rightarrow> kernel \<Rightarrow> kernel option" where
  "u_putchar slot c s = Option.bind (user_write slot c s) (\<lambda>s1. map_option snd (u_write 1 slot 1 s1))"

fun u_put_bytes :: "u64 \<Rightarrow> u8 list \<Rightarrow> kernel \<Rightarrow> kernel option" where
  "u_put_bytes slot [] s = Some s"
| "u_put_bytes slot (c # cs) s = Option.bind (u_putchar slot c s) (u_put_bytes slot cs)"

definition u_puts :: "u64 \<Rightarrow> u64 \<Rightarrow> kernel \<Rightarrow> kernel option" where
  "u_puts slot p s =
     Option.bind (user_string s p)
       (\<lambda>cs. Option.bind (u_write 1 p (int (length cs)) s) (\<lambda>(r, s1). u_putchar slot 10 s1))"

text \<open>The loop \<^verbatim>\<open>while (*s) putchar(*s++)\<close>.\<close>

partial_function (option) u_put_str :: "u64 \<Rightarrow> u64 \<Rightarrow> kernel \<Rightarrow> kernel option" where
  "u_put_str slot p s =
     Option.bind (user_read p s)
       (\<lambda>c. if c = 0 then Some s else Option.bind (u_putchar slot c s) (\<lambda>s1. u_put_str slot (p + 1) s1))"

text \<open>A number: \<^verbatim>\<open>itoa\<close> into the buffer at \<open>buf\<close>, then the characters from there.\<close>

definition u_put_int :: "u64 \<Rightarrow> u64 \<Rightarrow> int \<Rightarrow> int \<Rightarrow> kernel \<Rightarrow> kernel option" where
  "u_put_int slot buf base d s =
     Option.bind (u_itoa (\<lambda>_. 0) buf base d)
       (\<lambda>m. Option.bind (u_strlen m buf)
         (\<lambda>n. Option.bind (user_store buf (map (\<lambda>i. m (buf + of_nat i)) [0..<Suc (unat n)]) s) (u_put_str slot buf)))"

definition u_printf_conv :: "u64 \<Rightarrow> u64 \<Rightarrow> u8 \<Rightarrow> va_arg list \<Rightarrow> kernel \<Rightarrow> (va_arg list \<times> kernel) option" where
  "u_printf_conv slot buf c args s =
     (if c = 99 then Option.bind (next_int args) (\<lambda>(v, as). map_option (Pair as) (u_putchar slot (word_of_int v) s))
      else if c = 115
      then Option.bind (next_u64 args)
        (\<lambda>(q, as). map_option (Pair as) (if q = 0 then u_put_bytes slot [40, 110, 117, 108, 108, 41] s else u_put_str slot q s))
      else if c = 100 then Option.bind (next_int args) (\<lambda>(v, as). map_option (Pair as) (u_put_int slot buf 10 v s))
      else if c = 120 then Option.bind (next_int args) (\<lambda>(v, as). map_option (Pair as) (u_put_int slot buf 16 v s))
      else map_option (Pair args) (u_put_bytes slot [37, c] s))"

partial_function (option) u_printf :: "u64 \<Rightarrow> u64 \<Rightarrow> u64 \<Rightarrow> va_arg list \<Rightarrow> kernel \<Rightarrow> kernel option" where
  "u_printf slot buf format args s =
     Option.bind (user_read format s)
       (\<lambda>c. if c = 0 then Some s
            else if c \<noteq> 37 then Option.bind (u_putchar slot c s) (\<lambda>s1. u_printf slot buf (format + 1) args s1)
            else Option.bind (user_read (format + 1) s)
              (\<lambda>d. Option.bind (u_printf_conv slot buf d args s) (\<lambda>r. u_printf slot buf (format + 2) (fst r) (snd r))))"

subsection \<open>The allocator\<close>

text \<open>
  A block header: the size at offset 0, the next header at 8, the flag \<^verbatim>\<open>free\<close> at 16, 24 bytes in all. The
  static variables \<^verbatim>\<open>head\<close> and \<^verbatim>\<open>tail\<close> are arguments and results.
\<close>

abbreviation (input) sizeof_header :: u64 where "sizeof_header \<equiv> 24"

partial_function (option) u_malloc_find :: "u64 \<Rightarrow> u64 \<Rightarrow> kernel \<Rightarrow> u64 option" where
  "u_malloc_find sz cur s =
     (if cur = 0 then Some 0
      else Option.bind (user_read_le 4 (cur + 16) s)
        (\<lambda>fr. Option.bind (if fr \<noteq> 0 then map_option (\<lambda>z. z \<ge> sz) (user_read_le 8 cur s) else Some False)
          (\<lambda>fits. if fits then Some cur else Option.bind (user_read_le 8 (cur + 8) s) (\<lambda>nx. u_malloc_find sz nx s))))"

definition u_malloc_new :: "u64 \<Rightarrow> u64 \<times> u64 \<Rightarrow> kernel \<Rightarrow> (u64 \<times> (u64 \<times> u64) \<times> kernel) option" where
  "u_malloc_new sz ht s =
     Option.bind (u_sbrk (sizeof_header + sz) s)
       (\<lambda>(block, s1).
          if block = -1 then Some (0, ht, s1)
          else Option.bind (user_store block (le_bytes 8 sz) s1)
            (\<lambda>s2. Option.bind (user_store (block + 16) (le_bytes 4 0) s2)
              (\<lambda>s3. Option.bind (user_store (block + 8) (le_bytes 8 0) s3)
                (\<lambda>s4. map_option (\<lambda>s5. (block + sizeof_header, (if fst ht = 0 then block else fst ht, block), s5))
                  (if snd ht \<noteq> 0 then user_store (snd ht + 8) (le_bytes 8 block) s4 else Some s4)))))"

definition u_malloc :: "u64 \<Rightarrow> u64 \<times> u64 \<Rightarrow> kernel \<Rightarrow> (u64 \<times> (u64 \<times> u64) \<times> kernel) option" where
  "u_malloc sz ht s =
     (if sz = 0 then Some (0, ht, s)
      else Option.bind (u_malloc_find sz (fst ht) s)
        (\<lambda>cur. if cur \<noteq> 0 then map_option (\<lambda>s1. (cur + sizeof_header, ht, s1)) (user_store (cur + 16) (le_bytes 4 0) s)
               else u_malloc_new sz ht s))"

definition u_free :: "u64 \<Rightarrow> kernel \<Rightarrow> kernel option" where
  "u_free ptr s = (if ptr = 0 then Some s else user_store (ptr - sizeof_header + 16) (le_bytes 4 1) s)"


subsection \<open>Output reaches the console\<close>

lemma user_read_cong:
  "kmem s' = kmem s \<Longrightarrow> HHDM_OFFSET s' = HHDM_OFFSET s \<Longrightarrow> cr3 s' = cr3 s \<Longrightarrow> user_read va s' = user_read va s"
  using pt_entry_cong [of s' s] by (simp add: user_read_def translate_def va_pte_def pa2kva_def)

lemma print_user_prints:
  assumes "\<forall>i < length cs. user_read (va + of_nat i) s = Some (cs ! i)"
  shows "print_user va (length cs) s = Some (s\<lparr>kbd := (kbd s)\<lparr>con := fold kprint_char cs (con (kbd s))\<rparr>\<rparr>)"
  using assms
proof (induction cs arbitrary: va s)
  case Nil
  then show ?case by simp
next
  case (Cons c cs)
  define s1 where "s1 = s\<lparr>kbd := (kbd s)\<lparr>con := kprint_char c (con (kbd s))\<rparr>\<rparr>"
  have "user_read (va + 1 + of_nat i) s1 = Some (cs ! i)" if "i < length cs" for i
  proof -
    have "user_read (va + 1 + of_nat i) s1 = user_read (va + 1 + of_nat i) s" by (rule user_read_cong) (simp_all add: s1_def)
    then show ?thesis using Cons.prems [rule_format, of "Suc i"] that by (simp add: add.assoc)
  qed
  then have "print_user (va + 1) (length cs) s1 = Some (s1\<lparr>kbd := (kbd s1)\<lparr>con := fold kprint_char cs (con (kbd s1))\<rparr>\<rparr>)"
    using Cons.IH by blast
  moreover have "user_read va s = Some c" using Cons.prems [rule_format, of 0] by simp
  ultimately show ?case by (simp add: s1_def)
qed

text \<open>What a call to \<^verbatim>\<open>write\<close> on the console leaves of the state.\<close>

definition console_call :: "u8 list \<Rightarrow> kernel \<Rightarrow> kernel \<Rightarrow> bool" where
  "console_call cs s s' \<longleftrightarrow> kbd s' = (kbd s)\<lparr>con := fold kprint_char cs (con (kbd s))\<rparr>
     \<and> kmem s' = kmem s \<and> HHDM_OFFSET s' = HHDM_OFFSET s \<and> cr3 s' = cr3 s \<and> current_proc s' = current_proc s
     \<and> files s' = files s \<and> global_file_table s' = global_file_table s \<and> tss_rsp0 s' = tss_rsp0 s
     \<and> interrupt_handlers s' = interrupt_handlers s"

text \<open>The state in which the dispatcher starts, and the return to the program.\<close>

definition trapped :: "u64 \<Rightarrow> u64 \<Rightarrow> u64 \<Rightarrow> u64 \<Rightarrow> u64 \<Rightarrow> u64 \<Rightarrow> kernel \<Rightarrow> kernel" where
  "trapped n a1 a2 a3 a4 a5 s =
     (let fr = tss_rsp0 s - sizeof_trap_frame;
          f = (trap_frames s fr)\<lparr>tf_rax := n, tf_rdi := a1, tf_rsi := a2, tf_rdx := a3, tf_r10 := a4, tf_r8 := a5, int_no := 128, err_code := 0\<rparr>;
          s0 = s\<lparr>trap_frames := (trap_frames s)(fr := f)\<rparr>
      in if current_proc s0 \<noteq> 0 then set_pcb (current_proc s0) (\<lambda>p. p\<lparr>pcb_trap_frame := fr\<rparr>) s0 else s0)"

lemma trapped_fields [simp]:
  "kmem (trapped n a1 a2 a3 a4 a5 s) = kmem s" "HHDM_OFFSET (trapped n a1 a2 a3 a4 a5 s) = HHDM_OFFSET s" "cr3 (trapped n a1 a2 a3 a4 a5 s) = cr3 s"
  "kbd (trapped n a1 a2 a3 a4 a5 s) = kbd s" "current_proc (trapped n a1 a2 a3 a4 a5 s) = current_proc s" "files (trapped n a1 a2 a3 a4 a5 s) = files s"
  "global_file_table (trapped n a1 a2 a3 a4 a5 s) = global_file_table s" "tss_rsp0 (trapped n a1 a2 a3 a4 a5 s) = tss_rsp0 s"
  "interrupt_handlers (trapped n a1 a2 a3 a4 a5 s) = interrupt_handlers s"
  by (simp_all add: trapped_def Let_def set_pcb_def)

lemma u_syscall_returns:
  assumes call: "sys_call junk n a1 a2 a3 (trapped n a1 a2 a3 a4 a5 s) = Some (Some v, s2)" and cp: "current_proc s2 = current_proc s"
  obtains tfs where "u_syscall junk n a1 a2 a3 a4 a5 s = Some (v, s2\<lparr>trap_frames := tfs\<rparr>)"
proof -
  define fr where "fr = tss_rsp0 s - sizeof_trap_frame"
  define f where "f = (trap_frames s fr)\<lparr>tf_rax := n, tf_rdi := a1, tf_rsi := a2, tf_rdx := a3, tf_r10 := a4, tf_r8 := a5, int_no := 128, err_code := 0\<rparr>"
  define s0 where "s0 = s\<lparr>trap_frames := (trap_frames s)(fr := f)\<rparr>"
  define s1 where "s1 = trapped n a1 a2 a3 a4 a5 s"
  have s1: "s1 = (if current_proc s0 \<noteq> 0 then set_pcb (current_proc s0) (\<lambda>p. p\<lparr>pcb_trap_frame := fr\<rparr>) s0 else s0)"
    by (simp add: s1_def trapped_def Let_def s0_def f_def fr_def)
  define s3 where "s3 = s2\<lparr>trap_frames := (trap_frames s2)(fr := (trap_frames s2 fr)\<lparr>tf_rax := v\<rparr>)\<rparr>"
  have f1: "trap_frames s1 fr = f" by (simp add: s1 s0_def set_pcb_def)
  have "sys_call junk (tf_rax f) (tf_rdi f) (tf_rsi f) (tf_rdx f) s1 = Some (Some v, s2)" using call by (simp add: f_def s1_def)
  then have "syscall_handler junk fr s0 = Some s3"
    unfolding syscall_handler_def Let_def s1 [symmetric] f1 by (simp add: s3_def)
  then have "isr_handler junk 0 fr s0 = Some (Resumed s3)" by (simp add: isr_handler_def Let_def s0_def f_def)
  then have "u_trap junk n a1 a2 a3 a4 a5 s = Some (v, s3)"
    unfolding u_trap_def Let_def fr_def [symmetric] f_def [symmetric] s0_def [symmetric] by (simp add: s3_def)
  moreover have "current_proc s3 = current_proc s" using cp by (simp add: s3_def)
  ultimately show thesis using that by (simp add: u_syscall_def s3_def)
qed

lemma u_write_prints:
  assumes rd: "\<forall>i < length cs. user_read (buf + of_nat i) s = Some (cs ! i)" and len: "length cs < 2 ^ 31"
  shows "\<exists>s'. u_write 1 buf (int (length cs)) s = Some (int (length cs), s') \<and> console_call cs s s'"
proof -
  let ?n = "to_u64 (int (length cs))"
  let ?s = "trapped 1 1 buf ?n 0 0 s"
  define s2 where "s2 = ?s\<lparr>kbd := (kbd ?s)\<lparr>con := fold kprint_char cs (con (kbd ?s))\<rparr>\<rparr>"
  have "user_read (buf + of_nat i) ?s = Some (cs ! i)" if "i < length cs" for i
    using user_read_cong [of ?s s] rd that by simp
  then have pr: "print_user buf (length cs) ?s = Some s2" unfolding s2_def by (intro print_user_prints) simp
  have ul: "unat ?n = length cs" using len to_u64_small [of "int (length cs)"] by simp
  then have ti: "to_int ?n = int (length cs)" using to_int_small [of ?n] len by simp
  have "sys_call 0 1 1 buf ?n ?s = Some (Some ?n, s2)" by (simp add: sys_call_def sys_write_def returns_def ti pr)
  then obtain tfs where "u_syscall 0 1 1 buf ?n 0 0 s = Some (?n, s2\<lparr>trap_frames := tfs\<rparr>)"
    by (rule u_syscall_returns) (simp add: s2_def)
  moreover have "to_u64 1 = 1" by (simp add: to_u64_def)
  ultimately have "u_write 1 buf (int (length cs)) s = Some (int (length cs), s2\<lparr>trap_frames := tfs\<rparr>)"
    by (simp add: u_write_def ret_int_def ti)
  moreover have "console_call cs s (s2\<lparr>trap_frames := tfs\<rparr>)" by (simp add: console_call_def s2_def)
  ultimately show ?thesis by blast
qed

lemma translate_cong: "kmem s' = kmem s \<Longrightarrow> HHDM_OFFSET s' = HHDM_OFFSET s \<Longrightarrow> translate s' = translate s"
  using pt_entry_cong [of s' s] by (intro ext) (simp add: translate_def va_pte_def)

text \<open>The string \<open>cs\<close> with its final zero byte lies at \<open>p\<close> in the memory of the program.\<close>

definition user_cstr :: "kernel \<Rightarrow> u64 \<Rightarrow> u8 list \<Rightarrow> bool" where
  "user_cstr s p cs \<longleftrightarrow> (\<forall>i \<le> length cs. user_read (p + of_nat i) s = Some ((cs @ [0]) ! i)) \<and> 0 \<notin> set cs"

lemma user_cstr_Cons: "user_cstr s p (c # cs) \<longleftrightarrow> user_read p s = Some c \<and> c \<noteq> 0 \<and> user_cstr s (p + 1) cs"
proof -
  have "(\<forall>i \<le> length (c # cs). user_read (p + of_nat i) s = Some ((c # cs @ [0]) ! i))
    \<longleftrightarrow> user_read p s = Some c \<and> (\<forall>i \<le> length cs. user_read (p + 1 + of_nat i) s = Some ((cs @ [0]) ! i))"
    by (simp add: less_Suc_eq_le [symmetric] All_less_Suc2 add.assoc)
  then show ?thesis unfolding user_cstr_def by auto
qed

lemma user_cstr_Nil: "user_cstr s p [] \<longleftrightarrow> user_read p s = Some 0"
  by (simp add: user_cstr_def)

definition str_addrs :: "u64 \<Rightarrow> u8 list \<Rightarrow> u64 set" where
  "str_addrs p cs = {p + of_nat i | i. i \<le> length cs}"

lemma user_cstr_frame:
  assumes "user_cstr s p cs" "\<forall>va \<in> A. user_read va s' = user_read va s" "str_addrs p cs \<subseteq> A"
  shows "user_cstr s' p cs"
  using assms unfolding user_cstr_def str_addrs_def by fastforce

subsection \<open>The list of blocks\<close>

text \<open>The headers from \<open>p\<close> on are at the addresses in the list, with their sizes and flags.\<close>

fun user_blocks :: "kernel \<Rightarrow> u64 \<Rightarrow> (u64 \<times> u64 \<times> bool) list \<Rightarrow> bool" where
  "user_blocks s p [] \<longleftrightarrow> p = 0"
| "user_blocks s p ((a, z, fr) # bs) \<longleftrightarrow> p = a \<and> a \<noteq> 0 \<and> user_read_le 8 a s = Some z
     \<and> (\<exists>v. user_read_le 4 (a + 16) s = Some v \<and> (v \<noteq> 0) = fr) \<and> (\<exists>nx. user_read_le 8 (a + 8) s = Some nx \<and> user_blocks s nx bs)"

lemma u_malloc_find_blocks:
  "user_blocks s p bs \<Longrightarrow> u_malloc_find sz p s = Some (case find (\<lambda>(a, z, fr). fr \<and> z \<ge> sz) bs of None \<Rightarrow> 0 | Some b \<Rightarrow> fst b)"
proof (induction bs arbitrary: p)
  case Nil
  then show ?case by (simp add: u_malloc_find.simps)
next
  case (Cons b bs)
  obtain a z fr where b: "b = (a, z, fr)" by (cases b)
  show ?case unfolding u_malloc_find.simps [of sz p s] using Cons.prems Cons.IH unfolding b by auto
qed

end
