(* ===== verification/UserIO.thy ===== *)
theory UserIO
  imports User
begin

text \<open>
  What user programs print and read, through the trap, the system calls and the page tables: \<^verbatim>\<open>printf\<close> of
  \<^verbatim>\<open>usr/lib/stdio.c\<close> with all its conversions, and reading from the keyboard.
\<close>

subsection \<open>Memory of a program\<close>

text \<open>
  The addresses in \<open>A\<close> are mapped on bytes of their own, and no store to them changes a translation: their
  frames hold no page table.
\<close>

definition user_ram :: "u64 set \<Rightarrow> kernel \<Rightarrow> bool" where
  "user_ram A s \<longleftrightarrow> (\<exists>\<tau>. inj_on \<tau> A \<and> (\<forall>m. (\<forall>x. x \<notin> (\<lambda>va. pa2kva s (\<tau> va)) ` A \<longrightarrow> m x = kmem s x) \<longrightarrow>
     (\<forall>va \<in> A. translate (s\<lparr>kmem := m\<rparr>) (cr3 s) va = Some (\<tau> va))))"

lemma user_ramE:
  assumes "user_ram A s"
  obtains \<tau> where "inj_on \<tau> A" "\<And>va. va \<in> A \<Longrightarrow> translate s (cr3 s) va = Some (\<tau> va)"
    "\<And>m va. \<forall>x. x \<notin> (\<lambda>va. pa2kva s (\<tau> va)) ` A \<longrightarrow> m x = kmem s x \<Longrightarrow> va \<in> A \<Longrightarrow> translate (s\<lparr>kmem := m\<rparr>) (cr3 s) va = Some (\<tau> va)"
proof -
  obtain \<tau> where \<tau>: "inj_on \<tau> A" "\<And>m va. \<forall>x. x \<notin> (\<lambda>va. pa2kva s (\<tau> va)) ` A \<longrightarrow> m x = kmem s x \<Longrightarrow> va \<in> A \<Longrightarrow> translate (s\<lparr>kmem := m\<rparr>) (cr3 s) va = Some (\<tau> va)"
    using assms unfolding user_ram_def by blast
  show thesis using that [OF \<tau>(1) _ \<tau>(2)] \<tau>(2) [of "kmem s"] by simp
qed

lemma user_ram_read: "user_ram A s \<Longrightarrow> va \<in> A \<Longrightarrow> \<exists>b. user_read va s = Some b"
  by (erule user_ramE) (auto simp: user_read_def)

text \<open>Steps that leave the memory map alone.\<close>

definition same_map :: "kernel \<Rightarrow> kernel \<Rightarrow> bool" where
  "same_map s s' \<longleftrightarrow> HHDM_OFFSET s' = HHDM_OFFSET s \<and> cr3 s' = cr3 s"

lemma user_ram_cong:
  assumes "user_ram A s" "kmem s' = kmem s" "same_map s s'"
  shows "user_ram A s'"
proof -
  have "translate (s'\<lparr>kmem := m\<rparr>) = translate (s\<lparr>kmem := m\<rparr>)" for m using assms by (intro translate_cong) (simp_all add: same_map_def)
  then show ?thesis using assms unfolding user_ram_def same_map_def pa2kva_def by simp
qed

lemma user_ram_write:
  assumes ram: "user_ram A s" and va: "va \<in> A"
  obtains m where "user_write va b s = Some (s\<lparr>kmem := m\<rparr>)" "user_ram A (s\<lparr>kmem := m\<rparr>)"
    "\<And>a. a \<in> A \<Longrightarrow> user_read a (s\<lparr>kmem := m\<rparr>) = (if a = va then Some b else user_read a s)"
proof -
  obtain \<tau> where inj: "inj_on \<tau> A" and tr: "\<And>va. va \<in> A \<Longrightarrow> translate s (cr3 s) va = Some (\<tau> va)"
    and st: "\<And>m va. \<forall>x. x \<notin> (\<lambda>va. pa2kva s (\<tau> va)) ` A \<longrightarrow> m x = kmem s x \<Longrightarrow> va \<in> A \<Longrightarrow> translate (s\<lparr>kmem := m\<rparr>) (cr3 s) va = Some (\<tau> va)"
    using user_ramE [OF ram] by blast
  define m where "m = (kmem s)(pa2kva s (\<tau> va) := b)"
  have m: "\<forall>x. x \<notin> (\<lambda>va. pa2kva s (\<tau> va)) ` A \<longrightarrow> m x = kmem s x" using va by (auto simp: m_def)
  have "user_write va b s = Some (s\<lparr>kmem := m\<rparr>)" by (simp add: user_write_def tr [OF va] m_def)
  moreover have "user_ram A (s\<lparr>kmem := m\<rparr>)" unfolding user_ram_def
  proof (intro exI [of _ \<tau>] conjI inj allI impI ballI)
    fix m' a
    assume a: "a \<in> A" and m': "\<forall>x. x \<notin> (\<lambda>va. pa2kva (s\<lparr>kmem := m\<rparr>) (\<tau> va)) ` A \<longrightarrow> m' x = kmem (s\<lparr>kmem := m\<rparr>) x"
    have "m' x = kmem s x" if "x \<notin> (\<lambda>va. pa2kva s (\<tau> va)) ` A" for x
      using m' m that by (simp add: pa2kva_def)
    then show "translate (s\<lparr>kmem := m, kmem := m'\<rparr>) (cr3 (s\<lparr>kmem := m\<rparr>)) a = Some (\<tau> a)" using st [of m' a] a by simp
  qed
  moreover have "user_read a (s\<lparr>kmem := m\<rparr>) = (if a = va then Some b else user_read a s)" if a: "a \<in> A" for a
  proof -
    have "m (pa2kva s (\<tau> a)) = (if a = va then b else kmem s (pa2kva s (\<tau> a)))"
      using inj a va by (auto simp: m_def pa2kva_def inj_on_eq_iff)
    moreover have "pa2kva (s\<lparr>kmem := m\<rparr>) = pa2kva s" by (simp add: pa2kva_def fun_eq_iff)
    ultimately show ?thesis using st [OF m a] tr [OF a] by (simp add: user_read_def)
  qed
  ultimately show thesis using that by blast
qed

subsection \<open>Printing\<close>

text \<open>
  The step from \<open>s\<close> to \<open>s'\<close> prints \<open>cs\<close>: the console has received exactly these bytes, the program's memory \<open>A\<close> is
  as before except in the scratch bytes \<open>W\<close>, and files and processes are as before.
\<close>

definition calm :: "kernel \<Rightarrow> kernel \<Rightarrow> bool" where
  "calm s s' \<longleftrightarrow> current_proc s' = current_proc s \<and> files s' = files s \<and> global_file_table s' = global_file_table s
     \<and> interrupt_handlers s' = interrupt_handlers s \<and> tss_rsp0 s' = tss_rsp0 s"

lemma calm_refl [simp]: "calm s s" "calm s (s\<lparr>kmem := m\<rparr>)"
  by (simp_all add: calm_def)

lemma calm_trans: "calm s s1 \<Longrightarrow> calm s1 s2 \<Longrightarrow> calm s s2"
  by (simp add: calm_def)

definition prints :: "u64 set \<Rightarrow> u64 set \<Rightarrow> u8 list \<Rightarrow> kernel \<Rightarrow> kernel \<Rightarrow> bool" where
  "prints A W cs s s' \<longleftrightarrow> kbd s' = (kbd s)\<lparr>con := fold kprint_char cs (con (kbd s))\<rparr> \<and> user_ram A s'
     \<and> (\<forall>a \<in> A - W. user_read a s' = user_read a s) \<and> calm s s'"

lemma prints_refl: "user_ram A s \<Longrightarrow> prints A W [] s s"
  by (simp add: prints_def)

lemma prints_trans: "prints A W cs s s1 \<Longrightarrow> prints A W ds s1 s2 \<Longrightarrow> prints A W (cs @ ds) s s2"
  by (auto simp: prints_def intro: calm_trans)

lemma prints_ram: "prints A W cs s s' \<Longrightarrow> user_ram A s'"
  by (simp add: prints_def)

lemma u_putchar_prints_ram:
  assumes ram: "user_ram A s" and slot: "slot \<in> A" "slot \<in> W"
  shows "\<exists>s'. u_putchar slot c s = Some s' \<and> prints A W [c] s s'"
proof -
  obtain m where m: "user_write slot c s = Some (s\<lparr>kmem := m\<rparr>)" "user_ram A (s\<lparr>kmem := m\<rparr>)"
    "\<And>a. a \<in> A \<Longrightarrow> user_read a (s\<lparr>kmem := m\<rparr>) = (if a = slot then Some c else user_read a s)"
    using user_ram_write [OF ram slot(1), of c] by blast
  let ?s = "s\<lparr>kmem := m\<rparr>"
  have "\<forall>i < length [c]. user_read (slot + of_nat i) ?s = Some ([c] ! i)" using m(3) [OF slot(1)] by simp
  then obtain s2 where s2: "u_write 1 slot 1 ?s = Some (1, s2)" "console_call [c] ?s s2"
    using u_write_prints [of "[c]" slot ?s] by auto
  then have "user_ram A s2" using user_ram_cong [OF m(2), of s2] by (simp add: console_call_def same_map_def)
  moreover have "user_read a s2 = user_read a ?s" for a using s2(2) by (intro user_read_cong) (simp_all add: console_call_def)
  moreover have "calm s s2" using s2(2) by (simp add: calm_def console_call_def)
  ultimately have "prints A W [c] s s2" using s2(2) m(3) slot(2) by (auto simp: prints_def console_call_def)
  then show ?thesis using m(1) s2(1) by (simp add: u_putchar_def)
qed

lemma u_put_bytes_prints:
  assumes "user_ram A s" "slot \<in> A" "slot \<in> W"
  shows "\<exists>s'. u_put_bytes slot cs s = Some s' \<and> prints A W cs s s'"
  using assms(1)
proof (induction cs arbitrary: s)
  case Nil
  then show ?case by (simp add: prints_refl)
next
  case (Cons c cs)
  obtain s1 where s1: "u_putchar slot c s = Some s1" "prints A W [c] s s1"
    using u_putchar_prints_ram [OF Cons.prems assms(2,3)] by blast
  obtain s' where "u_put_bytes slot cs s1 = Some s'" "prints A W cs s1 s'" using Cons.IH [OF prints_ram [OF s1(2)]] by blast
  then show ?case using s1 prints_trans by fastforce
qed

text \<open>The string \<open>cs\<close> lies at \<open>p\<close>, outside the scratch bytes.\<close>

definition text_at :: "u64 set \<Rightarrow> kernel \<Rightarrow> u64 \<Rightarrow> u8 list \<Rightarrow> bool" where
  "text_at B s p cs \<longleftrightarrow> user_cstr s p cs \<and> str_addrs p cs \<subseteq> B"

lemma text_at_Nil: "text_at B s p [] \<longleftrightarrow> user_read p s = Some 0 \<and> p \<in> B"
  by (simp add: text_at_def user_cstr_Nil str_addrs_def)

lemma str_addrs_Cons: "str_addrs p (c # cs) = insert p (str_addrs (p + 1) cs)"
proof -
  have "str_addrs q ds = (\<lambda>i. q + of_nat i) ` {..length ds}" for q ds by (auto simp: str_addrs_def)
  moreover have "{..length (c # cs)} = insert 0 (Suc ` {..length cs})" by (simp add: atMost_Suc_eq_insert_0)
  ultimately show ?thesis by (simp add: image_image add.assoc)
qed

lemma text_at_Cons: "text_at B s p (c # cs) \<longleftrightarrow> user_read p s = Some c \<and> c \<noteq> 0 \<and> p \<in> B \<and> text_at B s (p + 1) cs"
  by (auto simp: text_at_def user_cstr_Cons str_addrs_Cons)

lemma text_at_prints: "text_at (A - W) s p cs \<Longrightarrow> prints A W ds s s' \<Longrightarrow> text_at (A - W) s' p cs"
  unfolding text_at_def prints_def using user_cstr_frame by blast

lemma u_put_str_prints:
  assumes "user_ram A s" "slot \<in> A" "slot \<in> W" "text_at (A - {slot}) s p cs"
  shows "\<exists>s'. u_put_str slot p s = Some s' \<and> prints A W cs s s'"
proof -
  have "\<exists>s'. u_put_str slot p s = Some s' \<and> prints A {slot} cs s s'" using assms(1,4)
  proof (induction cs arbitrary: s p)
    case Nil
    then show ?case by (simp add: u_put_str.simps text_at_Nil prints_refl)
  next
    case (Cons c cs)
    have c: "user_read p s = Some c" "c \<noteq> 0" "text_at (A - {slot}) s (p + 1) cs" using Cons.prems(2) by (simp_all add: text_at_Cons)
    obtain s1 where s1: "u_putchar slot c s = Some s1" "prints A {slot} [c] s s1"
      using u_putchar_prints_ram [OF Cons.prems(1) assms(2)] by blast
    obtain s' where "u_put_str slot (p + 1) s1 = Some s'" "prints A {slot} cs s1 s'"
      using Cons.IH [OF prints_ram [OF s1(2)] text_at_prints [OF c(3) s1(2)]] by blast
    then show ?case using s1 c prints_trans by (fastforce simp: u_put_str.simps [of slot p s])
  qed
  then show ?thesis using assms(3) by (auto simp: prints_def)
qed


subsection \<open>Numbers\<close>

lemma user_store_ram:
  assumes "user_ram A s" "\<forall>i < length bs. p + of_nat i \<in> A" "length bs < 2 ^ 64"
  obtains m where "user_store p bs s = Some (s\<lparr>kmem := m\<rparr>)" "user_ram A (s\<lparr>kmem := m\<rparr>)"
    "\<And>a. a \<in> A \<Longrightarrow> user_read a (s\<lparr>kmem := m\<rparr>) = (if unat (a - p) < length bs then Some (bs ! unat (a - p)) else user_read a s)"
proof -
  have "\<exists>m. user_store p bs s = Some (s\<lparr>kmem := m\<rparr>) \<and> user_ram A (s\<lparr>kmem := m\<rparr>)
    \<and> (\<forall>a \<in> A. user_read a (s\<lparr>kmem := m\<rparr>) = (if unat (a - p) < length bs then Some (bs ! unat (a - p)) else user_read a s))"
    using assms
  proof (induction bs arbitrary: p s)
    case Nil
    then show ?case by (intro exI [of _ "kmem s"]) simp
  next
    case (Cons b bs)
    have "p \<in> A" using Cons.prems(2) [rule_format, of 0] by simp
    then obtain m where m: "user_write p b s = Some (s\<lparr>kmem := m\<rparr>)" "user_ram A (s\<lparr>kmem := m\<rparr>)"
      "\<And>a. a \<in> A \<Longrightarrow> user_read a (s\<lparr>kmem := m\<rparr>) = (if a = p then Some b else user_read a s)"
      using user_ram_write [OF Cons.prems(1), of p b] by blast
    have "p + 1 + of_nat i \<in> A" if "i < length bs" for i using Cons.prems(2) [rule_format, of "Suc i"] that by (simp add: add.assoc)
    then obtain m' where m': "user_store (p + 1) bs (s\<lparr>kmem := m\<rparr>) = Some (s\<lparr>kmem := m'\<rparr>)" "user_ram A (s\<lparr>kmem := m'\<rparr>)"
      "\<forall>a \<in> A. user_read a (s\<lparr>kmem := m'\<rparr>) = (if unat (a - (p + 1)) < length bs then Some (bs ! unat (a - (p + 1))) else user_read a (s\<lparr>kmem := m\<rparr>))"
      using Cons.IH [OF m(2), of "p + 1"] Cons.prems(3) by auto
    have "user_read a (s\<lparr>kmem := m'\<rparr>) = (if unat (a - p) < length (b # bs) then Some ((b # bs) ! unat (a - p)) else user_read a s)" if a: "a \<in> A" for a
    proof (cases "a = p")
      case True
      have "\<not> unat (p - (p + 1)) < length bs"
      proof -
        have "p - (p + 1) = - 1" by simp
        then show ?thesis using Cons.prems(3) by (simp only:) (simp add: unsigned_minus_1_eq_mask mask_eq_exp_minus_1)
      qed
      then show ?thesis using m'(3) m(3) a True by simp
    next
      case False
      have "unat (a - p) = Suc (unat (a - (p + 1)))"
      proof -
        have "a - p \<noteq> 0" using False by simp
        then have "unat (a - p - 1) = unat (a - p) - 1" "0 < unat (a - p)" by (simp_all add: unat_minus_one unat_gt_0)
        moreover have "a - (p + 1) = a - p - 1" by simp
        ultimately show ?thesis by (simp only:)
      qed
      then show ?thesis using m'(3) m(3) a False by simp
    qed
    then show ?case using m(1) m'(1,2) by (intro exI [of _ m']) simp
  qed
  then show thesis using that by blast
qed

text \<open>The text of a number in base 10 or 16.\<close>

definition int_text :: "int \<Rightarrow> int \<Rightarrow> u8 list" where
  "int_text base d = (if base = 10 then (if d < 0 then [45] else []) @ rev (u_digits 10 (to_u64 \<bar>d\<bar>)) else rev (u_digits 16 (to_u64 d)))"

lemma hex_digit: "u_digit (v mod 16) \<noteq> 0"
proof -
  have "unat (v mod 16) < 16" by (simp add: unat_mod_distrib)
  then have "v mod 16 \<in> of_nat ` {..<16}" by (intro image_eqI [of _ _ "unat (v mod 16)"]) simp_all
  moreover have "\<forall>r \<in> of_nat ` {..<16}. u_digit r \<noteq> 0" by code_simp
  ultimately show ?thesis by blast
qed

lemma hex_digits: "0 \<notin> set (u_digits 16 v)" "unat v < 16 ^ Suc k \<Longrightarrow> length (u_digits 16 v) \<le> Suc k"
proof -
  show "0 \<notin> set (u_digits 16 v)"
  proof (induction "16 :: u64" v rule: u_digits.induct)
    case (1 ud)
    then show ?case using hex_digit [of ud] by (auto simp: u_digits.simps [of 16 ud])
  qed
  show "unat v < 16 ^ Suc k \<Longrightarrow> length (u_digits 16 v) \<le> Suc k"
  proof (induction k arbitrary: v)
    case 0
    then have "v div 16 = 0" by (simp add: word_unat_eq_iff unat_div_distrib)
    then show ?case by (simp add: u_digits.simps)
  next
    case (Suc k)
    have "unat (v div 16) < 16 ^ Suc k" using Suc.prems by (simp add: unat_div_distrib less_mult_imp_div_less)
    from Suc.IH [OF this] show ?case by (simp add: u_digits.simps [of 16 v])
  qed
qed

lemma int_text_ok:
  assumes "base = 10 \<and> \<bar>d\<bar> < 2 ^ 31 \<or> base = 16"
  shows "0 \<notin> set (int_text base d)" "length (int_text base d) \<le> 16"
    "unat buf + 32 < 2 ^ 64 \<Longrightarrow> u_itoa m buf base d = Some (write_bytes m buf (int_text base d @ [0]))"
proof -
  have dec: "unat (to_u64 \<bar>d\<bar>) = nat \<bar>d\<bar>" if "\<bar>d\<bar> < 2 ^ 31" using that by (intro to_u64_small) simp_all
  have l10: "length (u_digits 10 (to_u64 \<bar>d\<bar>)) \<le> Suc 9" if "\<bar>d\<bar> < 2 ^ 31"
    using dec [OF that] that by (intro u_digits_length) simp
  have l16: "length (u_digits 16 (to_u64 d)) \<le> Suc 15" using unat_lt_2p64 [of "to_u64 d"] by (intro hex_digits(2)) simp
  show "0 \<notin> set (int_text base d)" using hex_digits(1) [of "to_u64 d"] u_digits_decimal [of 0 "to_u64 \<bar>d\<bar>"] by (auto simp: int_text_def)
  show "length (int_text base d) \<le> 16" using l10 l16 assms by (auto simp: int_text_def)
  assume b: "unat buf + 32 < 2 ^ 64"
  show "u_itoa m buf base d = Some (write_bytes m buf (int_text base d @ [0]))"
  proof (cases "base = 10")
    case True
    then show ?thesis using u_itoa_text [of buf d m] assms b by (simp add: int_text_def)
  next
    case False
    define ds where "ds = u_digits 16 (to_u64 d)"
    have "ds \<noteq> []" unfolding ds_def by (subst u_digits.simps) simp
    then have "u_reverse_loop ((write_bytes m buf ds)(buf + of_nat (length ds) := 0)) buf (buf + of_nat (length ds) - 1) = write_bytes m buf (rev ds @ [0])"
      using b l16 by (intro u_reverse_text) (simp_all add: ds_def)
    then show ?thesis using False assms by (simp add: u_itoa_def int_text_def Let_def u_digits_loop_eq ds_def del: fun_upd_apply)
  qed
qed

subsection \<open>All conversions\<close>

text \<open>The scratch bytes: the parameter of \<^verbatim>\<open>putchar\<close> and the buffer of \<^verbatim>\<open>printf\<close>.\<close>

definition printf_frame :: "u64 \<Rightarrow> u64 \<Rightarrow> u64 set \<Rightarrow> u64 set \<Rightarrow> bool" where
  "printf_frame slot buf A W \<longleftrightarrow> slot \<in> A \<and> slot \<in> W \<and> (\<forall>i < 32. buf + of_nat i \<in> A \<and> buf + of_nat i \<in> W \<and> buf + of_nat i \<noteq> slot)
     \<and> unat buf + 32 < 2 ^ 64"

lemma u_put_int_prints:
  assumes ram: "user_ram A s" and fr: "printf_frame slot buf A W" and b: "base = 10 \<and> \<bar>d\<bar> < 2 ^ 31 \<or> base = 16"
  shows "\<exists>s'. u_put_int slot buf base d s = Some s' \<and> prints A W (int_text base d) s s'"
proof -
  let ?t = "int_text base d"
  let ?m = "write_bytes (\<lambda>_. 0) buf (?t @ [0])"
  note t = int_text_ok [OF b]
  have bf: "unat buf + 32 < 2 ^ 64" "buf + of_nat i \<in> A \<and> buf + of_nat i \<in> W \<and> buf + of_nat i \<noteq> slot" if "i < 32" for i
    using fr that by (simp_all add: printf_frame_def)
  have it: "u_itoa (\<lambda>_. 0) buf base d = Some ?m" using t(3) bf(1) [of 0] by simp
  have cs: "cstr ?m buf ?t" using t(1,2) by (intro cstr_write_bytes) auto
  have bytes: "map (\<lambda>i. ?m (buf + of_nat i)) [0..<Suc (length ?t)] = ?t @ [0]"
  proof (rule nth_equalityI)
    fix i assume "i < length (map (\<lambda>i. ?m (buf + of_nat i)) [0..<Suc (length ?t)])"
    then have i: "i < Suc (length ?t)" by (simp only: length_map length_upt)
    then have "unat (of_nat i :: u64) = i" using t(2) by (simp add: unat_of_nat)
    then show "map (\<lambda>i. ?m (buf + of_nat i)) [0..<Suc (length ?t)] ! i = (?t @ [0]) ! i"
      using i t(2) by (subst write_bytes_eq) (simp_all del: upt_Suc add: nth_append)
  qed simp
  have "\<forall>i < length (?t @ [0]). buf + of_nat i \<in> A" using bf(2) t(2) by simp
  then obtain m where m: "user_store buf (?t @ [0]) s = Some (s\<lparr>kmem := m\<rparr>)" "user_ram A (s\<lparr>kmem := m\<rparr>)"
    "\<And>a. a \<in> A \<Longrightarrow> user_read a (s\<lparr>kmem := m\<rparr>) = (if unat (a - buf) < length (?t @ [0]) then Some ((?t @ [0]) ! unat (a - buf)) else user_read a s)"
    using user_store_ram [OF ram, of "?t @ [0]" buf] t(2) by auto
  let ?s = "s\<lparr>kmem := m\<rparr>"
  have rd: "user_read (buf + of_nat i) ?s = Some ((?t @ [0]) ! i)" if "i \<le> length ?t" for i
  proof -
    have "unat (of_nat i :: u64) = i" using that t(2) by (simp add: unat_of_nat)
    then show ?thesis using m(3) [of "buf + of_nat i"] bf(2) [of i] that t(2) by simp
  qed
  moreover have "str_addrs buf ?t \<subseteq> A - {slot}"
  proof
    fix a assume "a \<in> str_addrs buf ?t"
    then obtain i where "a = buf + of_nat i" "i < 32" using t(2) by (force simp: str_addrs_def)
    then show "a \<in> A - {slot}" using bf(2) by simp
  qed
  ultimately have "text_at (A - {slot}) ?s buf ?t" using t(1) by (simp add: text_at_def user_cstr_def)
  then obtain s' where s': "u_put_str slot buf ?s = Some s'" "prints A W ?t ?s s'"
    using u_put_str_prints [OF m(2), of slot W] fr unfolding printf_frame_def by blast
  have keep: "user_read a ?s = user_read a s" if "a \<in> A - W" for a
  proof -
    have "\<not> unat (a - buf) < 32" using bf(2) [of "unat (a - buf)"] that by auto
    then show ?thesis using m(3) [of a] that t(2) by simp
  qed
  have "prints A W ?t s s'" using s'(2) keep by (simp add: prints_def calm_def)
  moreover have "u_put_int slot buf base d s = Some s'"
  proof -
    have "unat (of_nat (length ?t) :: u64) = length ?t" using t(2) by (simp add: unat_of_nat)
    then show ?thesis using it u_strlen_cstr [OF cs] bytes m(1) s'(1) by (simp add: u_put_int_def del: upt_Suc)
  qed
  ultimately show ?thesis by blast
qed

text \<open>
  What \<^verbatim>\<open>printf\<close> is to print; \<open>sat q\<close> is the string at address \<open>q\<close>. An argument of the wrong kind, the least
  \<^verbatim>\<open>int\<close> and a format that ends in a percent sign have no meaning here. A conversion that \<^verbatim>\<open>printf\<close> does not know
  is printed as it is, and so is \<^verbatim>\<open>%%\<close>: with both percent signs.
\<close>

definition conv_out :: "(u64 \<Rightarrow> u8 list) \<Rightarrow> u8 \<Rightarrow> va_arg list \<Rightarrow> (u8 list \<times> va_arg list) option" where
  "conv_out sat c args =
     (if c = 99 then map_option (\<lambda>(v, as). ([word_of_int v], as)) (next_int args)
      else if c = 115 then map_option (\<lambda>(q, as). (if q = 0 then str ''(null)'' else sat q, as)) (next_u64 args)
      else if c = 100 then Option.bind (next_int args) (\<lambda>(v, as). if \<bar>v\<bar> < 2 ^ 31 then Some (int_text 10 v, as) else None)
      else if c = 120 then map_option (\<lambda>(v, as). (int_text 16 v, as)) (next_int args)
      else Some ([37, c], args))"

fun printf_out :: "(u64 \<Rightarrow> u8 list) \<Rightarrow> u8 list \<Rightarrow> va_arg list \<Rightarrow> u8 list option" where
  "printf_out sat [] args = Some []"
| "printf_out sat [c] args = (if c = 37 then None else Some [c])"
| "printf_out sat (c # d # cs) args =
     (if c \<noteq> 37 then map_option (Cons c) (printf_out sat (d # cs) args)
      else case conv_out sat d args of
             None \<Rightarrow> None
           | Some (out, as) \<Rightarrow> map_option (append out) (printf_out sat cs as))"

text \<open>The strings among the arguments are in memory, outside the scratch bytes.\<close>

definition args_at :: "u64 set \<Rightarrow> (u64 \<Rightarrow> u8 list) \<Rightarrow> va_arg list \<Rightarrow> kernel \<Rightarrow> bool" where
  "args_at B sat args s \<longleftrightarrow> (\<forall>q. VA_u64 q \<in> set args \<longrightarrow> q \<noteq> 0 \<longrightarrow> text_at B s q (sat q))"

lemma next_arg:
  "next_int args = Some (v, as) \<longleftrightarrow> args = VA_int v # as" "next_u64 args = Some (q, as) \<longleftrightarrow> args = VA_u64 q # as"
  by (cases args rule: next_int.cases; auto) (cases args rule: next_u64.cases; auto)

lemma u_printf_conv_prints:
  assumes ram: "user_ram A s" and fr: "printf_frame slot buf A W" and out: "conv_out sat c args = Some (out, as)"
    and args: "args_at (A - W) sat args s"
  shows "\<exists>s'. u_printf_conv slot buf c args s = Some (as, s') \<and> prints A W out s s' \<and> set as \<subseteq> set args"
proof -
  have sl: "slot \<in> A" "slot \<in> W" using fr by (simp_all add: printf_frame_def)
  have null: "str ''(null)'' = [40, 110, 117, 108, 108, 41]" by code_simp
  consider (char) v where "c = 99" "args = VA_int v # as" "out = [word_of_int v]"
    | (string) q where "c = 115" "args = VA_u64 q # as" "out = (if q = 0 then str ''(null)'' else sat q)"
    | (int) base v where "c = 100 \<and> base = 10 \<and> \<bar>v\<bar> < 2 ^ 31 \<or> c = 120 \<and> base = 16" "args = VA_int v # as" "out = int_text base v"
    | (other) "c \<notin> {99, 115, 100, 120}" "args = as" "out = [37, c]"
    using out by (auto simp: conv_out_def next_arg bind_eq_Some_conv split: if_splits)
  then show ?thesis
  proof cases
    case char
    then show ?thesis using u_putchar_prints_ram [OF ram sl, of "word_of_int v"] by (auto simp: u_printf_conv_def)
  next
    case string
    show ?thesis
    proof (cases "q = 0")
      case True
      then show ?thesis using string u_put_bytes_prints [OF ram sl, of "str ''(null)''"] by (auto simp: u_printf_conv_def null)
    next
      case False
      then have "text_at (A - W) s q (sat q)" using args string by (simp add: args_at_def)
      then have "text_at (A - {slot}) s q (sat q)" using sl by (auto simp: text_at_def)
      from u_put_str_prints [OF ram sl this] show ?thesis using string False by (auto simp: u_printf_conv_def)
    qed
  next
    case int
    then have b: "base = 10 \<and> \<bar>v\<bar> < 2 ^ 31 \<or> base = 16" by blast
    show ?thesis using int u_put_int_prints [OF ram fr b] by (auto simp: u_printf_conv_def)
  next
    case other
    then show ?thesis using u_put_bytes_prints [OF ram sl, of "[37, c]"] by (auto simp: u_printf_conv_def)
  qed
qed

lemma args_at_prints: "args_at (A - W) sat args s \<Longrightarrow> prints A W ds s s' \<Longrightarrow> set as \<subseteq> set args \<Longrightarrow> args_at (A - W) sat as s'"
  unfolding args_at_def using text_at_prints by blast

lemma u_printf_prints:
  assumes "user_ram A s" "printf_frame slot buf A W" "text_at (A - W) s p fmt" "args_at (A - W) sat args s" "printf_out sat fmt args = Some out"
  shows "\<exists>s'. u_printf slot buf p args s = Some s' \<and> prints A W out s s'"
  using assms(1,3-5)
proof (induction sat fmt args arbitrary: p s out rule: printf_out.induct)
  case (1 sat args)
  then show ?case by (simp add: u_printf.simps [of slot buf p] text_at_Nil prints_refl)
next
  case (2 sat c args)
  have sl: "slot \<in> A" "slot \<in> W" using assms(2) by (simp_all add: printf_frame_def)
  obtain s1 where s1: "u_putchar slot c s = Some s1" "prints A W [c] s s1" using u_putchar_prints_ram [OF 2(1) sl] by blast
  have "text_at (A - W) s1 (p + 1) []" using text_at_prints [OF _ s1(2)] 2(2) by (simp add: text_at_Cons)
  then show ?case using 2 s1 by (auto simp: u_printf.simps [of slot buf p] u_printf.simps [of slot buf "p + 1"] text_at_Cons text_at_Nil split: if_splits)
next
  case (3 sat c d cs args)
  have sl: "slot \<in> A" "slot \<in> W" using assms(2) by (simp_all add: printf_frame_def)
  have c: "user_read p s = Some c" "c \<noteq> 0" "user_read (p + 1) s = Some d" "text_at (A - W) s (p + 1) (d # cs)" "text_at (A - W) s (p + 2) cs"
    using 3(4) by (simp_all add: text_at_Cons add.assoc)
  show ?case
  proof (cases "c = 37")
    case False
    obtain s1 where s1: "u_putchar slot c s = Some s1" "prints A W [c] s s1" using u_putchar_prints_ram [OF 3(3) sl] by blast
    obtain out' where out': "printf_out sat (d # cs) args = Some out'" "out = c # out'" using 3(6) False by auto
    obtain s' where "u_printf slot buf (p + 1) args s1 = Some s'" "prints A W out' s1 s'"
      using 3(1) [OF False prints_ram [OF s1(2)] text_at_prints [OF c(4) s1(2)] args_at_prints [OF 3(5) s1(2) order_refl] out'(1)] by blast
    then show ?thesis using c False s1 out'(2) prints_trans [OF s1(2)] by (fastforce simp: u_printf.simps [of slot buf p])
  next
    case True
    obtain o1 as o2 where o: "conv_out sat d args = Some (o1, as)" "printf_out sat cs as = Some o2" "out = o1 @ o2"
      using 3(6) True by (auto split: option.splits)
    obtain s1 where s1: "u_printf_conv slot buf d args s = Some (as, s1)" "prints A W o1 s s1" "set as \<subseteq> set args"
      using u_printf_conv_prints [OF 3(3) assms(2) o(1) 3(5)] by blast
    obtain s' where "u_printf slot buf (p + 2) as s1 = Some s'" "prints A W o2 s1 s'"
      using 3(2) [OF _ o(1) refl prints_ram [OF s1(2)] text_at_prints [OF c(5) s1(2)] args_at_prints [OF 3(5) s1(2,3)] o(2)] True by blast
    then show ?thesis using c True s1 o(3) prints_trans [OF s1(2)] by (fastforce simp: u_printf.simps [of slot buf p])
  qed
qed

subsection \<open>An example\<close>

text \<open>The addresses of an array.\<close>

definition buffer :: "u64 \<Rightarrow> nat \<Rightarrow> u64 set" where
  "buffer buf n = (\<lambda>i. buf + of_nat i) ` {..<n}"

lemma bufferI: "i < n \<Longrightarrow> buf + of_nat i \<in> buffer buf n"
  by (simp add: buffer_def)


text \<open>The page at \<open>0x400000\<close> is on the frame \<open>0x5000\<close>, which starts with the bytes \<open>bs\<close>; the tables are on the frames before.\<close>

abbreviation (input) example_kva :: u64 where "example_kva \<equiv> 0xFFFF800000000000"

definition example_tables :: "u8 list \<Rightarrow> mem" where
  "example_tables bs = write64 (write64 (write64 (write64 (write_bytes (\<lambda>_. 0) (example_kva + 0x5000) bs)
     (example_kva + 0x1000) 0x2007) (example_kva + 0x2000) 0x3007) (example_kva + 0x3010) 0x4007) (example_kva + 0x4000) 0x5007"

definition example_user :: "u8 list \<Rightarrow> kernel" where
  "example_user bs = example_machine\<lparr>kmem := example_tables bs, cr3 := 0x1000\<rparr>"

definition example_page :: "u64 set" where
  "example_page = {va. va - 0x400000 < 4096}"

lemma page_offset:
  fixes k :: u64
  assumes "k < 4096"
  shows "k AND 0xFFF = k" "0x400000 AND k = 0" "0x5000 AND k = 0"
proof -
  have "unat k < 2 ^ 12" using assms by (simp add: word_less_nat_alt)
  then have "take_bit 12 k = k" by (metis take_bit_nat_eq_self unsigned_take_bit_eq word_unat_eq_iff)
  then have *: "k AND 0xFFF = k" by (simp add: take_bit_eq_mask mask_eq_exp_minus_1)
  then show "k AND 0xFFF = k" .
  have "0x400000 AND k = 0x400000 AND (0xFFF AND k)" "0x5000 AND k = 0x5000 AND (0xFFF AND k)" using * by (simp_all add: and.commute)
  then show "0x400000 AND k = 0" "0x5000 AND k = 0" by (simp_all flip: and.assoc)
qed

lemma example_translate:
  fixes s :: kernel
  assumes "HHDM_OFFSET s = example_kva" "va \<in> example_page"
    and "read64 (kmem s) (example_kva + 0x1000) = 0x2007" "read64 (kmem s) (example_kva + 0x2000) = 0x3007"
      "read64 (kmem s) (example_kva + 0x3010) = 0x4007" "read64 (kmem s) (example_kva + 0x4000) = 0x5007"
  shows "translate s 0x1000 va = Some (0x5000 + (va - 0x400000))"
proof -
  define k where "k = va - 0x400000"
  have k: "k < 4096" "va = 0x400000 OR k" using assms(2) disjunctive_add_eq_or [of "0x400000" k] page_offset(2) [of k]
    by (auto simp: example_page_def k_def)
  have e: "pt_entry s 0x1000 0 = 0x2007" "pt_entry s 0x2000 0 = 0x3007" "pt_entry s 0x3000 2 = 0x4007" "pt_entry s 0x4000 0 = 0x5007"
    using assms(1,3-6) by (simp_all add: pt_entry_def pa2kva_def)
  have g: "PTE_GET_ADDR 0x2007 = 0x2000" "PTE_GET_ADDR 0x3007 = 0x3000" "PTE_GET_ADDR 0x4007 = 0x4000" "PTE_GET_ADDR 0x5007 = 0x5000"
    by code_simp+
  have "same_page 0x400000 va"
  proof -
    have "k AND 0x0000FFFFFFFFF000 = (k AND 0xFFF) AND 0x0000FFFFFFFFF000" by (simp only: page_offset(1) [OF k(1)])
    also have "\<dots> = 0" by (simp add: and.assoc)
    finally show ?thesis unfolding k(2) by (simp add: same_page_def bit.conj_disj_distrib2)
  qed
  moreover have "va_path 0x400000 = [0, 0, 2]" "PT_IDX 0x400000 = 0" by code_simp+
  ultimately have i: "va_path va = [0, 0, 2]" "PT_IDX va = 0" by (simp_all add: same_page_path)
  have o: "0x5000 OR (va AND 0xFFF) = 0x5000 + (va - 0x400000)"
  proof -
    have "va AND 0xFFF = k" unfolding k(2) using page_offset(1) [OF k(1)] by (simp add: bit.conj_disj_distrib2)
    then show ?thesis using disjunctive_add_eq_or [of "0x5000" k] page_offset(3) [OF k(1)] by (simp add: k_def)
  qed
  have p: "(0x2007 :: u64) AND 1 \<noteq> 0" "(0x3007 :: u64) AND 1 \<noteq> 0" "(0x4007 :: u64) AND 1 \<noteq> 0" "(0x5007 :: u64) AND 1 \<noteq> 0" by simp_all
  have "va_pte s 0x1000 va = 0x5007" unfolding va_pte_def pte_at_def i using e g p by simp
  then show ?thesis using g p o by (simp add: translate_def)
qed

lemma page_ram:
  fixes s :: kernel
  assumes "HHDM_OFFSET s = example_kva" "cr3 s = 0x1000"
    and "read64 (kmem s) (example_kva + 0x1000) = 0x2007" "read64 (kmem s) (example_kva + 0x2000) = 0x3007"
      "read64 (kmem s) (example_kva + 0x3010) = 0x4007" "read64 (kmem s) (example_kva + 0x4000) = 0x5007"
  shows "user_ram example_page s" "va \<in> example_page \<Longrightarrow> user_read va s = Some (kmem s (example_kva + 0x5000 + (va - 0x400000)))"
proof -
  let ?\<tau> = "\<lambda>va. 0x5000 + (va - 0x400000) :: u64"
  show "va \<in> example_page \<Longrightarrow> user_read va s = Some (kmem s (example_kva + 0x5000 + (va - 0x400000)))"
    using example_translate [OF assms(1) _ assms(3-6)] assms(1,2) by (simp add: user_read_def pa2kva_def ac_simps)
  show "user_ram example_page s" unfolding user_ram_def
  proof (intro exI [of _ ?\<tau>] conjI allI impI ballI)
    show "inj_on ?\<tau> example_page" by (simp add: inj_on_def)
    fix m va
    assume va: "va \<in> example_page" and m: "\<forall>x. x \<notin> (\<lambda>va. pa2kva s (?\<tau> va)) ` example_page \<longrightarrow> m x = kmem s x"
    have out: "m x = kmem s x" if "\<not> x - (example_kva + 0x5000) < 4096" for x
    proof -
      have "x \<notin> (\<lambda>va. pa2kva s (?\<tau> va)) ` example_page"
        using that assms(1) by (auto simp: example_page_def pa2kva_def algebra_simps)
      then show ?thesis using m by blast
    qed
    have "read64 m (example_kva + 0x1000) = 0x2007" "read64 m (example_kva + 0x2000) = 0x3007"
      "read64 m (example_kva + 0x3010) = 0x4007" "read64 m (example_kva + 0x4000) = 0x5007"
      using assms(3-6) by (simp_all add: read64_def out)
    then show "translate (s\<lparr>kmem := m\<rparr>) (cr3 s) va = Some (?\<tau> va)"
      unfolding assms(2) using assms(1) va by (intro example_translate) simp_all
  qed
qed

lemma example_user_fields:
  "kmem (example_user bs) = example_tables bs" "cr3 (example_user bs) = 0x1000" "HHDM_OFFSET (example_user bs) = example_kva"
  "kbd (example_user bs) = kbd example_machine" "interrupt_handlers (example_user bs) = interrupt_handlers example_machine"
  using example_machine_mem(1) by (simp_all add: example_user_def pages_same_def example_fork_fields)

lemma example_entries:
  "read64 (example_tables bs) (example_kva + 0x1000) = 0x2007" "read64 (example_tables bs) (example_kva + 0x2000) = 0x3007"
  "read64 (example_tables bs) (example_kva + 0x3010) = 0x4007" "read64 (example_tables bs) (example_kva + 0x4000) = 0x5007"
  by (simp_all add: example_tables_def read64_write64 read64_write64_other aligned8_def)

lemma example_user_ram:
  "user_ram example_page (example_user bs)"
  "i < length bs \<Longrightarrow> length bs \<le> 4096 \<Longrightarrow> user_read (0x400000 + of_nat i) (example_user bs) = Some (bs ! i)"
proof -
  note r = page_ram [of "example_user bs", unfolded example_user_fields, OF refl refl example_entries]
  show "user_ram example_page (example_user bs)" by (rule r(1))
  assume i: "i < length bs" "length bs \<le> 4096"
  then have u: "unat (of_nat i :: u64) = i" by (simp add: unat_of_nat)
  then have p: "0x400000 + of_nat i \<in> example_page" using i by (simp add: example_page_def word_less_nat_alt)
  have "example_tables bs (example_kva + 0x5000 + of_nat i) = write_bytes (\<lambda>_. 0) (example_kva + 0x5000) bs (example_kva + 0x5000 + of_nat i)"
  proof -
    have "8 \<le> c + of_nat i" if "c \<in> {0x4000, 0x3000, 0x1FF0, 0x1000 :: u64}" for c
    proof -
      have "unat (c + of_nat i) = unat c + i" using that i u by (subst unat_add_no_overflow) auto
      then show ?thesis using that by (auto simp: word_le_nat_alt)
    qed
    then have w: "write64 m (example_kva + 0x5000 - c) v (example_kva + 0x5000 + of_nat i) = m (example_kva + 0x5000 + of_nat i)"
      if "c \<in> {0x4000, 0x3000, 0x1FF0, 0x1000}" for m c v
      using that by (intro write64_other) (simp add: add.commute)
    have "example_kva + 0x5000 - 0x4000 = example_kva + 0x1000" "example_kva + 0x5000 - 0x3000 = example_kva + 0x2000"
      "example_kva + 0x5000 - 0x1FF0 = example_kva + 0x3010" "example_kva + 0x5000 - 0x1000 = example_kva + 0x4000" by simp_all
    with w [of "0x4000"] w [of "0x3000"] w [of "0x1FF0"] w [of "0x1000"] show ?thesis unfolding example_tables_def by (simp only: insertI1 insertI2 simp_thms)
  qed
  also have "\<dots> = bs ! i" using i u by (subst write_bytes_eq) simp_all
  finally show "user_read (0x400000 + of_nat i) (example_user bs) = Some (bs ! i)" using r(2) [OF p] by simp
qed

definition example_frame :: "u64 set" where
  "example_frame = {va. 0x400100 \<le> va \<and> va < 0x400140}"

lemma example_sets:
  "n + k \<le> 4096 \<Longrightarrow> buffer (0x400000 + of_nat n) k = {a. 0x400000 + n \<le> unat a \<and> unat a < 0x400000 + n + k}"
  "example_page = {a. 0x400000 \<le> unat a \<and> unat a < 0x401000}" "example_frame = {a. 0x400100 \<le> unat a \<and> unat a < 0x400140}"
proof -
  have u: "unat (0x400000 + of_nat i :: u64) = 0x400000 + i" if "i < 4096" for i
    using that by (subst unat_add_no_overflow) (simp_all add: unat_of_nat)
  have recover: "a = 0x400000 + of_nat i" if "unat a = 0x400000 + i" "i < 4096" for a :: u64 and i
    using that u [of i] by (simp add: word_unat_eq_iff)
  show "buffer (0x400000 + of_nat n) k = {a. 0x400000 + n \<le> unat a \<and> unat a < 0x400000 + n + k}" if nk: "n + k \<le> 4096"
  proof (intro set_eqI iffI)
    fix a assume "a \<in> buffer (0x400000 + of_nat n) k"
    then obtain i where "a = 0x400000 + of_nat (n + i)" "i < k" by (auto simp: buffer_def add.assoc)
    then show "a \<in> {a. 0x400000 + n \<le> unat a \<and> unat a < 0x400000 + n + k}" using u [of "n + i"] nk by simp
  next
    fix a assume a: "a \<in> {a :: u64. 0x400000 + n \<le> unat a \<and> unat a < 0x400000 + n + k}"
    define i where "i = unat a - (0x400000 + n)"
    have "unat a = 0x400000 + (n + i)" "i < k" using a by (auto simp: i_def)
    then have "a = 0x400000 + of_nat n + of_nat i" using recover [of a "n + i"] nk by (simp add: add.assoc)
    then show "a \<in> buffer (0x400000 + of_nat n) k" using bufferI \<open>i < k\<close> by blast
  qed
  show "example_frame = {a. 0x400100 \<le> unat a \<and> unat a < 0x400140}"
    by (auto simp: example_frame_def word_le_nat_alt word_less_nat_alt)
  show "example_page = {a. 0x400000 \<le> unat a \<and> unat a < 0x401000}"
  proof (intro set_eqI iffI)
    fix a assume "a \<in> example_page"
    then have "unat (a - 0x400000) < 4096" by (simp add: example_page_def word_less_nat_alt)
    then show "a \<in> {a. 0x400000 \<le> unat a \<and> unat a < 0x401000}" using u [of "unat (a - 0x400000)"] by simp
  next
    fix a assume a: "a \<in> {a :: u64. 0x400000 \<le> unat a \<and> unat a < 0x401000}"
    then have "unat (a - 0x400000) = unat a - 0x400000" by (simp add: unat_sub_le word_le_nat_alt)
    then show "a \<in> example_page" using a by (auto simp: example_page_def word_less_nat_alt)
  qed
qed

text \<open>A string in the page.\<close>

lemma example_text:
  assumes "take (length cs + 1) (drop n bs) = cs @ [0]" "n + length cs < length bs" "length bs \<le> 4096" "0 \<notin> set cs"
  shows "text_at (buffer (0x400000 + of_nat n) (length cs + 1)) (example_user bs) (0x400000 + of_nat n) cs"
proof -
  have "user_read (0x400000 + of_nat n + of_nat i) (example_user bs) = Some ((cs @ [0]) ! i)" if "i \<le> length cs" for i
  proof -
    have "(cs @ [0]) ! i = bs ! (n + i)" using that assms(2) by (simp flip: assms(1))
    moreover have "user_read (0x400000 + of_nat (n + i)) (example_user bs) = Some (bs ! (n + i))"
      using that assms(2,3) by (intro example_user_ram) simp_all
    ultimately show ?thesis by (simp add: add.assoc)
  qed
  moreover have "str_addrs p cs \<subseteq> buffer p (length cs + 1)" for p by (auto simp: str_addrs_def buffer_def)
  ultimately show ?thesis using assms(4) by (simp add: text_at_def user_cstr_def)
qed

lemma text_at_mono: "text_at B s p cs \<Longrightarrow> B \<subseteq> C \<Longrightarrow> text_at C s p cs"
  by (auto simp: text_at_def)

lemma example_text_in:
  assumes "take (length cs + 1) (drop n bs) = cs @ [0]" "n + length cs < length bs" "length bs \<le> 4096" "0 \<notin> set cs"
    and "\<And>a. 0x400000 + n \<le> unat a \<Longrightarrow> unat a \<le> 0x400000 + n + length cs \<Longrightarrow> a \<in> B" and "p = 0x400000 + of_nat n"
  shows "text_at B (example_user bs) p cs"
proof -
  have "buffer (0x400000 + of_nat n) (length cs + 1) \<subseteq> B" using assms(2,3,5) by (subst example_sets(1)) auto
  then show ?thesis using text_at_mono [OF example_text [OF assms(1-4)]] assms(6) by simp
qed

lemma example_printf_frame: "printf_frame 0x400100 0x400110 example_page example_frame"
proof -
  have "unat (0x400110 + of_nat i :: u64) = 0x400110 + i" if "i < 32" for i
    using that by (subst unat_add_no_overflow) (simp_all add: unat_of_nat)
  then have "0x400110 + of_nat i \<in> example_page \<and> 0x400110 + of_nat i \<in> example_frame \<and> 0x400110 + of_nat i \<noteq> (0x400100 :: u64)" if "i < 32" for i
    using that by (simp add: example_sets(2,3) word_unat_eq_iff)
  then show ?thesis by (simp add: printf_frame_def example_sets(2,3))
qed

subsection \<open>Properties\<close>

text \<open>
  C16: what a user program prints reaches the screen. For every format and arguments that match it, \<^verbatim>\<open>printf\<close>
  ends, and all its traps, system calls and reads of user memory together have the effect that the
  console has printed exactly the text the format stands for, with \<^verbatim>\<open>%c\<close>, \<^verbatim>\<open>%s\<close>, \<^verbatim>\<open>%d\<close> and \<^verbatim>\<open>%x\<close> replaced; the files,
  the open descriptors, the current process and the memory of the program outside the scratch
  bytes of \<^verbatim>\<open>printf\<close> are as before.
\<close>

theorem user_printf_prints:
  assumes "user_ram A s" "printf_frame slot buf A W" "text_at (A - W) s p fmt" "args_at (A - W) sat args s" "printf_out sat fmt args = Some out"
  shows "\<exists>s'. u_printf slot buf p args s = Some s' \<and> kbd s' = (kbd s)\<lparr>con := fold kprint_char out (con (kbd s))\<rparr>
    \<and> (\<forall>a \<in> A - W. user_read a s' = user_read a s)
    \<and> current_proc s' = current_proc s \<and> files s' = files s \<and> global_file_table s' = global_file_table s"
  using u_printf_prints [OF assms] by (auto simp: prints_def calm_def)

theorem user_printf_prints_witness:
  "\<exists>s'. u_printf 0x400100 0x400110 0x400000 [VA_u64 0x400010, VA_int (-7)] (example_user (str ''%s=%d'' @ replicate 11 0 @ str ''pid'' @ [0])) = Some s'
    \<and> kbd s' = (kbd example_machine)\<lparr>con := fold kprint_char (str ''pid=-7'') (con (kbd example_machine))\<rparr>"
proof -
  let ?bs = "str ''%s=%d'' @ replicate 11 0 @ str ''pid'' @ [0]" and ?B = "example_page - example_frame"
  have fmt: "text_at ?B (example_user ?bs) 0x400000 (str ''%s=%d'')"
    by (rule example_text_in [where n = 0]) (simp_all add: str_def example_sets(2,3))
  have "text_at ?B (example_user ?bs) 0x400010 (str ''pid'')"
    by (rule example_text_in [where n = 16]) (simp_all add: str_def example_sets(2,3))
  then have args: "args_at ?B (\<lambda>_. str ''pid'') [VA_u64 0x400010, VA_int (-7)] (example_user ?bs)" by (simp add: args_at_def)
  have "printf_out (\<lambda>_. str ''pid'') (str ''%s=%d'') [VA_u64 0x400010, VA_int (-7)] = Some (str ''pid=-7'')" by code_simp
  from user_printf_prints [OF example_user_ram(1) example_printf_frame fmt args this] show ?thesis unfolding example_user_fields by blast
qed

end
