(* ===== verification/Shell.thy ===== *)
theory Shell
  imports UserIO "HOL-Library.Monad_Syntax"
begin

text \<open>
  The first user program, \<^verbatim>\<open>usr/usrmain.c\<close>, and the shell, \<^verbatim>\<open>usr/shell.c\<close>, on top of the user library and the
  system calls. What the user types is a list of lists of scancodes: each is what the keyboard
  interrupts deliver before the program polls the keyboard once more. Other interrupts are left out.
  The value \<open>None\<close> stands for a fault, for a program that still waits for input when the list is used up, and
  for a call that does not come back to this process.
\<close>

subsection \<open>The program in memory\<close>

text \<open>
  Where the compiler has put the string constants and the local variables whose address is taken;
  \<open>exec_junk\<close> is the uninitialised value that \<^verbatim>\<open>execve\<close> uses.
\<close>

record layout =
  lit :: "string \<Rightarrow> u64"
  putc_slot :: u64
  num_buf :: u64
  c_slot :: u64
  prompt_buf :: u64
  run_buf :: u64
  ls_buf :: u64
  cat_buf :: u64
  input_buf :: u64
  cwd_buf :: u64
  status_slot :: u64
  exec_junk :: u64

definition uprintf :: "layout \<Rightarrow> string \<Rightarrow> va_arg list \<Rightarrow> kernel \<Rightarrow> kernel option" where
  "uprintf L fmt args s = u_printf (putc_slot L) (num_buf L) (lit L fmt) args s"

text \<open>The string routines on the memory of the program. The strings they are given have to end.\<close>

definition user_view :: "kernel \<Rightarrow> mem" where
  "user_view s va = (case user_read va s of None \<Rightarrow> 0 | Some b \<Rightarrow> b)"

definition user_strlen :: "u64 \<Rightarrow> kernel \<Rightarrow> u64 option" where
  "user_strlen p s = do { _ \<leftarrow> user_string s p; u_strlen (user_view s) p }"

definition user_strcmp :: "u64 \<Rightarrow> u64 \<Rightarrow> kernel \<Rightarrow> int option" where
  "user_strcmp p q s = do { _ \<leftarrow> user_string s p; _ \<leftarrow> user_string s q; u_strcmp (user_view s) p q }"

definition user_atoi :: "u64 \<Rightarrow> kernel \<Rightarrow> int option" where
  "user_atoi p s = do { _ \<leftarrow> user_string s p; u_atoi (user_view s) p }"

text \<open>\<^verbatim>\<open>strtok\<close> stores at most one byte: a zero in front of the place it keeps.\<close>

definition user_strtok :: "u64 \<Rightarrow> u64 \<Rightarrow> u64 \<Rightarrow> kernel \<Rightarrow> (u64 \<times> u64 \<times> kernel) option" where
  "user_strtok p delim backup s =
     (let b0 = (if p \<noteq> 0 then p else backup)
      in if b0 = 0 then Some (0, b0, s)
         else do {
           _ \<leftarrow> user_string s b0;
           _ \<leftarrow> user_string s delim;
           (m, ret, b') \<leftarrow> u_strtok (user_view s) p delim backup;
           if b' = 0 then Some (ret, b', s)
           else do { s' \<leftarrow> user_write (b' - 1) (m (b' - 1)) s; Some (ret, b', s') }
         })"

subsection \<open>Typing\<close>

text \<open>An interrupt of the keyboard while the program runs; the stub of \<^verbatim>\<open>irq1\<close> pushes number 33.\<close>

definition key_interrupt :: "u8 \<Rightarrow> kernel \<Rightarrow> kernel option" where
  "key_interrupt scancode s =
     (let fr = tss_rsp0 s - sizeof_trap_frame; f = (trap_frames s fr)\<lparr>int_no := 33, err_code := 0\<rparr>
      in case isr_handler 0 scancode fr (s\<lparr>trap_frames := (trap_frames s)(fr := f)\<rparr>) of
           Some (Resumed s') \<Rightarrow> Some s'
         | _ \<Rightarrow> None)"

fun key_interrupts :: "u8 list \<Rightarrow> kernel \<Rightarrow> kernel option" where
  "key_interrupts [] s = Some s"
| "key_interrupts (k # ks) s = Option.bind (key_interrupt k s) (key_interrupts ks)"

text \<open>
  \<^verbatim>\<open>getline\<close>. One element of \<open>keys\<close> is used for each round of the loop; the result has the rest of them. The
  character is passed to \<^verbatim>\<open>printf\<close> as a signed \<^verbatim>\<open>char\<close>.
\<close>

fun getline_loop :: "layout \<Rightarrow> u64 \<Rightarrow> int \<Rightarrow> u8 list list \<Rightarrow> int \<Rightarrow> kernel \<Rightarrow> (u8 list list \<times> kernel) option" where
  "getline_loop L buf max_len [] i s =
     (if i < max_len - 1 then None else map_option (Pair []) (user_write (buf + to_u64 i) 0 s))"
| "getline_loop L buf max_len (ks # keys) i s =
     (if i < max_len - 1
      then do {
        s0 \<leftarrow> key_interrupts ks s;
        s1 \<leftarrow> user_write (c_slot L) 0 s0;
        (n, s2) \<leftarrow> u_read 0 (c_slot L) 1 s1;
        if n > 0 then do {
          c \<leftarrow> user_read (c_slot L) s2;
          if c = 10 \<or> c = 13 then do {
            s3 \<leftarrow> uprintf L ''\<newline>'' [] s2;
            s4 \<leftarrow> user_write (buf + to_u64 i) 0 s3;
            Some (keys, s4)
          } else if c = 8 \<or> c = 127 then
            if i > 0 then do {
              s3 \<leftarrow> uprintf L [CHR 0x08, CHR '' '', CHR 0x08] [] s2;
              getline_loop L buf max_len keys (i - 1) s3
            } else getline_loop L buf max_len keys i s2
          else do {
            s3 \<leftarrow> user_write (buf + to_u64 i) c s2;
            s4 \<leftarrow> uprintf L ''%c'' [VA_int (sint c)] s3;
            getline_loop L buf max_len keys (i + 1) s4
          }
        } else getline_loop L buf max_len keys i s2
      } else map_option (Pair (ks # keys)) (user_write (buf + to_u64 i) 0 s))"

definition getline :: "layout \<Rightarrow> u64 \<Rightarrow> int \<Rightarrow> u8 list list \<Rightarrow> kernel \<Rightarrow> (u8 list list \<times> kernel) option" where
  "getline L buf max_len keys s = getline_loop L buf max_len keys 0 s"

definition prompt_str :: "layout \<Rightarrow> string \<Rightarrow> u64 \<Rightarrow> int \<Rightarrow> u8 list list \<Rightarrow> kernel \<Rightarrow> (u8 list list \<times> kernel) option" where
  "prompt_str L prompt buf max_len keys s = do {
     s1 \<leftarrow> uprintf L ''    -> %s'' [VA_u64 (lit L prompt)] s;
     getline L buf max_len keys s1
   }"

definition prompt_int :: "layout \<Rightarrow> string \<Rightarrow> u8 list list \<Rightarrow> kernel \<Rightarrow> (int \<times> u8 list list \<times> kernel) option" where
  "prompt_int L prompt keys s = do {
     s1 \<leftarrow> uprintf L ''    -> %s'' [VA_u64 (lit L prompt)] s;
     (rest, s2) \<leftarrow> getline L (prompt_buf L) 64 keys s1;
     v \<leftarrow> user_atoi (prompt_buf L) s2;
     Some (v, rest, s2)
   }"

subsection \<open>Commands\<close>

fun print_lines :: "layout \<Rightarrow> string list \<Rightarrow> kernel \<Rightarrow> kernel option" where
  "print_lines L [] s = Some s"
| "print_lines L (f # fs) s = Option.bind (uprintf L f [] s) (print_lines L fs)"

definition help_lines :: "string list" where
  "help_lines =
    [''\<newline>=== SudoOS Shell Help ===\<newline>'',
     ''Filesystem:\<newline>'',
     ''  ls [path]       List directory contents\<newline>'',
     ''  cd <path>       Change working directory\<newline>'',
     ''  mkdir <path>    Create a new directory\<newline>'',
     ''  pwd             Print current working directory\<newline>'',
     ''  touch <file>    Create a new empty file\<newline>'',
     ''  cat <file>      Display file content\<newline>'',
     ''  echo <text>     Print text (use > to write to file)\<newline>'',
     ''\<newline>System:\<newline>'',
     ''  clear           Clear the screen\<newline>'',
     ''  run <id>        Interactive Syscall Runner\<newline>'',
     ''  exit            Exit the shell\<newline>'',
     ''\<newline>[Debug] Syscall Table (ID : Name):\<newline>'',
     ''   0 : READ          1 : WRITE         2 : OPEN\<newline>'',
     ''   3 : CLOSE         4 : STAT          5 : FSTAT\<newline>'',
     ''   8 : LSEEK         9 : MMAP         11 : MUNMAP\<newline>'',
     ''  12 : BRK          24 : YIELD        35 : NANOSLEEP\<newline>'',
     ''  39 : GETPID       57 : FORK         59 : EXECVE\<newline>'',
     ''  60 : EXIT         61 : WAIT4        79 : GETCWD\<newline>'',
     ''  80 : CHDIR        83 : MKDIR        96 : GETTIMEOFDAY\<newline>'',
     '' 110 : GETPPID     217 : GETDENTS64\<newline>'']"

definition cmd_help :: "layout \<Rightarrow> kernel \<Rightarrow> kernel option" where
  "cmd_help L s = print_lines L help_lines s"

text \<open>\<^verbatim>\<open>d_reclen\<close> is at offset 16 of a directory entry, \<^verbatim>\<open>d_type\<close> at 18 and \<^verbatim>\<open>d_name\<close> at 19.\<close>

partial_function (option) ls_entries :: "layout \<Rightarrow> int \<Rightarrow> int \<Rightarrow> int \<Rightarrow> kernel \<Rightarrow> (int \<times> kernel) option" where
  "ls_entries L bpos nread count s =
     (if bpos < nread then
        Option.bind (user_read (ls_buf L + to_u64 bpos + 18) s)
          (\<lambda>ty. Option.bind (uprintf L (if ty = 4 then ''[%s]  '' else ''%s  '') [VA_u64 (ls_buf L + to_u64 bpos + 19)] s)
            (\<lambda>s1. Option.bind (user_read_le 2 (ls_buf L + to_u64 bpos + 16) s1)
              (\<lambda>rl. ls_entries L (bpos + int (unat rl)) nread (count + 1) s1)))
      else Some (count, s))"

partial_function (option) ls_loop :: "layout \<Rightarrow> int \<Rightarrow> int \<Rightarrow> kernel \<Rightarrow> (int \<times> kernel) option" where
  "ls_loop L fd count s =
     Option.bind (u_getdents64 (word_of_int fd) (ls_buf L) 1024 s)
       (\<lambda>r. if fst r > 0 then Option.bind (ls_entries L 0 (fst r) count (snd r)) (\<lambda>q. ls_loop L fd (fst q) (snd q))
            else Some (count, snd r))"

definition cmd_ls :: "layout \<Rightarrow> u64 \<Rightarrow> kernel \<Rightarrow> kernel option" where
  "cmd_ls L path0 s =
     (let path = (if path0 = 0 then lit L ''.'' else path0)
      in do {
        (fd, s1) \<leftarrow> u_open path 0 0 s;
        if fd < 0 then uprintf L ''ls: cannot access '%s': No such file or directory\<newline>'' [VA_u64 path] s1
        else do {
          (count, s2) \<leftarrow> ls_loop L fd 0 s1;
          s3 \<leftarrow> if count > 0 then uprintf L ''\<newline>'' [] s2 else Some s2;
          map_option snd (u_close fd s3)
        }
      })"

definition cmd_cd :: "layout \<Rightarrow> u64 \<Rightarrow> kernel \<Rightarrow> kernel option" where
  "cmd_cd L path0 s =
     (let path = (if path0 = 0 then lit L ''/usr'' else path0)
      in do {
        (r, s1) \<leftarrow> u_chdir path s;
        if r < 0 then uprintf L ''cd: no such file or directory: %s\<newline>'' [VA_u64 path] s1 else Some s1
      })"

partial_function (option) cat_loop :: "layout \<Rightarrow> int \<Rightarrow> kernel \<Rightarrow> kernel option" where
  "cat_loop L fd s =
     Option.bind (u_read fd (cat_buf L) 127 s)
       (\<lambda>r. if fst r > 0
            then Option.bind (user_write (cat_buf L + to_u64 (fst r)) 0 (snd r))
              (\<lambda>s1. Option.bind (uprintf L ''%s'' [VA_u64 (cat_buf L)] s1) (\<lambda>s2. cat_loop L fd s2))
            else Some (snd r))"

definition cmd_cat :: "layout \<Rightarrow> u64 \<Rightarrow> kernel \<Rightarrow> kernel option" where
  "cmd_cat L path s = do {
     (fd, s1) \<leftarrow> u_open path 0 0 s;
     if fd \<ge> 0 then do {
       s2 \<leftarrow> cat_loop L fd s1;
       s3 \<leftarrow> uprintf L ''\<newline>'' [] s2;
       map_option snd (u_close fd s3)
     } else uprintf L ''File not found.\<newline>'' [] s1
   }"

definition cmd_echo :: "layout \<Rightarrow> nat \<Rightarrow> u64 list \<Rightarrow> kernel \<Rightarrow> kernel option" where
  "cmd_echo L argc args s = do {
     redirect \<leftarrow> if argc \<ge> 4 then map_option (\<lambda>r. r = 0) (user_strcmp (args ! 2) (lit L ''>'') s) else Some False;
     if redirect then do {
       (fd, s1) \<leftarrow> u_open (args ! 3) 64 0 s;
       if fd \<ge> 0 then do {
         n \<leftarrow> user_strlen (args ! 1) s1;
         (_, s2) \<leftarrow> u_write fd (args ! 1) (to_int n) s1;
         (_, s3) \<leftarrow> u_write fd (lit L ''\<newline>'') 1 s2;
         map_option snd (u_close fd s3)
       } else Some s1
     } else uprintf L ''%s\<newline>'' [VA_u64 (if args ! 1 \<noteq> 0 then args ! 1 else lit L '''')] s
   }"

subsection \<open>The command run\<close>

text \<open>
  \<^verbatim>\<open>cmd_run\<close>, one definition for each kind of its cases. The state of a command is the keys left, the
  list of the allocator, and the kernel; \<^verbatim>\<open>exit\<close> ends the program.
\<close>

type_synonym typing = "u8 list list \<times> (u64 \<times> u64) \<times> kernel"

datatype 'a flow = Continues 'a | Exits kernel

text \<open>\<^verbatim>\<open>raw_syscall\<close>; \<open>show_long\<close> prints its result, a \<^verbatim>\<open>long\<close> that \<^verbatim>\<open>printf\<close> takes for an \<^verbatim>\<open>int\<close>.\<close>

definition raw_syscall :: "layout \<Rightarrow> u64 \<Rightarrow> u64 \<Rightarrow> u64 \<Rightarrow> u64 \<Rightarrow> u64 \<Rightarrow> u64 \<Rightarrow> kernel \<Rightarrow> (u64 \<times> kernel) option" where
  "raw_syscall L n a1 a2 a3 a4 a5 s = u_syscall (exec_junk L) n a1 a2 a3 a4 a5 s"

definition show_long :: "layout \<Rightarrow> string \<Rightarrow> u64 \<Rightarrow> kernel \<Rightarrow> kernel option" where
  "show_long L fmt ret s = uprintf L fmt [VA_int (to_int ret)] s"

definition run_read :: "layout \<Rightarrow> typing \<Rightarrow> typing option" where
  "run_read L t = (case t of (keys, ht, s) \<Rightarrow> do {
     (fd, k1, s1) \<leftarrow> prompt_int L ''File Descriptor (0 for stdin): '' keys s;
     (len, k2, s2) \<leftarrow> prompt_int L ''Bytes to read: '' k1 s1;
     (buf, ht', s3) \<leftarrow> u_malloc (to_u64 (len + 1)) ht s2;
     if buf = 0 then do { s4 \<leftarrow> uprintf L ''Error: malloc failed\<newline>'' [] s3; Some (k2, ht', s4) }
     else do {
       s4 \<leftarrow> uprintf L ''    [Executing read...]\<newline>'' [] s3;
       (ret, s5) \<leftarrow> raw_syscall L SYS_READ (to_u64 fd) buf (to_u64 len) 0 0 s4;
       s6 \<leftarrow> if 0 \<le> sint ret
         then do {
           s' \<leftarrow> user_write (buf + ret) 0 s5;
           uprintf L (''    Result: %d bytes\<newline>    Data: '' @ [CHR 0x22] @ ''%s'' @ [CHR 0x22] @ ''\<newline>'') [VA_int (to_int ret), VA_u64 buf] s'
         } else show_long L ''    Error: %d\<newline>'' ret s5;
       s7 \<leftarrow> u_free buf s6;
       Some (k2, ht', s7)
     }
   })"

definition run_write :: "layout \<Rightarrow> typing \<Rightarrow> typing option" where
  "run_write L t = (case t of (keys, ht, s) \<Rightarrow> do {
     (fd, k1, s1) \<leftarrow> prompt_int L ''File Descriptor (1 for stdout): '' keys s;
     (k2, s2) \<leftarrow> prompt_str L ''Content to write: '' (run_buf L) 128 k1 s1;
     n \<leftarrow> user_strlen (run_buf L) s2;
     (ret, s3) \<leftarrow> raw_syscall L SYS_WRITE (to_u64 fd) (run_buf L) n 0 0 s2;
     s4 \<leftarrow> show_long L ''    Result: %d\<newline>'' ret s3;
     Some (k2, ht, s4)
   })"

definition run_open :: "layout \<Rightarrow> typing \<Rightarrow> typing option" where
  "run_open L t = (case t of (keys, ht, s) \<Rightarrow> do {
     (k1, s1) \<leftarrow> prompt_str L ''Path: '' (run_buf L) 64 keys s;
     (flags, k2, s2) \<leftarrow> prompt_int L ''Flags (0=RD, 64=CREAT): '' k1 s1;
     (ret, s3) \<leftarrow> raw_syscall L SYS_OPEN (run_buf L) (to_u64 flags) 0 0 0 s2;
     s4 \<leftarrow> show_long L ''    Result (New FD): %d\<newline>'' ret s3;
     Some (k2, ht, s4)
   })"

definition run_mkdir :: "layout \<Rightarrow> typing \<Rightarrow> typing option" where
  "run_mkdir L t = (case t of (keys, ht, s) \<Rightarrow> do {
     (k1, s1) \<leftarrow> prompt_str L ''Directory Name: '' (run_buf L) 64 keys s;
     (ret, s2) \<leftarrow> raw_syscall L SYS_MKDIR (run_buf L) 493 0 0 0 s1;
     s3 \<leftarrow> show_long L ''    Result: %d\<newline>'' ret s2;
     Some (k1, ht, s3)
   })"

definition run_chdir :: "layout \<Rightarrow> typing \<Rightarrow> typing option" where
  "run_chdir L t = (case t of (keys, ht, s) \<Rightarrow> do {
     (k1, s1) \<leftarrow> prompt_str L ''Target Path: '' (run_buf L) 64 keys s;
     (ret, s2) \<leftarrow> raw_syscall L SYS_CHDIR (run_buf L) 0 0 0 0 s1;
     s3 \<leftarrow> if ret = 0 then uprintf L ''    Success.\<newline>'' [] s2 else show_long L ''    Failed (ret=%d)\<newline>'' ret s2;
     Some (k1, ht, s3)
   })"

definition run_getpid :: "layout \<Rightarrow> kernel \<Rightarrow> kernel option" where
  "run_getpid L s = do {
     (ret, s1) \<leftarrow> raw_syscall L SYS_GETPID 0 0 0 0 0 s;
     show_long L ''    My PID: %d\<newline>'' ret s1
   }"

definition run_getcwd :: "layout \<Rightarrow> kernel \<Rightarrow> kernel option" where
  "run_getcwd L s = do {
     (ret, s1) \<leftarrow> raw_syscall L SYS_GETCWD (run_buf L) 128 0 0 0 s;
     if ret \<noteq> 0 then uprintf L ''    CWD: %s\<newline>'' [VA_u64 ret] s1 else uprintf L ''    Error (ret=0)\<newline>'' [] s1
   }"

definition run_generic :: "layout \<Rightarrow> int \<Rightarrow> kernel \<Rightarrow> kernel option" where
  "run_generic L num s = do {
     s1 \<leftarrow> uprintf L ''    [Generic Mode] Executing syscall %d with 0 arguments...\<newline>'' [VA_int num] s;
     (ret, s2) \<leftarrow> raw_syscall L (to_u64 num) 0 0 0 0 0 s1;
     show_long L ''    Result: %d\<newline>'' ret s2
   }"

definition run_brk :: "layout \<Rightarrow> typing \<Rightarrow> typing option" where
  "run_brk L t = (case t of (keys, ht, s) \<Rightarrow> do {
     (addr, k1, s1) \<leftarrow> prompt_int L ''New Break Address (0 for current): '' keys s;
     (ret, s2) \<leftarrow> raw_syscall L SYS_BRK (to_u64 addr) 0 0 0 0 s1;
     s3 \<leftarrow> show_long L ''    Current Break: 0x%x\<newline>'' ret s2;
     Some (k1, ht, s3)
   })"

definition run_exit :: "layout \<Rightarrow> typing \<Rightarrow> kernel option" where
  "run_exit L t = (case t of (keys, ht, s) \<Rightarrow> do {
     (ret, k1, s1) \<leftarrow> prompt_int L ''Exit Code: '' keys s;
     u_exit ret s1
   })"

definition cmd_run :: "layout \<Rightarrow> u64 \<Rightarrow> typing \<Rightarrow> typing flow option" where
  "cmd_run L arg_id t = (case t of (keys, ht, s) \<Rightarrow>
     if arg_id = 0 then do { s1 \<leftarrow> uprintf L ''Usage: run <syscall_id>\<newline>'' [] s; Some (Continues (keys, ht, s1)) }
     else do {
       num \<leftarrow> user_atoi arg_id s;
       s1 \<leftarrow> uprintf L ''--- Interactive Syscall Run [ID: %d] ---\<newline>'' [VA_int num] s;
       let t1 = (keys, ht, s1);
       if num = 0 then map_option Continues (run_read L t1)
       else if num = 1 then map_option Continues (run_write L t1)
       else if num = 2 then map_option Continues (run_open L t1)
       else if num = 83 then map_option Continues (run_mkdir L t1)
       else if num = 80 then map_option Continues (run_chdir L t1)
       else if num = 12 then map_option Continues (run_brk L t1)
       else if num = 60 then map_option Exits (run_exit L t1)
       else map_option (\<lambda>s2. Continues (keys, ht, s2))
         (if num = 39 then run_getpid L s1 else if num = 79 then run_getcwd L s1 else run_generic L num s1)
     })"

subsection \<open>The shell\<close>

text \<open>
  The arguments, the place of \<^verbatim>\<open>strtok\<close>, the list of the allocator and the kernel between two commands. \<^verbatim>\<open>args\<close> is
  not initialised; a command line overwrites only as many entries as it has words.
\<close>

record shell =
  sh_args :: "u64 list"
  strtok_place :: u64
  heap_list :: "u64 \<times> u64"
  sh_kernel :: kernel

abbreviation (input) MAX_ARGS :: nat where "MAX_ARGS \<equiv> 16"

function parse_args :: "layout \<Rightarrow> u64 \<Rightarrow> u64 \<Rightarrow> u64 list \<Rightarrow> nat \<Rightarrow> kernel \<Rightarrow> (nat \<times> u64 list \<times> u64 \<times> kernel) option" where
  "parse_args L token backup args argc s =
     (if token \<noteq> 0 \<and> argc < MAX_ARGS
      then Option.bind (user_strtok 0 (lit L '' '') backup s)
        (\<lambda>r. parse_args L (fst r) (fst (snd r)) (args[argc := token]) (argc + 1) (snd (snd r)))
      else Some (argc, args, backup, s))"
  by pat_completeness auto
termination
  by (relation "measure (\<lambda>(L, token, backup, args, argc, s). MAX_ARGS - argc)") auto

declare parse_args.simps [simp del]

definition shell_commands :: "string list" where
  "shell_commands = [''help'', ''ls'', ''cd'', ''pwd'', ''mkdir'', ''cat'', ''touch'', ''echo'', ''clear'', ''exit'', ''run'']"

text \<open>The chain of comparisons of \<^verbatim>\<open>args[0]\<close> with the names of the commands.\<close>

fun find_command :: "layout \<Rightarrow> string list \<Rightarrow> u64 \<Rightarrow> kernel \<Rightarrow> string option" where
  "find_command L [] p s = Some ''''"
| "find_command L (w # ws) p s = do { r \<leftarrow> user_strcmp p (lit L w) s; if r = 0 then Some w else find_command L ws p s }"

definition run_command :: "layout \<Rightarrow> string \<Rightarrow> nat \<Rightarrow> u64 list \<Rightarrow> kernel \<Rightarrow> kernel option" where
  "run_command L cmd argc args s =
     (if cmd = ''help'' then cmd_help L s
      else if cmd = ''ls'' then cmd_ls L (args ! 1) s
      else if cmd = ''cd'' then cmd_cd L (args ! 1) s
      else if cmd = ''pwd'' then do {
        (r, s1) \<leftarrow> u_getcwd (cwd_buf L) 128 s;
        if r \<noteq> 0 then uprintf L ''%s\<newline>'' [VA_u64 (cwd_buf L)] s1 else Some s1
      }
      else if cmd = ''mkdir'' then do {
        (r, s1) \<leftarrow> u_mkdir (args ! 1) 493 s;
        if r < 0 then uprintf L ''mkdir failed.\<newline>'' [] s1 else Some s1
      }
      else if cmd = ''cat'' then cmd_cat L (args ! 1) s
      else if cmd = ''touch'' then do {
        (fd, s1) \<leftarrow> u_open (args ! 1) 64 0 s;
        if fd \<ge> 0 then map_option snd (u_close fd s1) else Some s1
      }
      else if cmd = ''echo'' then cmd_echo L argc args s
      else if cmd = ''clear'' then print_lines L (replicate 30 ''\<newline>'') s
      else uprintf L ''Unknown command: %s\<newline>'' [VA_u64 (args ! 0)] s)"

definition shell_dispatch :: "layout \<Rightarrow> nat \<Rightarrow> u8 list list \<Rightarrow> shell \<Rightarrow> (u8 list list \<times> shell) flow option" where
  "shell_dispatch L argc keys st = do {
     let s = sh_kernel st;
     cmd \<leftarrow> find_command L shell_commands (sh_args st ! 0) s;
     if cmd = ''exit'' then map_option Exits (u_exit 0 s)
     else if cmd = ''run'' then do {
       r \<leftarrow> cmd_run L (sh_args st ! 1) (keys, heap_list st, s);
       Some (case r of
               Exits s' \<Rightarrow> Exits s'
             | Continues (keys', ht, s') \<Rightarrow> Continues (keys', st\<lparr>heap_list := ht, sh_kernel := s'\<rparr>))
     }
     else do { s' \<leftarrow> run_command L cmd argc (sh_args st) s; Some (Continues (keys, st\<lparr>sh_kernel := s'\<rparr>)) }
   }"

text \<open>One round of the loop of \<^verbatim>\<open>shell_main\<close>, and what comes before the loop.\<close>

definition shell_round :: "layout \<Rightarrow> u8 list list \<Rightarrow> shell \<Rightarrow> (u8 list list \<times> shell) flow option" where
  "shell_round L keys st = do {
     (r, s1) \<leftarrow> u_getcwd (cwd_buf L) 128 (sh_kernel st);
     s2 \<leftarrow> if r \<noteq> 0 then uprintf L ''root@SudoOS:%s$ '' [VA_u64 (cwd_buf L)] s1 else uprintf L ''root@SudoOS:?$ '' [] s1;
     (rest, s3) \<leftarrow> getline L (input_buf L) 256 keys s2;
     n \<leftarrow> user_strlen (input_buf L) s3;
     if n = 0 then Some (Continues (rest, st\<lparr>sh_kernel := s3\<rparr>))
     else do {
       (token, place, s4) \<leftarrow> user_strtok (input_buf L) (lit L '' '') (strtok_place st) s3;
       (argc, args, place', s5) \<leftarrow> parse_args L token place (sh_args st) 0 s4;
       let st' = st\<lparr>sh_args := args, strtok_place := place', sh_kernel := s5\<rparr>;
       if argc = 0 then Some (Continues (rest, st')) else shell_dispatch L argc rest st'
     }
   }"

definition shell_start :: "layout \<Rightarrow> kernel \<Rightarrow> kernel option" where
  "shell_start L s = do {
     s1 \<leftarrow> uprintf L ''\<newline>Welcome to SudoOS Shell v3.1\<newline>'' [] s;
     s2 \<leftarrow> uprintf L ''Type 'help' for available commands.\<newline>'' [] s1;
     (r, s3) \<leftarrow> u_chdir (lit L ''/usr'') s2;
     if r < 0 then do {
       s4 \<leftarrow> uprintf L ''Warning: Could not cd to /usr. Falling back to root.\<newline>'' [] s3;
       map_option snd (u_chdir (lit L ''/'') s4)
     } else Some s3
   }"

text \<open>The loop ends only with the program: \<open>shell_run\<close> runs it until the keys are used up or the program ends.\<close>

inductive shell_run :: "layout \<Rightarrow> u8 list list \<Rightarrow> shell \<Rightarrow> (u8 list list \<times> shell) flow \<Rightarrow> bool" for L where
  stop: "shell_run L keys st (Continues (keys, st))"
| round: "shell_round L keys st = Some (Continues (keys', st')) \<Longrightarrow> shell_run L keys' st' r \<Longrightarrow> shell_run L keys st r"
| exit: "shell_round L keys st = Some (Exits s) \<Longrightarrow> shell_run L keys st (Exits s)"

subsection \<open>The first program\<close>

text \<open>\<^verbatim>\<open>usrmain\<close> up to the call of \<^verbatim>\<open>fork\<close>, and what both processes do with its result.\<close>

definition usrmain_banner :: "layout \<Rightarrow> kernel \<Rightarrow> (int \<times> kernel) option" where
  "usrmain_banner L s = do {
     s1 \<leftarrow> print_lines L [''\<newline>'', ''================================\<newline>'', ''        Welcome to SudoOS       \<newline>'',
       ''================================\<newline>''] s;
     u_fork s1
   }"

definition usrmain_forked :: "layout \<Rightarrow> int \<Rightarrow> kernel \<Rightarrow> kernel flow option" where
  "usrmain_forked L child s =
     (if child = 0 then do {
        (p, s1) \<leftarrow> u_getpid s;
        s2 \<leftarrow> uprintf L ''[System Check] Fork test: Child (PID %d) works.\<newline>'' [VA_int p] s1;
        map_option Exits (u_exit 0 s2)
      } else do {
        (_, s1) \<leftarrow> u_wait4 child (status_slot L) 0 0 s;
        s2 \<leftarrow> uprintf L ''[System Check] Fork test: Parent received child exit.\<newline>'' [] s1;
        s3 \<leftarrow> uprintf L ''Starting Shell...\<newline>'' [] s2;
        map_option Continues (shell_start L s3)
      })"

end
