(* ===== verification/Typing.thy ===== *)
theory Typing
  imports Shell
begin

text \<open>
  What the shell reads: a line that the user types, through the interrupts of the keyboard, its ring
  buffer, the system calls and the page tables, up to the words of the line in the array \<^verbatim>\<open>args\<close>.
\<close>

subsection \<open>Keys\<close>

lemma key_interrupts_run:
  assumes "interrupt_handlers s ! 33 = Some Keyboard_isr"
  shows "\<exists>s'. key_interrupts ks s = Some s' \<and> kbd s' = fold keyboard_handler ks (kbd s) \<and> kmem s' = kmem s \<and> same_map s s' \<and> calm s s'"
  using assms
proof (induction ks arbitrary: s)
  case Nil
  then show ?case by (simp add: same_map_def)
next
  case (Cons k ks)
  obtain s1 where s1: "key_interrupt k s = Some s1" "kbd s1 = keyboard_handler k (kbd s)" "kmem s1 = kmem s" "same_map s s1" "calm s s1"
    using Cons.prems by (simp add: key_interrupt_def Let_def isr_handler_def send_eoi_def run_isr_def same_map_def calm_def)
  then have "interrupt_handlers s1 ! 33 = Some Keyboard_isr" using Cons.prems by (simp add: calm_def)
  from Cons.IH [OF this] s1 show ?case by (auto simp: same_map_def intro: calm_trans)
qed

text \<open>A read from the keyboard: the character, or 0 when none waits.\<close>

lemma u_read_key:
  assumes ram: "user_ram A s" and p: "p \<in> A"
  defines "c \<equiv> fst (keyboard_get_char (kbd s))"
  shows "\<exists>s'. u_read 0 p n s = Some (if c \<noteq> 0 then 1 else 0, s') \<and> kbd s' = snd (keyboard_get_char (kbd s)) \<and> user_ram A s' \<and> calm s s'
    \<and> (\<forall>a \<in> A. user_read a s' = (if c \<noteq> 0 \<and> a = p then Some c else user_read a s))"
proof -
  let ?s = "trapped 0 0 p (to_u64 n) 0 0 s"
  define s1 where "s1 = ?s\<lparr>kbd := snd (keyboard_get_char (kbd s))\<rparr>"
  have ram1: "user_ram A s1" by (rule user_ram_cong [OF ram]) (simp_all add: s1_def same_map_def)
  have rd1: "user_read a s1 = user_read a s" for a by (rule user_read_cong) (simp_all add: s1_def)
  have z: "to_u64 0 = 0" by (simp add: to_u64_def)
  have "\<exists>s2. sys_read 0 p (to_u64 n) ?s = Some (if c \<noteq> 0 then 1 else 0, s2) \<and> kbd s2 = kbd s1 \<and> user_ram A s2 \<and> calm s s2
    \<and> (\<forall>a \<in> A. user_read a s2 = (if c \<noteq> 0 \<and> a = p then Some c else user_read a s))"
  proof (cases "c = 0")
    case True
    then show ?thesis using ram1 rd1 by (auto simp: sys_read_def c_def s1_def calm_def case_prod_unfold)
  next
    case False
    obtain m where m: "user_write p c s1 = Some (s1\<lparr>kmem := m\<rparr>)" "user_ram A (s1\<lparr>kmem := m\<rparr>)"
      "\<And>a. a \<in> A \<Longrightarrow> user_read a (s1\<lparr>kmem := m\<rparr>) = (if a = p then Some c else user_read a s1)"
      using user_ram_write [OF ram1 p, of c] by blast
    have "sys_read 0 p (to_u64 n) ?s = Some (1, s1\<lparr>kmem := m\<rparr>)"
      using False m(1) by (simp add: sys_read_def case_prod_unfold s1_def c_def)
    then show ?thesis using False m(2,3) rd1 by (intro exI [of _ "s1\<lparr>kmem := m\<rparr>"]) (simp add: calm_def s1_def)
  qed
  then obtain s2 where s2: "sys_read 0 p (to_u64 n) ?s = Some (if c \<noteq> 0 then 1 else 0, s2)" "kbd s2 = kbd s1" "user_ram A s2" "calm s s2"
    "\<forall>a \<in> A. user_read a s2 = (if c \<noteq> 0 \<and> a = p then Some c else user_read a s)" by blast
  have "sys_call 0 0 0 p (to_u64 n) ?s = Some (Some (if c \<noteq> 0 then 1 else 0), s2)" using s2(1) by (simp add: sys_call_def returns_def)
  then obtain tfs where "u_syscall 0 0 0 p (to_u64 n) 0 0 s = Some (if c \<noteq> 0 then 1 else 0, s2\<lparr>trap_frames := tfs\<rparr>)"
    by (rule u_syscall_returns) (use s2(4) in \<open>simp add: calm_def\<close>)
  moreover have "to_int 1 = 1" "to_int 0 = 0" by (simp_all add: to_int_def)
  ultimately have "u_read 0 p n s = Some (if c \<noteq> 0 then 1 else 0, s2\<lparr>trap_frames := tfs\<rparr>)" by (simp add: u_read_def ret_int_def z)
  moreover have "user_ram A (s2\<lparr>trap_frames := tfs\<rparr>)" by (rule user_ram_cong [OF s2(3)]) (simp_all add: same_map_def)
  moreover have "user_read a (s2\<lparr>trap_frames := tfs\<rparr>) = user_read a s2" for a by (rule user_read_cong) simp_all
  ultimately show ?thesis using s2 by (intro exI [of _ "s2\<lparr>trap_frames := tfs\<rparr>"]) (simp add: s1_def calm_def)
qed

subsection \<open>Lines\<close>

text \<open>
  The reference: a line editor that works on the keyboard and the console only. The line has at most
  \<open>n\<close> characters; backspace takes the last one away, on the screen too.
\<close>

definition echo :: "u8 list \<Rightarrow> keyboard \<Rightarrow> keyboard" where
  "echo cs k = k\<lparr>con := fold kprint_char cs (con k)\<rparr>"

fun line_run :: "nat \<Rightarrow> u8 list \<Rightarrow> u8 list list \<Rightarrow> keyboard \<Rightarrow> (u8 list \<times> u8 list list \<times> keyboard) option" where
  "line_run n cur [] k = (if length cur < n then None else Some (cur, [], k))"
| "line_run n cur (ks # keys) k =
     (if length cur < n
      then
        let (c, k1) = keyboard_get_char (fold keyboard_handler ks k)
        in if c = 0 then line_run n cur keys k1
           else if c = 10 \<or> c = 13 then Some (cur, keys, echo [10] k1)
           else if c = 8 \<or> c = 127 then (if cur \<noteq> [] then line_run n (butlast cur) keys (echo [8, 32, 8] k1) else line_run n cur keys k1)
           else line_run n (cur @ [c]) keys (echo [c] k1)
      else Some (cur, ks # keys, k))"

text \<open>
  The memory of \<^verbatim>\<open>getline\<close>: the scratch bytes \<open>W\<close>, the buffer of \<open>n\<close> bytes outside of them, and the string constants
  outside of both.
\<close>

definition getline_frame :: "layout \<Rightarrow> u64 \<Rightarrow> nat \<Rightarrow> u64 set \<Rightarrow> u64 set \<Rightarrow> bool" where
  "getline_frame L buf n A W \<longleftrightarrow> printf_frame (putc_slot L) (num_buf L) A W \<and> c_slot L \<in> A \<and> c_slot L \<in> W
     \<and> buffer buf n \<subseteq> A - W \<and> 0 < n \<and> n < 2 ^ 31"

definition getline_texts :: "layout \<Rightarrow> u64 set \<Rightarrow> kernel \<Rightarrow> bool" where
  "getline_texts L B s \<longleftrightarrow> text_at B s (lit L ''\<newline>'') [10] \<and> text_at B s (lit L [CHR 0x08, CHR '' '', CHR 0x08]) [8, 32, 8]
     \<and> text_at B s (lit L ''%c'') [37, 99]"

lemma text_at_frame:
  assumes "text_at B s p cs" "\<forall>a \<in> B. user_read a s' = user_read a s"
  shows "text_at B s' p cs"
  using assms user_cstr_frame [of s p cs B s'] by (simp add: text_at_def)

lemma getline_texts_frame: "getline_texts L B s \<Longrightarrow> \<forall>a \<in> B. user_read a s' = user_read a s \<Longrightarrow> getline_texts L B s'"
  unfolding getline_texts_def using text_at_frame by blast

lemma uprintf_prints:
  assumes "user_ram A s" "printf_frame (putc_slot L) (num_buf L) A W" "text_at (A - W) s (lit L f) fmt" "args_at (A - W) sat args s"
    "printf_out sat fmt args = Some out"
  shows "\<exists>s'. uprintf L f args s = Some s' \<and> prints A W out s s'"
  unfolding uprintf_def by (rule u_printf_prints [OF assms])

lemma buffer_inj: "n < 2 ^ 31 \<Longrightarrow> i < n \<Longrightarrow> j < n \<Longrightarrow> buf + of_nat i = buf + of_nat j \<longleftrightarrow> i = j" for buf :: u64
  by (auto dest: arg_cong [of _ _ unat] simp: unat_of_nat)

text \<open>The state between two rounds: the first bytes of the buffer hold the line so far.\<close>

definition editing :: "layout \<Rightarrow> u64 \<Rightarrow> nat \<Rightarrow> u64 set \<Rightarrow> u64 set \<Rightarrow> u8 list \<Rightarrow> kernel \<Rightarrow> bool" where
  "editing L buf n A W cur s \<longleftrightarrow> user_ram A s \<and> getline_texts L (A - W - buffer buf n) s \<and> interrupt_handlers s ! 33 = Some Keyboard_isr
     \<and> length cur < n \<and> (\<forall>i < length cur. user_read (buf + of_nat i) s = Some (cur ! i))"

text \<open>A step that keeps the memory of the program outside \<open>X\<close>.\<close>

definition keeps :: "u64 set \<Rightarrow> kernel \<Rightarrow> kernel \<Rightarrow> bool" where
  "keeps B s s' \<longleftrightarrow> calm s s' \<and> (\<forall>a \<in> B. user_read a s' = user_read a s)"

lemma keeps_trans: "keeps B s s1 \<Longrightarrow> keeps B s1 s2 \<Longrightarrow> keeps B s s2"
  by (auto simp: keeps_def intro: calm_trans)

lemma keeps_mono: "keeps B s s' \<Longrightarrow> C \<subseteq> B \<Longrightarrow> keeps C s s'"
  by (auto simp: keeps_def)

lemma prints_keeps: "prints A W cs s s' \<Longrightarrow> keeps (A - W) s s' \<and> user_ram A s' \<and> kbd s' = echo cs (kbd s)"
  by (simp add: prints_def keeps_def echo_def)

lemma editing_keeps:
  assumes "editing L buf n A W cur s" "keeps (A - W) s s'" "user_ram A s'" "buffer buf n \<subseteq> A - W"
  shows "editing L buf n A W cur s'"
proof -
  have "buf + of_nat i \<in> A - W" if "i < length cur" for i
    using assms(1,4) that bufferI [of i n buf] by (auto simp: editing_def)
  moreover have "getline_texts L (A - W - buffer buf n) s'" using assms(1,2) by (auto simp: editing_def keeps_def intro: getline_texts_frame)
  ultimately show ?thesis using assms(1-3) by (simp add: editing_def keeps_def calm_def)
qed

lemma getline_prints:
  assumes "editing L buf n A W cur s" "getline_frame L buf n A W"
    and "(f, args, out) \<in> {(''\<newline>'', [], [10]), ([CHR 0x08, CHR '' '', CHR 0x08], [], [8, 32, 8]), (''%c'', [VA_int (sint c)], [c])}"
  shows "\<exists>s'. uprintf L f args s = Some s' \<and> keeps (A - W) s s' \<and> editing L buf n A W cur s' \<and> kbd s' = echo out (kbd s)"
proof -
  obtain fmt where fmt: "text_at (A - W - buffer buf n) s (lit L f) fmt" "printf_out (\<lambda>_. []) fmt args = Some out"
    using assms(1,3) by (auto simp: editing_def getline_texts_def conv_out_def)
  then have "text_at (A - W) s (lit L f) fmt" using text_at_mono by blast
  moreover have "args_at (A - W) (\<lambda>_. []) args s" using assms(3) by (auto simp: args_at_def)
  ultimately obtain s' where s': "uprintf L f args s = Some s'" "prints A W out s s'"
    using uprintf_prints [of A s L W f fmt "\<lambda>_. []" args out] assms(1,2) fmt(2) by (auto simp: editing_def getline_frame_def)
  note k = prints_keeps [OF s'(2)]
  have "editing L buf n A W cur s'" using editing_keeps [OF assms(1)] k assms(2) by (simp add: getline_frame_def)
  then show ?thesis using s'(1) k by blast
qed

lemma buffer_write:
  assumes "editing L buf n A W cur s" "getline_frame L buf n A W" "i = length cur"
  shows "\<exists>s'. user_write (buf + to_u64 (int i)) c s = Some s' \<and> keeps (A - W - buffer buf n) s s' \<and> user_ram A s' \<and> kbd s' = kbd s
    \<and> getline_texts L (A - W - buffer buf n) s' \<and> (\<forall>j \<le> i. user_read (buf + of_nat j) s' = Some ((cur @ [c]) ! j))"
proof -
  have n: "i < n" "n < 2 ^ 31" "buffer buf n \<subseteq> A - W" using assms by (simp_all add: editing_def getline_frame_def)
  have u: "to_u64 (int i) = of_nat i" by (simp add: to_u64_def)
  have A: "buf + of_nat j \<in> A" if "j < n" for j using n(3) bufferI [OF that, of buf] by blast
  obtain m where m: "user_write (buf + of_nat i) c s = Some (s\<lparr>kmem := m\<rparr>)" "user_ram A (s\<lparr>kmem := m\<rparr>)"
    "\<And>a. a \<in> A \<Longrightarrow> user_read a (s\<lparr>kmem := m\<rparr>) = (if a = buf + of_nat i then Some c else user_read a s)"
    using user_ram_write [OF _ A [OF n(1)], of s c] assms(1) unfolding editing_def by blast
  have k: "\<forall>a \<in> A - W - buffer buf n. user_read a (s\<lparr>kmem := m\<rparr>) = user_read a s" using m(3) bufferI [OF n(1), of buf] by auto
  have "user_read (buf + of_nat j) (s\<lparr>kmem := m\<rparr>) = Some ((cur @ [c]) ! j)" if "j \<le> i" for j
    using m(3) [OF A, of j] that n buffer_inj [OF n(2), of j i buf] assms(1,3) by (auto simp: nth_append editing_def)
  moreover have "getline_texts L (A - W - buffer buf n) (s\<lparr>kmem := m\<rparr>)" using assms(1) getline_texts_frame [OF _ k] by (simp add: editing_def)
  ultimately show ?thesis using m(1,2) k by (intro exI [of _ "s\<lparr>kmem := m\<rparr>"]) (simp add: u keeps_def)
qed

text \<open>One poll: the keys arrive, the variable \<^verbatim>\<open>c\<close> is cleared and \<^verbatim>\<open>read\<close> called.\<close>

lemma getline_poll:
  fixes ks :: "u8 list"
  assumes ed: "editing L buf n A W cur s" and fr: "getline_frame L buf n A W"
  defines "k0 \<equiv> fold keyboard_handler ks (kbd s)"
  defines "c \<equiv> fst (keyboard_get_char k0)"
  shows "\<exists>s0 s1 s2. key_interrupts ks s = Some s0 \<and> user_write (c_slot L) 0 s0 = Some s1
    \<and> u_read 0 (c_slot L) 1 s1 = Some (if c \<noteq> 0 then 1 else 0, s2) \<and> keeps (A - W) s s2 \<and> editing L buf n A W cur s2
    \<and> kbd s2 = snd (keyboard_get_char k0) \<and> (c \<noteq> 0 \<longrightarrow> user_read (c_slot L) s2 = Some c)"
proof -
  have cs: "c_slot L \<in> A" "c_slot L \<in> W" "buffer buf n \<subseteq> A - W" using fr by (simp_all add: getline_frame_def)
  have "user_ram A s" "interrupt_handlers s ! 33 = Some Keyboard_isr" using ed by (simp_all add: editing_def)
  then obtain s0 where s0: "key_interrupts ks s = Some s0" "kbd s0 = k0" "kmem s0 = kmem s" "same_map s s0" "calm s s0"
    using key_interrupts_run [of s ks] unfolding k0_def by blast
  have r0: "user_ram A s0" using user_ram_cong [OF \<open>user_ram A s\<close> s0(3,4)] .
  have rd0: "user_read a s0 = user_read a s" for a using s0(3,4) by (intro user_read_cong) (simp_all add: same_map_def)
  obtain m where m: "user_write (c_slot L) 0 s0 = Some (s0\<lparr>kmem := m\<rparr>)" "user_ram A (s0\<lparr>kmem := m\<rparr>)"
    "\<And>a. a \<in> A \<Longrightarrow> user_read a (s0\<lparr>kmem := m\<rparr>) = (if a = c_slot L then Some 0 else user_read a s0)"
    using user_ram_write [OF r0 cs(1), of 0] by blast
  let ?s1 = "s0\<lparr>kmem := m\<rparr>"
  obtain s2 where s2: "u_read 0 (c_slot L) 1 ?s1 = Some (if c \<noteq> 0 then 1 else 0, s2)" "kbd s2 = snd (keyboard_get_char k0)"
    "user_ram A s2" "calm ?s1 s2" "\<forall>a \<in> A. user_read a s2 = (if c \<noteq> 0 \<and> a = c_slot L then Some c else user_read a ?s1)"
    using u_read_key [OF m(2) cs(1), of 1] s0(2) unfolding c_def by auto
  have "calm s s2" using s0(5) s2(4) by (simp add: calm_def)
  moreover have "user_read a s2 = user_read a s" if "a \<in> A - W" for a using s2(5) m(3) rd0 that cs(2) by auto
  ultimately have k: "keeps (A - W) s s2" by (simp add: keeps_def)
  have "editing L buf n A W cur s2" using editing_keeps [OF ed k s2(3) cs(3)] .
  then show ?thesis using s0(1) m(1) s2 k cs(1) by auto
qed

lemma getline_ends:
  assumes "editing L buf n A W cur s" "getline_frame L buf n A W" "0 \<notin> set cur"
  shows "\<exists>s'. user_write (buf + to_u64 (int (length cur))) 0 s = Some s' \<and> kbd s' = kbd s \<and> user_ram A s'
    \<and> keeps (A - W - buffer buf n) s s' \<and> text_at (buffer buf n) s' buf cur"
proof -
  have "str_addrs buf cur \<subseteq> buffer buf n" using assms(1) by (auto simp: str_addrs_def buffer_def editing_def)
  then show ?thesis using buffer_write [OF assms(1,2) refl, of 0] assms(3) by (auto simp: text_at_def user_cstr_def)
qed

lemma editing_append:
  assumes "editing L buf n A W cur s" "getline_frame L buf n A W" "length cur < n - 1"
  shows "\<exists>s'. user_write (buf + to_u64 (int (length cur))) c s = Some s' \<and> keeps (A - W - buffer buf n) s s' \<and> kbd s' = kbd s
    \<and> editing L buf n A W (cur @ [c]) s'"
proof -
  obtain s' where s': "user_write (buf + to_u64 (int (length cur))) c s = Some s'" "keeps (A - W - buffer buf n) s s'" "user_ram A s'" "kbd s' = kbd s"
    "getline_texts L (A - W - buffer buf n) s'" "\<forall>j \<le> length cur. user_read (buf + of_nat j) s' = Some ((cur @ [c]) ! j)"
    using buffer_write [OF assms(1,2) refl, of c] by blast
  have "editing L buf n A W (cur @ [c]) s'" using s' assms(1,3) by (auto simp: editing_def keeps_def calm_def)
  then show ?thesis using s' by blast
qed

lemma editing_butlast: "editing L buf n A W cur s \<Longrightarrow> editing L buf n A W (butlast cur) s"
  by (auto simp: editing_def nth_butlast)

lemma getline_loop_reads:
  assumes "editing L buf n A W cur s" "getline_frame L buf n A W" "line_run (n - 1) cur keys (kbd s) = Some (line, rest, k)" "0 \<notin> set cur"
  shows "\<exists>s'. getline_loop L buf (int n) keys (int (length cur)) s = Some (rest, s') \<and> kbd s' = k \<and> user_ram A s'
    \<and> keeps (A - W - buffer buf n) s s' \<and> text_at (buffer buf n) s' buf line"
  using assms(1,3,4)
proof (induction keys arbitrary: cur s)
  case Nil
  then show ?case using getline_ends [OF Nil(1) assms(2) Nil(3)] by (auto split: if_splits)
next
  case (Cons ks keys)
  show ?case
  proof (cases "length cur < n - 1")
    case False
    then show ?thesis using getline_ends [OF Cons.prems(1) assms(2) Cons.prems(3)] Cons.prems(1,2) by (auto simp: editing_def)
  next
    case True
    then have lt: "int (length cur) < int n - 1" by linarith
    define k0 where "k0 = fold keyboard_handler ks (kbd s)"
    obtain c k1 where ck: "keyboard_get_char k0 = (c, k1)" by (cases "keyboard_get_char k0")
    obtain s0 s1 s2 where st: "key_interrupts ks s = Some s0" "user_write (c_slot L) 0 s0 = Some s1"
      "u_read 0 (c_slot L) 1 s1 = Some (if c \<noteq> 0 then 1 else 0, s2)" "keeps (A - W) s s2" "editing L buf n A W cur s2" "kbd s2 = k1"
      "c \<noteq> 0 \<longrightarrow> user_read (c_slot L) s2 = Some c"
      using getline_poll [OF Cons.prems(1) assms(2), of ks] ck unfolding k0_def [symmetric] by auto
    have k2: "keeps (A - W - buffer buf n) s s2" using st(4) by (rule keeps_mono) blast
    note sp = Cons.prems(2) [simplified, unfolded k0_def [symmetric] ck]
    note pr = getline_prints [OF _ assms(2), where c = c]
    consider "c = 0" | "c = 10 \<or> c = 13" | "c = 8 \<or> c = 127" "cur = []" | "c = 8 \<or> c = 127" "cur \<noteq> []" | "c \<notin> {0, 10, 13, 8, 127}" by auto
    then show ?thesis
    proof cases
      case 1
      then have "line_run (n - 1) cur keys (kbd s2) = Some (line, rest, k)" using sp True st(6) by simp
      from Cons.IH [OF st(5) this Cons.prems(3)] show ?thesis using st(1-3) 1 lt keeps_trans [OF k2] by auto
    next
      case 2
      obtain s3 where s3: "uprintf L ''\<newline>'' [] s2 = Some s3" "keeps (A - W) s2 s3" "editing L buf n A W cur s3" "kbd s3 = echo [10] k1"
        using pr [OF st(5), of "''\<newline>''" "[]" "[10]"] st(6) by auto
      have k3: "keeps (A - W - buffer buf n) s s3" using keeps_trans [OF st(4) s3(2)] by (rule keeps_mono) blast
      have r: "line = cur" "rest = keys" "k = echo [10] k1" using sp True 2 by auto
      obtain s4 where s4: "user_write (buf + to_u64 (int (length cur))) 0 s3 = Some s4" "kbd s4 = kbd s3" "user_ram A s4"
        "keeps (A - W - buffer buf n) s3 s4" "text_at (buffer buf n) s4 buf cur" using getline_ends [OF s3(3) assms(2) Cons.prems(3)] by blast
      have "getline_loop L buf (int n) (ks # keys) (int (length cur)) s = Some (keys, s4)" using st(1-3,7) 2 lt s3(1) s4(1) by auto
      then show ?thesis using s4(2-5) s3(4) r keeps_trans [OF k3] by auto
    next
      case 3
      then have "line_run (n - 1) cur keys (kbd s2) = Some (line, rest, k)" using sp True st(6) by auto
      from Cons.IH [OF st(5) this Cons.prems(3)] show ?thesis using st(1-3,7) 3 lt keeps_trans [OF k2] by auto
    next
      case 4
      obtain s3 where s3: "uprintf L [CHR 0x08, CHR '' '', CHR 0x08] [] s2 = Some s3" "keeps (A - W) s2 s3" "editing L buf n A W cur s3" "kbd s3 = echo [8, 32, 8] k1"
        using pr [OF st(5), of "[CHR 0x08, CHR '' '', CHR 0x08]" "[]" "[8, 32, 8]"] st(6) by auto
      have k3: "keeps (A - W - buffer buf n) s s3" using keeps_trans [OF st(4) s3(2)] by (rule keeps_mono) blast
      have "line_run (n - 1) (butlast cur) keys (kbd s3) = Some (line, rest, k)" using sp True 4 s3(4) by auto
      moreover have "0 \<notin> set (butlast cur)" using Cons.prems(3) by (auto dest: in_set_butlastD)
      ultimately obtain s' where s': "getline_loop L buf (int n) keys (int (length (butlast cur))) s3 = Some (rest, s')" "kbd s' = k" "user_ram A s'"
        "keeps (A - W - buffer buf n) s3 s'" "text_at (buffer buf n) s' buf line" using Cons.IH [OF editing_butlast [OF s3(3)]] by blast
      have "int (length (butlast cur)) = int (length cur) - 1" using 4 by (simp add: of_nat_diff Suc_leI)
      then show ?thesis using s' st(1-3,7) 4 lt s3(1) keeps_trans [OF k3] by auto
    next
      case 5
      obtain s3 where s3: "user_write (buf + to_u64 (int (length cur))) c s2 = Some s3" "keeps (A - W - buffer buf n) s2 s3" "kbd s3 = k1" "editing L buf n A W (cur @ [c]) s3"
        using editing_append [OF st(5) assms(2) True, of c] st(6) by auto
      obtain s4 where s4: "uprintf L ''%c'' [VA_int (sint c)] s3 = Some s4" "keeps (A - W) s3 s4" "editing L buf n A W (cur @ [c]) s4" "kbd s4 = echo [c] k1"
        using pr [OF s3(4), of "''%c''" "[VA_int (sint c)]" "[c]"] s3(3) by auto
      have "keeps (A - W - buffer buf n) s3 s4" using s4(2) by (rule keeps_mono) blast
      then have k4: "keeps (A - W - buffer buf n) s s4" using keeps_trans [OF k2] s3(2) keeps_trans by blast
      have "line_run (n - 1) (cur @ [c]) keys (kbd s4) = Some (line, rest, k)" using sp True 5 s4(4) by auto
      moreover have "0 \<notin> set (cur @ [c])" using Cons.prems(3) 5 by auto
      ultimately obtain s' where "getline_loop L buf (int n) keys (int (length (cur @ [c]))) s4 = Some (rest, s')" "kbd s' = k" "user_ram A s'"
        "keeps (A - W - buffer buf n) s4 s'" "text_at (buffer buf n) s' buf line" using Cons.IH [OF s4(3)] by blast
      then show ?thesis using st(1-3,7) 5 lt s3(1) s4(1) keeps_trans [OF k4] by (auto simp: add.commute)
    qed
  qed
qed

subsection \<open>Words\<close>

lemma user_string_cstr: "user_cstr s p cs \<Longrightarrow> user_string s p = Some cs"
  by (induction cs arbitrary: p) (simp_all add: user_string.simps user_cstr_Nil user_cstr_Cons)

lemma cstr_view: "user_cstr s p cs \<Longrightarrow> cstr (user_view s) p cs"
  by (induction cs arbitrary: p) (simp_all add: user_view_def user_cstr_Nil user_cstr_Cons)

lemma u_strtok_scan_eq:
  assumes "cstr m delim ds" "cstr m p s"
  defines "tok \<equiv> takeWhile (\<lambda>c. c \<notin> set ds) s"
  shows "u_strtok_scan m delim p = Some (if tok = s then (m, 0) else (m(p + of_nat (length tok) := 0), p + of_nat (length tok) + 1))"
  using assms(2) unfolding tok_def
proof (induction s arbitrary: p)
  case Nil
  then show ?case by (simp add: u_strtok_scan.simps)
next
  case (Cons c cs)
  then show ?case by (auto simp: u_strtok_scan.simps [of m delim p] is_delim_cstr [OF assms(1)] add.assoc)
qed

lemma u_strtok_eq:
  assumes "cstr m delim ds" "cstr m b s" "(if p \<noteq> 0 then p else backup) = b" "b \<noteq> 0"
  shows "u_strtok m p delim backup =
    (let rest = dropWhile (\<lambda>c. c \<in> set ds) s;
         a = b + of_nat (length s - length rest);
         tok = takeWhile (\<lambda>c. c \<notin> set ds) rest;
         e = a + of_nat (length tok)
     in if rest = [] then Some (m, 0, 0)
        else if tok = rest then Some (m, a, 0) else Some (m(e := 0), a, e + 1))"
proof -
  define pre where "pre = takeWhile (\<lambda>c. c \<in> set ds) s"
  define rest where "rest = dropWhile (\<lambda>c. c \<in> set ds) s"
  have s: "s = pre @ rest" by (simp add: pre_def rest_def)
  then have len: "length s - length rest = length pre" by simp
  have c: "cstr m (b + of_nat (length pre)) rest" using assms(2) cstr_append s by metis
  have z: "m (b + of_nat (length pre)) = 0 \<longleftrightarrow> rest = []" using c by (cases rest) auto
  show ?thesis
    unfolding u_strtok_def assms(3) using assms(4) u_strtok_skip_cstr [OF assms(1,2)] u_strtok_scan_eq [OF assms(1) c]
    by (simp add: pre_def [symmetric] rest_def [symmetric] len z Let_def)
qed

text \<open>What is left of the line: at offset \<open>k\<close> of the buffer, or nothing.\<close>

definition rest_at :: "u64 \<Rightarrow> nat \<Rightarrow> kernel \<Rightarrow> u64 \<Rightarrow> nat \<Rightarrow> u8 list \<Rightarrow> bool" where
  "rest_at p n s b k rest \<longleftrightarrow> b = 0 \<and> k = n \<and> rest = [] \<or> b = p + of_nat k \<and> k + length rest < n \<and> text_at (buffer p n) s b rest"

definition line_memory :: "layout \<Rightarrow> u64 \<Rightarrow> nat \<Rightarrow> u64 set \<Rightarrow> kernel \<Rightarrow> bool" where
  "line_memory L p n A s \<longleftrightarrow> user_ram A s \<and> buffer p n \<subseteq> A \<and> p \<noteq> 0 \<and> unat p + n < 2 ^ 64 \<and> n < 2 ^ 31
     \<and> text_at (A - buffer p n) s (lit L '' '') [32]"

definition offsets :: "u64 \<Rightarrow> nat \<Rightarrow> nat \<Rightarrow> u64 set" where
  "offsets p k n = (\<lambda>j. p + of_nat j) ` {k..<n}"

lemma line_offset_nonzero: "p \<noteq> 0 \<Longrightarrow> unat p + n < 2 ^ 64 \<Longrightarrow> j < n \<Longrightarrow> p + of_nat j \<noteq> 0" for p :: u64
proof -
  assume a: "p \<noteq> 0" "unat p + n < 2 ^ 64" "j < n"
  then have "unat (of_nat j :: u64) = j" by (simp add: unat_of_nat)
  then have "unat (p + of_nat j) = unat p + j" using a by (subst unat_add_no_overflow) simp_all
  then show ?thesis using a(1) by (metis add_is_0 unat_0 unat_eq_0)
qed

lemma rest_keep:
  assumes "text_at (buffer p n) s (p + of_nat i) cs" "i + length cs < k" "k \<le> n" "n < 2 ^ 31"
    and "\<forall>a \<in> A - offsets p k n. user_read a s' = user_read a s" "buffer p n \<subseteq> A"
  shows "text_at (buffer p n) s' (p + of_nat i) cs"
proof -
  have "str_addrs (p + of_nat i) cs \<subseteq> A - offsets p k n"
  proof
    fix a assume "a \<in> str_addrs (p + of_nat i) cs"
    then obtain j where j: "a = p + of_nat (i + j)" "i + j < k" using assms(2) by (force simp: str_addrs_def add.assoc)
    then have "a \<in> A" using assms(3,6) bufferI [of "i + j" n p] by auto
    moreover have "a \<notin> offsets p k n"
    proof
      assume "a \<in> offsets p k n"
      then obtain l where l: "a = p + of_nat l" "k \<le> l" "l < n" by (auto simp: offsets_def)
      have "p + of_nat (i + j) = p + of_nat l" "i + j < n" using j l by (simp_all only:)
      then have "i + j = l" using buffer_inj [OF assms(4) _ l(3)] by blast
      then show False using j(2) l(2) by simp
    qed
    ultimately show "a \<in> A - offsets p k n" by blast
  qed
  then show ?thesis using assms(1,5) user_cstr_frame by (auto simp: text_at_def)
qed

lemma reads_trans: "\<forall>a \<in> A - X. f a = g a \<Longrightarrow> \<forall>a \<in> A - Y. h a = f a \<Longrightarrow> X \<subseteq> Z \<Longrightarrow> Y \<subseteq> Z \<Longrightarrow> \<forall>a \<in> A - Z. h a = g a"
  by (intro ballI) (metis DiffD1 DiffD2 DiffI subsetD)

text \<open>A word was found at offset \<open>i\<close>, and the rest starts at offset \<open>k'\<close>.\<close>

definition word_at :: "u64 \<Rightarrow> nat \<Rightarrow> nat \<Rightarrow> kernel \<Rightarrow> u64 \<Rightarrow> u64 \<Rightarrow> u8 list list \<Rightarrow> bool" where
  "word_at p n k s t b ws \<longleftrightarrow> (\<exists>i k' rest tok. t = p + of_nat i \<and> t \<noteq> 0 \<and> k \<le> i \<and> i + length tok < k' \<and> k' \<le> n \<and> rest_at p n s b k' rest
     \<and> text_at (buffer p n) s t tok \<and> ws = tok # tokens {32} rest)"

lemma rest_at_here:
  assumes "text_at (buffer p n) s (p + of_nat k) (xs @ ys)" "k + length (xs @ ys) < n"
  shows "text_at (buffer p n) s (p + of_nat (k + length xs)) ys"
  using assms
proof (induction xs arbitrary: k)
  case (Cons x xs)
  then have "text_at (buffer p n) s (p + of_nat (Suc k)) (xs @ ys)" by (simp add: text_at_Cons ac_simps)
  from Cons.IH [OF this] Cons.prems(2) show ?case by simp
qed simp

text \<open>One call of \<^verbatim>\<open>strtok\<close> on what is left of the line.\<close>

lemma user_strtok_next:
  assumes lm: "line_memory L p n A s" and rest: "rest_at p n s b k rest" and b: "(if q \<noteq> 0 then q else backup) = b"
  shows "\<exists>t b' s'. user_strtok q (lit L '' '') backup s = Some (t, b', s') \<and> line_memory L p n A s' \<and> calm s s' \<and> kbd s' = kbd s
    \<and> (\<forall>a \<in> A - offsets p k n. user_read a s' = user_read a s)
    \<and> (if tokens {32} rest = [] then t = 0 else word_at p n k s' t b' (tokens {32} rest))"
proof (cases "b = 0")
  case True
  then have "q = 0" using b by (cases "q = 0") auto
  have "rest = []"
  proof (rule ccontr)
    assume "rest \<noteq> []"
    then have "b = p + of_nat k" "k < n" using rest by (auto simp: rest_at_def)
    then show False using line_offset_nonzero [of p n k] lm True by (simp add: line_memory_def)
  qed
  then show ?thesis using True b lm \<open>q = 0\<close> by (simp add: user_strtok_def tokens_Nil)
next
  case False
  have r: "b = p + of_nat k" "k + length rest < n" "text_at (buffer p n) s b rest" using rest False by (auto simp: rest_at_def)
  have M: "user_ram A s" "buffer p n \<subseteq> A" "p \<noteq> 0" "unat p + n < 2 ^ 64" "n < 2 ^ 31" "text_at (A - buffer p n) s (lit L '' '') [32]"
    using lm by (simp_all add: line_memory_def)
  have us: "user_cstr s b rest" "user_cstr s (lit L '' '') [32]" using r(3) M(6) by (simp_all add: text_at_def)
  define pre where "pre = takeWhile (\<lambda>c. c = 32) rest"
  define r1 where "r1 = dropWhile (\<lambda>c. c = 32) rest"
  define tok where "tok = takeWhile (\<lambda>c. c \<noteq> 32) r1"
  define i where "i = k + length pre"
  define e where "e = i + length tok"
  have rs: "rest = pre @ r1" by (simp add: pre_def r1_def)
  then have len: "length rest - length r1 = length pre" by simp
  have st: "u_strtok (user_view s) q (lit L '' '') backup = (if r1 = [] then Some (user_view s, 0, 0)
      else if tok = r1 then Some (user_view s, p + of_nat i, 0) else Some ((user_view s)(p + of_nat e := 0), p + of_nat i, p + of_nat e + 1))"
  proof -
    have "dropWhile (\<lambda>c. c \<in> set [32]) rest = r1" "takeWhile (\<lambda>c. c \<notin> set [32]) r1 = tok" by (simp_all add: r1_def tok_def)
    moreover have "b + of_nat (length pre) = p + of_nat i" "p + of_nat i + of_nat (length tok) = p + of_nat e" by (simp_all add: r(1) i_def e_def)
    ultimately show ?thesis unfolding u_strtok_eq [OF cstr_view [OF us(2)] cstr_view [OF us(1)] b False] Let_def by (simp only: len)
  qed
  have run: "user_strtok q (lit L '' '') backup s = (if r1 = [] then Some (0, 0, s) else if tok = r1 then Some (p + of_nat i, 0, s)
      else if p + of_nat e + 1 = 0 then Some (p + of_nat i, 0, s) else map_option (\<lambda>s'. (p + of_nat i, p + of_nat e + 1, s')) (user_write (p + of_nat e) 0 s))"
  proof -
    have "user_strtok q (lit L '' '') backup s = Option.bind (u_strtok (user_view s) q (lit L '' '') backup)
      (\<lambda>(m, ret, b'). if b' = 0 then Some (ret, b', s) else Option.bind (user_write (b' - 1) (m (b' - 1)) s) (\<lambda>s'. Some (ret, b', s')))"
      using False user_string_cstr [OF us(1)] user_string_cstr [OF us(2)] by (simp add: user_strtok_def b)
    also have "\<dots> = (if r1 = [] then Some (0, 0, s) else if tok = r1 then Some (p + of_nat i, 0, s)
      else if p + of_nat e + 1 = 0 then Some (p + of_nat i, 0, s) else map_option (\<lambda>s'. (p + of_nat i, p + of_nat e + 1, s')) (user_write (p + of_nat e) 0 s))"
      unfolding st by (simp add: map_conv_bind_option o_def)
    finally show ?thesis .
  qed
  have tk: "tokens {32} rest = (if r1 = [] then [] else tok # tokens {32} (drop (Suc (length tok)) r1))"
  proof (cases "r1 = []")
    case True
    then have "dropWhile (\<lambda>c. c \<in> {32}) rest = []" by (simp only: r1_def singleton_iff)
    then show ?thesis unfolding tokens.simps [of "{32}" rest] using True by (simp only: list.case) simp
  next
    case False
    then show ?thesis using tokens_step [of "{32}" rest r1 tok] by (simp add: r1_def tok_def)
  qed
  show ?thesis
  proof (cases "r1 = []")
    case True
    then show ?thesis using run lm tk by simp
  next
    case ne: False
    have len_r1: "k + length pre + length r1 < n" using r(2) rs by simp
    have i: "i < n" using len_r1 by (simp add: i_def)
    have t0: "p + of_nat i \<noteq> 0" using line_offset_nonzero [OF M(3,4) i] .
    have text_r1: "text_at (buffer p n) s (p + of_nat i) r1" using rest_at_here [of p n s k pre r1] r rs by (simp add: i_def)
    show ?thesis
    proof (cases "tok = r1")
      case True
      have "rest_at p n s 0 n []" by (simp add: rest_at_def)
      moreover have "tokens {32} rest = tok # tokens {32} []" using tk ne True by (simp add: tokens_Nil)
      ultimately have "word_at p n k s (p + of_nat i) 0 (tokens {32} rest)" unfolding word_at_def
        using True t0 text_r1 len_r1 by (intro exI [of _ i] exI [of _ n] exI [of _ "[]"] exI [of _ tok]) (simp add: i_def)
      then show ?thesis using run ne True lm tk by simp
    next
      case nt: False
      define r2 where "r2 = drop (Suc (length tok)) r1"
      have "tok @ dropWhile (\<lambda>c. c \<noteq> 32) r1 = r1" by (simp add: tok_def)
      moreover from this nt obtain x xs where x: "dropWhile (\<lambda>c. c \<noteq> 32) r1 = x # xs" by (cases "dropWhile (\<lambda>c. c \<noteq> 32) r1") auto
      ultimately have r1: "r1 = tok @ x # r2" by (metis append_Cons append_Nil append_assoc append_eq_conv_conj drop_append length_append_singleton r2_def self_append_conv2)
      have bounds: "e < n" "Suc e + length r2 < n" using len_r1 by (simp_all add: r1 e_def i_def)
      have b': "p + of_nat e + 1 = p + of_nat (Suc e)" by (simp add: ac_simps)
      have b0: "p + of_nat (Suc e) \<noteq> 0" using line_offset_nonzero [OF M(3,4), of "Suc e"] bounds by simp
      have "p + of_nat e \<in> A" using M(2) bufferI [OF bounds(1), of p] by blast
      then obtain m where m: "user_write (p + of_nat e) 0 s = Some (s\<lparr>kmem := m\<rparr>)" "user_ram A (s\<lparr>kmem := m\<rparr>)"
        "\<And>a. a \<in> A \<Longrightarrow> user_read a (s\<lparr>kmem := m\<rparr>) = (if a = p + of_nat e then Some 0 else user_read a s)"
        using user_ram_write [OF M(1), of "p + of_nat e" 0] by blast
      let ?s = "s\<lparr>kmem := m\<rparr>"
      have keep: "user_read a ?s = user_read a s" if "a \<in> A - {p + of_nat e}" for a using m(3) that by simp
      have still: "text_at (buffer p n) ?s (p + of_nat j) cs" if tx: "text_at (buffer p n) s (p + of_nat j) cs" "j + length cs < n" "e < j" for j cs
      proof -
        have "str_addrs (p + of_nat j) cs \<subseteq> A - {p + of_nat e}"
        proof
          fix a assume "a \<in> str_addrs (p + of_nat j) cs"
          then obtain l where l: "a = p + of_nat (j + l)" "j + l < n" using tx(2) by (force simp: str_addrs_def add.assoc)
          have "a \<noteq> p + of_nat e" using buffer_inj [OF M(5) l(2) bounds(1), of p] l(1) tx(3) by simp
          then show "a \<in> A - {p + of_nat e}" using l M(2) bufferI [OF l(2), of p] by auto
        qed
        then show ?thesis using tx(1) keep user_cstr_frame [of s "p + of_nat j" cs "A - {p + of_nat e}" ?s] by (simp add: text_at_def)
      qed
      have tail: "text_at (buffer p n) s (p + of_nat (Suc e)) r2"
        using rest_at_here [of p n s i "tok @ [x]" r2] text_r1 len_r1 by (simp add: r1 e_def i_def)
      have "text_at (buffer p n) ?s (p + of_nat i) tok"
      proof -
        have rd: "user_read (p + of_nat (i + l)) ?s = Some ((tok @ [0]) ! l)" if l: "l \<le> length tok" for l
        proof -
          have il: "i + l < n" using l bounds by (simp add: e_def)
          have "user_read (p + of_nat (i + l)) s = Some (tok ! l)" if "l < length tok"
            using text_r1 that by (simp add: text_at_def user_cstr_def r1 nth_append add.assoc)
          moreover have "p + of_nat (i + l) = p + of_nat e \<longleftrightarrow> l = length tok"
            using buffer_inj [OF M(5) il bounds(1), of p] by (simp only: e_def add_left_cancel)
          ultimately show ?thesis using m(3) [of "p + of_nat (i + l)"] M(2) bufferI [OF il, of p] l by (auto simp: nth_append)
        qed
        have "a \<in> buffer p n" if a: "a \<in> str_addrs (p + of_nat i) tok" for a
        proof -
          obtain l where "a = p + of_nat (i + l)" "i + l < n" using a bounds by (force simp: str_addrs_def e_def add.assoc)
          then show ?thesis using bufferI [of "i + l" n p] by (simp only:)
        qed
        moreover have "0 \<notin> set tok" using us(1) by (simp add: user_cstr_def rs r1)
        ultimately show ?thesis using rd by (auto simp: text_at_def user_cstr_def add.assoc)
      qed
      moreover have "rest_at p n ?s (p + of_nat (Suc e)) (Suc e) r2" using still [OF tail] bounds by (simp add: rest_at_def)
      moreover have "line_memory L p n A ?s"
      proof -
        have "\<forall>a \<in> A - buffer p n. user_read a ?s = user_read a s" using keep bufferI [OF bounds(1), of p] by blast
        then show ?thesis using lm m(2) text_at_frame [OF M(6)] by (simp add: line_memory_def)
      qed
      moreover have "\<forall>a \<in> A - offsets p k n. user_read a ?s = user_read a s"
      proof -
        have "p + of_nat e \<in> offsets p k n" unfolding offsets_def using bounds(1) by (intro imageI) (simp add: e_def i_def)
        then show ?thesis using keep by blast
      qed
      moreover have "user_strtok q (lit L '' '') backup s = Some (p + of_nat i, p + of_nat (Suc e), ?s)" using run ne nt b0 m(1) by (simp add: b' ac_simps)
      moreover have "tokens {32} rest = tok # tokens {32} r2" using tk ne by (simp add: r2_def)
      moreover have "word_at p n k ?s (p + of_nat i) (p + of_nat (Suc e)) (tokens {32} rest)" unfolding word_at_def
        using calculation t0 bounds by (intro exI [of _ i] exI [of _ "Suc e"] exI [of _ r2] exI [of _ tok]) (simp add: i_def e_def)
      ultimately show ?thesis by (intro exI [of _ "p + of_nat i"] exI [of _ "p + of_nat (Suc e)"] exI [of _ ?s]) simp
    qed
  qed
qed

text \<open>The loop: \<open>ws\<close> are the words not stored yet, the first of them at \<open>token\<close>.\<close>

lemma parse_args_words:
  assumes "line_memory L p n A s" "token = 0 \<and> ws = [] \<or> token \<noteq> 0 \<and> token = p + of_nat i \<and> i + length tok < k \<and> k \<le> n
      \<and> text_at (buffer p n) s token tok \<and> rest_at p n s b k rest \<and> ws = tok # tokens {32} rest" "argc \<le> MAX_ARGS" "length args = MAX_ARGS"
  shows "\<exists>args' b' s'. parse_args L token b args argc s = Some (min MAX_ARGS (argc + length ws), args', b', s') \<and> line_memory L p n A s' \<and> calm s s'
    \<and> kbd s' = kbd s \<and> (\<forall>a \<in> A - (if token = 0 then {} else offsets p k n). user_read a s' = user_read a s) \<and> length args' = MAX_ARGS
    \<and> (\<forall>j < MAX_ARGS. if argc \<le> j \<and> j < argc + length ws then text_at (buffer p n) s' (args' ! j) (ws ! (j - argc)) else args' ! j = args ! j)"
  using assms
proof (induction "MAX_ARGS - argc" arbitrary: token b args argc s ws i tok k rest)
  case 0
  then show ?case by (auto simp: parse_args.simps [of L token b])
next
  case (Suc d)
  show ?case
  proof (cases "token = 0")
    case True
    then have "parse_args L token b args argc s = Some (argc, args, b, s)" unfolding parse_args.simps [of L token b args argc s] by simp
    then show ?thesis using Suc.prems True by auto
  next
    case False
    have t: "token = p + of_nat i" "i + length tok < k" "k \<le> n" "text_at (buffer p n) s token tok" "rest_at p n s b k rest" "ws = tok # tokens {32} rest"
      using Suc.prems(2) False by auto
    have M: "buffer p n \<subseteq> A" "n < 2 ^ 31" using Suc.prems(1) by (simp_all add: line_memory_def)
    obtain t1 b1 s1 where s1: "user_strtok 0 (lit L '' '') b s = Some (t1, b1, s1)" "line_memory L p n A s1" "calm s s1" "kbd s1 = kbd s"
      "\<forall>a \<in> A - offsets p k n. user_read a s1 = user_read a s"
      "if tokens {32} rest = [] then t1 = 0 else word_at p n k s1 t1 b1 (tokens {32} rest)"
      using user_strtok_next [OF Suc.prems(1) t(5), of 0 b] by auto
    have "\<exists>i1 k1 rest1 tok1. k \<le> k1 \<and> (t1 = 0 \<and> tokens {32} rest = [] \<or> t1 \<noteq> 0 \<and> t1 = p + of_nat i1 \<and> i1 + length tok1 < k1 \<and> k1 \<le> n
      \<and> text_at (buffer p n) s1 t1 tok1 \<and> rest_at p n s1 b1 k1 rest1 \<and> tokens {32} rest = tok1 # tokens {32} rest1)"
    proof (cases "tokens {32} rest = []")
      case True
      then show ?thesis using s1(6) by auto
    next
      case ne: False
      then obtain i1 k1 rest1 tok1 where "t1 = p + of_nat i1" "t1 \<noteq> 0" "k \<le> i1" "i1 + length tok1 < k1" "k1 \<le> n" "rest_at p n s1 b1 k1 rest1"
        "text_at (buffer p n) s1 t1 tok1" "tokens {32} rest = tok1 # tokens {32} rest1" using s1(6) by (auto simp: word_at_def)
      then show ?thesis by (intro exI [of _ i1] exI [of _ k1] exI [of _ rest1] exI [of _ tok1]) simp
    qed
    then obtain i1 k1 rest1 tok1 where k1: "k \<le> k1" and nx: "t1 = 0 \<and> tokens {32} rest = [] \<or> t1 \<noteq> 0 \<and> t1 = p + of_nat i1 \<and> i1 + length tok1 < k1 \<and> k1 \<le> n
      \<and> text_at (buffer p n) s1 t1 tok1 \<and> rest_at p n s1 b1 k1 rest1 \<and> tokens {32} rest = tok1 # tokens {32} rest1" by blast
    have argc: "argc < MAX_ARGS" "d = MAX_ARGS - (argc + 1)" using Suc.hyps(2) by simp_all
    have "argc + 1 \<le> MAX_ARGS" "length (args[argc := token]) = MAX_ARGS" using argc Suc.prems(4) by simp_all
    from Suc.hyps(1) [OF argc(2) s1(2) nx this]
    obtain args' b' s' where s': "parse_args L t1 b1 (args[argc := token]) (argc + 1) s1 = Some (min MAX_ARGS (argc + 1 + length (tokens {32} rest)), args', b', s')"
      "line_memory L p n A s'" "calm s1 s'" "kbd s' = kbd s1" "\<forall>a \<in> A - (if t1 = 0 then {} else offsets p k1 n). user_read a s' = user_read a s1" "length args' = MAX_ARGS"
      "\<forall>j < MAX_ARGS. if argc + 1 \<le> j \<and> j < argc + 1 + length (tokens {32} rest)
         then text_at (buffer p n) s' (args' ! j) (tokens {32} rest ! (j - (argc + 1))) else args' ! j = args[argc := token] ! j" by blast
    have "offsets p k1 n \<subseteq> offsets p k n" using k1 by (auto simp: offsets_def)
    then have keep: "\<forall>a \<in> A - offsets p k n. user_read a s' = user_read a s"
      by (intro reads_trans [OF s1(5) s'(5)]) simp_all
    have still: "text_at (buffer p n) s' token tok" using rest_keep [OF t(4) [unfolded t(1)] t(2,3) M(2) keep M(1)] by (simp add: t(1))
    have "if argc \<le> j \<and> j < argc + length ws then text_at (buffer p n) s' (args' ! j) (ws ! (j - argc)) else args' ! j = args ! j" if j: "j < MAX_ARGS" for j
    proof (cases "j = argc")
      case True
      then show ?thesis using s'(7) [rule_format, OF j] still t(6) argc(1) Suc.prems(4) by simp
    next
      case ne: False
      then show ?thesis using s'(7) [rule_format, OF j] t(6) by (auto simp: nth_Cons' split: if_splits)
    qed
    moreover have "parse_args L token b args argc s = Some (min MAX_ARGS (argc + length ws), args', b', s')"
      using s'(1) s1(1) False argc(1) t(6) by (simp add: parse_args.simps [of L token b])
    ultimately show ?thesis using s'(2-4,6) s1(3,4) calm_trans keep False by (intro exI [of _ args'] exI [of _ b'] exI [of _ s']) auto
  qed
qed

lemma shell_words:
  assumes "line_memory L p n A s" "text_at (buffer p n) s p cs" "length cs < n" "length args = MAX_ARGS"
  shows "\<exists>token b s1 args' b' s'. user_strtok p (lit L '' '') backup s = Some (token, b, s1)
    \<and> parse_args L token b args 0 s1 = Some (min MAX_ARGS (length (tokens {32} cs)), args', b', s') \<and> length args' = MAX_ARGS
    \<and> calm s s' \<and> kbd s' = kbd s \<and> (\<forall>a \<in> A - buffer p n. user_read a s' = user_read a s)
    \<and> (\<forall>i < MAX_ARGS. if i < length (tokens {32} cs) then text_at (buffer p n) s' (args' ! i) (tokens {32} cs ! i) else args' ! i = args ! i)"
proof -
  have p: "p \<noteq> 0" using assms(1) by (simp add: line_memory_def)
  have o: "offsets p k n \<subseteq> buffer p n" for k by (auto simp: offsets_def buffer_def)
  have "rest_at p n s p 0 cs" using assms(2,3) by (simp add: rest_at_def)
  from user_strtok_next [OF assms(1) this, of p backup] p
  obtain t b s1 where s1: "user_strtok p (lit L '' '') backup s = Some (t, b, s1)" "line_memory L p n A s1" "calm s s1" "kbd s1 = kbd s"
      "\<forall>a \<in> A - offsets p 0 n. user_read a s1 = user_read a s"
      "if tokens {32} cs = [] then t = 0 else word_at p n 0 s1 t b (tokens {32} cs)" by auto
  have "\<exists>i k rest tok. t = 0 \<and> tokens {32} cs = [] \<or> t \<noteq> 0 \<and> t = p + of_nat i \<and> i + length tok < k \<and> k \<le> n
      \<and> text_at (buffer p n) s1 t tok \<and> rest_at p n s1 b k rest \<and> tokens {32} cs = tok # tokens {32} rest"
    using s1(6) unfolding word_at_def by (cases "tokens {32} cs = []") (simp, auto)
  then obtain i k rest tok where nx: "t = 0 \<and> tokens {32} cs = [] \<or> t \<noteq> 0 \<and> t = p + of_nat i \<and> i + length tok < k \<and> k \<le> n
      \<and> text_at (buffer p n) s1 t tok \<and> rest_at p n s1 b k rest \<and> tokens {32} cs = tok # tokens {32} rest" by blast
  obtain args' b' s' where s': "parse_args L t b args 0 s1 = Some (min MAX_ARGS (length (tokens {32} cs)), args', b', s')" "calm s1 s'" "kbd s' = kbd s1"
    "\<forall>a \<in> A - (if t = 0 then {} else offsets p k n). user_read a s' = user_read a s1" "length args' = MAX_ARGS"
    "\<forall>i < MAX_ARGS. if i < length (tokens {32} cs) then text_at (buffer p n) s' (args' ! i) (tokens {32} cs ! i) else args' ! i = args ! i"
    using parse_args_words [OF s1(2) nx _ assms(4), of 0, simplified le0 simp_thms add_0 diff_zero] by blast
  have "\<forall>a \<in> A - buffer p n. user_read a s' = user_read a s" using o by (intro reads_trans [OF s1(5) s'(4)]) simp_all
  moreover have "calm s s'" "kbd s' = kbd s" using calm_trans [OF s1(3) s'(2)] s1(4) s'(3) by simp_all
  ultimately show ?thesis using s1(1) s'(1,5,6) by blast
qed

subsection \<open>An example\<close>

text \<open>
  The page of the example holds the string constants from its start on, a line of text at offset 32 and
  a buffer of 32 bytes at offset 512.
\<close>

definition example_layout :: layout where
  "example_layout =
     \<lparr>lit = (\<lambda>f. if f = ''\<newline>'' then 0x400000 else if f = [CHR 0x08, CHR '' '', CHR 0x08] then 0x400004 else if f = ''%c'' then 0x400008 else 0x40000C),
      putc_slot = 0x400100, num_buf = 0x400110, c_slot = 0x400104, prompt_buf = 0x400300, run_buf = 0x400300, ls_buf = 0x400300, cat_buf = 0x400300,
      input_buf = 0x400200, cwd_buf = 0x400300, status_slot = 0x400108, exec_junk = 0\<rparr>"

definition example_bytes :: "u8 list" where
  "example_bytes = [10, 0, 0, 0, 8, 32, 8, 0, 37, 99, 0, 0, 32, 0] @ replicate 18 0 @ str ''ls  /usr'' @ [0]"

abbreviation (input) example_shell :: kernel where "example_shell \<equiv> example_user example_bytes"

lemma example_getline_frame: "getline_frame example_layout 0x400200 32 example_page example_frame"
  using example_printf_frame example_sets(1) [of 512 32]
  by (auto simp: getline_frame_def example_layout_def example_sets(2,3))

lemma example_buffer_sets: "buffer 0x400200 32 = {a. 0x400200 \<le> unat a \<and> unat a < 0x400220}" "buffer 0x400020 16 = {a. 0x400020 \<le> unat a \<and> unat a < 0x400030}"
  using example_sets(1) [of 512 32] example_sets(1) [of 32 16] by simp_all

lemma example_getline_texts: "getline_texts example_layout (example_page - example_frame - buffer 0x400200 32) example_shell"
proof -
  have "text_at (example_page - example_frame - buffer 0x400200 32) example_shell 0x400000 [10]"
    by (rule example_text_in [where n = 0]) (simp_all add: example_bytes_def str_def example_sets(2,3) example_buffer_sets)
  moreover have "text_at (example_page - example_frame - buffer 0x400200 32) example_shell 0x400004 [8, 32, 8]"
    by (rule example_text_in [where n = 4]) (simp_all add: example_bytes_def str_def example_sets(2,3) example_buffer_sets)
  moreover have "text_at (example_page - example_frame - buffer 0x400200 32) example_shell 0x400008 [37, 99]"
    by (rule example_text_in [where n = 8]) (simp_all add: example_bytes_def str_def example_sets(2,3) example_buffer_sets)
  ultimately show ?thesis by (simp add: getline_texts_def example_layout_def)
qed

lemma example_shell_keys: "interrupt_handlers example_shell ! 33 = Some Keyboard_isr" "kbd example_shell = example_keyboard"
  by (simp_all add: example_user_fields example_machine_def ramfs.extend_def)

lemma example_line_memory: "line_memory example_layout 0x400020 16 example_page example_shell" "text_at (buffer 0x400020 16) example_shell 0x400020 (str ''ls  /usr'')"
proof -
  have "text_at (example_page - buffer 0x400020 16) example_shell 0x40000C [32]"
    by (rule example_text_in [where n = 12]) (simp_all add: example_bytes_def str_def example_sets(2) example_buffer_sets)
  then show "line_memory example_layout 0x400020 16 example_page example_shell"
    using example_user_ram(1) by (auto simp: line_memory_def example_layout_def example_buffer_sets example_sets(2))
  show "text_at (buffer 0x400020 16) example_shell 0x400020 (str ''ls  /usr'')"
    by (rule example_text_in [where n = 32]) (simp_all add: example_bytes_def str_def example_buffer_sets)
qed

subsection \<open>Properties\<close>

text \<open>
  C17: \<^verbatim>\<open>getline\<close> of the shell is the line editor of the reference: whenever the reference completes a line
  from what is typed, \<^verbatim>\<open>getline\<close> ends, having used as much of the input; the buffer then holds the line with
  its final zero byte, within its bounds, keyboard and console are in the same state as with the
  reference, which echoes each character and takes the last one off the screen for a backspace, and the
  rest of the memory of the program, the files and the processes are as before.
\<close>

theorem getline_reads_line:
  assumes "user_ram A s" "getline_frame L buf n A W" "getline_texts L (A - W - buffer buf n) s" "interrupt_handlers s ! 33 = Some Keyboard_isr"
    and "line_run (n - 1) [] keys (kbd s) = Some (line, rest, k)"
  shows "\<exists>s'. getline L buf (int n) keys s = Some (rest, s') \<and> kbd s' = k \<and> user_cstr s' buf line \<and> str_addrs buf line \<subseteq> buffer buf n
    \<and> (\<forall>a \<in> A - W - buffer buf n. user_read a s' = user_read a s)
    \<and> current_proc s' = current_proc s \<and> files s' = files s \<and> global_file_table s' = global_file_table s"
proof -
  have "editing L buf n A W [] s" using assms(1-4) by (simp add: editing_def getline_frame_def)
  from getline_loop_reads [OF this assms(2,5)] show ?thesis by (auto simp: getline_def keeps_def calm_def text_at_def)
qed

theorem getline_reads_line_witness:
  "\<exists>s'. getline example_layout 0x400200 32 [[0x1E], [], [0x30, 0x0E], [], [0x1C], [0x3B]] example_shell = Some ([[0x3B]], s') \<and> user_cstr s' 0x400200 [97]"
proof -
  have "\<exists>k. line_run 31 [] [[0x1E], [], [0x30, 0x0E], [], [0x1C], [0x3B]] example_keyboard = Some ([97], [[0x3B]], k)"
    by (simp add: example_keyboard_def keyboard_handler_def key_put_def keyboard_get_char_def kmap_low_def echo_def nth_list_update)
  then obtain k where "line_run (32 - 1) [] [[0x1E], [], [0x30, 0x0E], [], [0x1C], [0x3B]] (kbd example_shell) = Some ([97], [[0x3B]], k)"
    by (auto simp: example_shell_keys)
  from getline_reads_line [OF example_user_ram(1) example_getline_frame example_getline_texts example_shell_keys(1) this] show ?thesis by auto
qed

text \<open>
  C20: how the shell finds the words of a line: the calls of \<^verbatim>\<open>strtok\<close> end, \<^verbatim>\<open>argc\<close> is the number of words, at most
  16, and the entries of \<^verbatim>\<open>args\<close> below it point to the words of the line, in order, as strings inside the buffer
  of the line. The entries from \<^verbatim>\<open>argc\<close> on keep the values they had: they point to what the buffer held at the
  place of a word of an earlier line (or anywhere, before the first), and commands that look at
  \<^verbatim>\<open>args[1]\<close> without looking at \<^verbatim>\<open>argc\<close> use them.
\<close>

theorem shell_splits_words:
  assumes "line_memory L p n A s" "text_at (buffer p n) s p cs" "length cs < n" "length args = 16"
  shows "\<exists>token b s1 args' b' s'. user_strtok p (lit L '' '') backup s = Some (token, b, s1)
    \<and> parse_args L token b args 0 s1 = Some (min 16 (length (tokens {32} cs)), args', b', s')
    \<and> (\<forall>i < 16. if i < length (tokens {32} cs) then text_at (buffer p n) s' (args' ! i) (tokens {32} cs ! i) else args' ! i = args ! i)
    \<and> (\<forall>a \<in> A - buffer p n. user_read a s' = user_read a s) \<and> kbd s' = kbd s \<and> files s' = files s"
  using shell_words [OF assms] unfolding calm_def by blast

theorem shell_splits_words_witness:
  "\<exists>token b s1 args' b' s'. user_strtok 0x400020 0x40000C 0 example_shell = Some (token, b, s1)
    \<and> parse_args example_layout token b (replicate 16 77) 0 s1 = Some (2, args', b', s')
    \<and> text_at (buffer 0x400020 16) s' (args' ! 0) (str ''ls'') \<and> text_at (buffer 0x400020 16) s' (args' ! 1) (str ''/usr'') \<and> args' ! 2 = 77"
proof -
  have t: "tokens {32} (str ''ls  /usr'') = [str ''ls'', str ''/usr'']" by code_simp
  have l: "lit example_layout '' '' = 0x40000C" by (simp add: example_layout_def)
  have "length (str ''ls  /usr'') < 16" "length (replicate 16 (77 :: u64)) = 16" by (simp_all add: str_def)
  from shell_splits_words [OF example_line_memory this, of 0] obtain token b s1 args' b' s'
    where r: "user_strtok 0x400020 0x40000C 0 example_shell = Some (token, b, s1)" "parse_args example_layout token b (replicate 16 77) 0 s1 = Some (2, args', b', s')"
      and w: "\<forall>i < 16. if i < 2 then text_at (buffer 0x400020 16) s' (args' ! i) ([str ''ls'', str ''/usr''] ! i) else args' ! i = replicate 16 77 ! i"
    unfolding t l by auto
  show ?thesis using r w [rule_format, of 0] w [rule_format, of 1] w [rule_format, of 2] by auto
qed

end
