(* ===== verification/Descriptors.thy ===== *)
theory Descriptors
  imports Prelude
begin

text \<open>
  The segment and interrupt descriptor tables, \<^verbatim>\<open>arch/gdt.c\<close> and \<^verbatim>\<open>arch/idt.c\<close>. A table entry is a record with
  the fields of the packed structure; \<open>gdt_word\<close> and \<open>idt_words\<close> put the fields together as they lie in
  memory, and the theorems read these words back the way the processor does. The addresses of the
  tables, of the task state segment and of the entry points in \<^verbatim>\<open>arch/isr.S\<close> are parameters.
\<close>

subsection \<open>Segments\<close>

record gdt_entry =
  limit_low :: u16
  base_low :: u16
  base_middle :: u8
  access :: u8
  granularity :: u8
  base_high :: u8

record tss_entry =
  rsp0 :: u64
  rsp1 :: u64
  rsp2 :: u64
  ist :: "u64 list"
  iomap_base :: u16

record gdt_state =
  gdt :: "gdt_entry list"
  gdtp_limit :: u16
  gdtp_base :: u64
  tss :: tss_entry
  gdtr :: "u16 \<times> u64"
  segment_registers :: "u16 list"
  code_segment :: u16
  task_register :: u16

abbreviation (input) GDT_PRESENT :: u8 where "GDT_PRESENT \<equiv> 0x80"
abbreviation (input) GDT_DPL_KERNEL :: u8 where "GDT_DPL_KERNEL \<equiv> 0x00"
abbreviation (input) GDT_DPL_USER :: u8 where "GDT_DPL_USER \<equiv> 0x60"
abbreviation (input) GDT_SEGMENT :: u8 where "GDT_SEGMENT \<equiv> 0x10"
abbreviation (input) GDT_SYSTEM :: u8 where "GDT_SYSTEM \<equiv> 0x00"
abbreviation (input) GDT_EXECUTABLE :: u8 where "GDT_EXECUTABLE \<equiv> 0x08"
abbreviation (input) GDT_RW :: u8 where "GDT_RW \<equiv> 0x02"
abbreviation (input) GDT_LONG_MODE :: u8 where "GDT_LONG_MODE \<equiv> 0x20"

definition GDT_KERNEL_CODE_ACCESS :: u8 where
  "GDT_KERNEL_CODE_ACCESS = GDT_PRESENT OR GDT_DPL_KERNEL OR GDT_SEGMENT OR GDT_EXECUTABLE OR GDT_RW"
definition GDT_KERNEL_DATA_ACCESS :: u8 where
  "GDT_KERNEL_DATA_ACCESS = GDT_PRESENT OR GDT_DPL_KERNEL OR GDT_SEGMENT OR GDT_RW"
definition GDT_USER_CODE_ACCESS :: u8 where
  "GDT_USER_CODE_ACCESS = GDT_PRESENT OR GDT_DPL_USER OR GDT_SEGMENT OR GDT_EXECUTABLE OR GDT_RW"
definition GDT_USER_DATA_ACCESS :: u8 where
  "GDT_USER_DATA_ACCESS = GDT_PRESENT OR GDT_DPL_USER OR GDT_SEGMENT OR GDT_RW"
definition GDT_TSS_ACCESS :: u8 where
  "GDT_TSS_ACCESS = GDT_PRESENT OR GDT_DPL_KERNEL OR GDT_SYSTEM OR 0x09"

definition gdt_gate :: "u64 \<Rightarrow> u32 \<Rightarrow> u8 \<Rightarrow> u8 \<Rightarrow> gdt_entry" where
  "gdt_gate base limit acc gran =
     \<lparr>limit_low = ucast (limit AND 0xFFFF), base_low = ucast (base AND 0xFFFF), base_middle = ucast (drop_bit 16 base AND 0xFF),
      access = acc, granularity = ucast (drop_bit 16 limit AND 0x0F) OR (gran AND 0xF0), base_high = ucast (drop_bit 24 base AND 0xFF)\<rparr>"

definition gdt_set_gate :: "nat \<Rightarrow> u64 \<Rightarrow> u32 \<Rightarrow> u8 \<Rightarrow> u8 \<Rightarrow> gdt_entry list \<Rightarrow> gdt_entry list" where
  "gdt_set_gate num base limit acc gran g = g[num := gdt_gate base limit acc gran]"

text \<open>The two 32-bit stores through \<^verbatim>\<open>tss_high\<close>, over the fields of entry 6.\<close>

definition set_tss_high :: "u32 \<Rightarrow> gdt_entry list \<Rightarrow> gdt_entry list" where
  "set_tss_high v g =
     g[6 := \<lparr>limit_low = ucast v, base_low = ucast (drop_bit 16 v), base_middle = 0, access = 0, granularity = 0, base_high = 0\<rparr>]"

definition gdt_flush :: "gdt_state \<Rightarrow> gdt_state" where
  "gdt_flush s = s\<lparr>gdtr := (gdtp_limit s, gdtp_base s), segment_registers := replicate 5 0x10, code_segment := 0x08\<rparr>"

definition tss_load :: "gdt_state \<Rightarrow> gdt_state" where
  "tss_load s = s\<lparr>task_register := 0x2B\<rparr>"

definition gdt_init :: "u64 \<Rightarrow> u64 \<Rightarrow> gdt_state \<Rightarrow> gdt_state" where
  "gdt_init gdt_addr tss_addr s =
     (let s1 = s\<lparr>tss := \<lparr>rsp0 = 0, rsp1 = 0, rsp2 = 0, ist = replicate 7 0, iomap_base = 104\<rparr>, gdtp_limit := 8 * 7 - 1, gdtp_base := gdt_addr\<rparr>;
          g0 = gdt_set_gate 0 0 0 0 0 (gdt s1);
          g1 = gdt_set_gate 1 0 0 GDT_KERNEL_CODE_ACCESS GDT_LONG_MODE g0;
          g2 = gdt_set_gate 2 0 0 GDT_KERNEL_DATA_ACCESS 0 g1;
          g3 = gdt_set_gate 3 0 0 GDT_USER_DATA_ACCESS 0 g2;
          g4 = gdt_set_gate 4 0 0 GDT_USER_CODE_ACCESS GDT_LONG_MODE g3;
          g5 = gdt_set_gate 5 tss_addr (104 - 1) GDT_TSS_ACCESS 0 g4;
          g6 = set_tss_high (ucast (drop_bit 32 tss_addr)) g5
      in tss_load (gdt_flush (s1\<lparr>gdt := g6\<rparr>)))"

subsection \<open>Interrupt gates\<close>

record idt_entry_struct =
  off_low :: u16
  selector :: u16
  gate_ist :: u8
  gate_flags :: u8
  off_mid :: u16
  off_high :: u32
  reserved :: u32

record idt_state =
  idt_entries :: "idt_entry_struct list"
  idt_limit :: u16
  idt_base :: u64
  idtr :: "u16 \<times> u64"
  interrupts_on :: bool
  port_writes :: "(u16 \<times> u8) list"

definition idt_set_gate :: "u8 \<Rightarrow> u64 \<Rightarrow> u16 \<Rightarrow> u8 \<Rightarrow> idt_entry_struct list \<Rightarrow> idt_entry_struct list" where
  "idt_set_gate num base sel flags t =
     t[unat num := \<lparr>off_low = ucast (base AND 0xFFFF), selector = sel, gate_ist = 0, gate_flags = flags,
       off_mid = ucast (drop_bit 16 base AND 0xFFFF), off_high = ucast (drop_bit 32 base AND 0xFFFFFFFF), reserved = 0\<rparr>]"

definition pic_remap :: "idt_state \<Rightarrow> idt_state" where
  "pic_remap s =
     s\<lparr>port_writes := port_writes s @ [(0x20, 0x11), (0xA0, 0x11), (0x21, 0x20), (0xA1, 0x28), (0x21, 0x04), (0xA1, 0x02),
       (0x21, 0x01), (0xA1, 0x01), (0x21, 0x0), (0xA1, 0x0)]\<rparr>"

definition idt_init :: "u64 \<Rightarrow> (nat \<Rightarrow> u64) \<Rightarrow> idt_state \<Rightarrow> idt_state" where
  "idt_init table_addr isr s =
     (let s1 = pic_remap (s\<lparr>idt_limit := 16 * 256 - 1, idt_base := table_addr\<rparr>);
          t0 = idt_set_gate 0 (isr 0) 0x08 0x8E (idt_entries s1);
          t1 = idt_set_gate 14 (isr 14) 0x08 0x8E t0;
          t2 = idt_set_gate 32 (isr 32) 0x08 0x8E t1;
          t3 = idt_set_gate 33 (isr 33) 0x08 0x8E t2;
          t4 = idt_set_gate 128 (isr 128) 0x08 0xEE t3
      in s1\<lparr>idt_entries := t4, idtr := (idt_limit s1, idt_base s1), interrupts_on := True\<rparr>)"

subsection \<open>What the processor reads\<close>

text \<open>An entry as the 64-bit word in memory, and the fields at their bit positions.\<close>

definition gdt_word :: "gdt_entry \<Rightarrow> u64" where
  "gdt_word e = ucast (limit_low e) OR push_bit 16 (ucast (base_low e)) OR push_bit 32 (ucast (base_middle e))
     OR push_bit 40 (ucast (access e)) OR push_bit 48 (ucast (granularity e)) OR push_bit 56 (ucast (base_high e))"

definition seg_base :: "u64 \<Rightarrow> u64" where
  "seg_base d = take_bit 24 (drop_bit 16 d) OR push_bit 24 (drop_bit 56 d)"

definition seg_limit :: "u64 \<Rightarrow> u64" where
  "seg_limit d = take_bit 16 d OR push_bit 16 (take_bit 4 (drop_bit 48 d))"

definition seg_access :: "u64 \<Rightarrow> u8" where
  "seg_access d = ucast (drop_bit 40 d)"

definition seg_flags :: "u64 \<Rightarrow> u64" where
  "seg_flags d = take_bit 4 (drop_bit 52 d)"

lemma seg_fields:
  fixes base :: u64 and limit :: u32 and acc gran :: u8
  defines "e \<equiv> gdt_gate base limit acc gran"
  shows "seg_base (gdt_word e) = take_bit 32 base" "seg_limit (gdt_word e) = take_bit 20 (ucast limit)"
    "seg_access (gdt_word e) = acc" "seg_flags (gdt_word e) = ucast (drop_bit 4 gran)"
proof -
  have m: "(0xFFFF :: u64) = mask 16" "(0xFFFF :: u32) = mask 16" "(0xFF :: u64) = mask 8" "(0x0F :: u32) = mask 4" "(0xF0 :: u8) = push_bit 4 (mask 4)"
    by (simp_all add: mask_eq_exp_minus_1)
  have lo: "take_bit 24 (drop_bit 16 (gdt_word e)) = take_bit 24 base"
  proof (rule bit_word_eqI)
    fix n assume n: "n < LENGTH(64)"
    consider "n < 16" | "16 \<le> n" "n < 24" | "24 \<le> n" by linarith
    then show "bit (take_bit 24 (drop_bit 16 (gdt_word e))) n = bit (take_bit 24 base) n"
      by cases (simp add: e_def gdt_gate_def gdt_word_def m bit_simps; auto)+
  qed
  have hi: "drop_bit 56 (gdt_word e) = take_bit 8 (drop_bit 24 base)"
    unfolding e_def gdt_gate_def gdt_word_def m gdt_entry.simps by (rule bit_word_eqI) (auto simp: bit_simps dest: bit_imp_le_length)
  show "seg_base (gdt_word e) = take_bit 32 base" unfolding seg_base_def lo hi
    by (rule bit_word_eqI) (auto simp: bit_simps dest: bit_imp_le_length)
  show "seg_limit (gdt_word e) = take_bit 20 (ucast limit)"
  proof -
    have l: "take_bit 16 (gdt_word e) = take_bit 16 (ucast limit)"
    proof (rule bit_word_eqI)
      fix n show "bit (take_bit 16 (gdt_word e)) n = bit (take_bit 16 (ucast limit :: u64)) n"
        by (cases "n < 16") (simp_all add: e_def gdt_gate_def gdt_word_def m bit_simps)
    qed
    have h: "take_bit 4 (drop_bit 48 (gdt_word e)) = take_bit 4 (drop_bit 16 (ucast limit))"
    proof (rule bit_word_eqI)
      fix n show "bit (take_bit 4 (drop_bit 48 (gdt_word e))) n = bit (take_bit 4 (drop_bit 16 (ucast limit :: u64))) n"
        by (cases "n < 4") (simp add: e_def gdt_gate_def gdt_word_def m bit_simps; auto dest: bit_imp_le_length)+
    qed
    show ?thesis unfolding seg_limit_def l h
    proof (rule bit_word_eqI)
      fix n :: nat
      consider "n < 16" | "16 \<le> n" "n < 20" | "20 \<le> n" by linarith
      then show "bit (take_bit 16 (ucast limit :: u64) OR push_bit 16 (take_bit 4 (drop_bit 16 (ucast limit)))) n = bit (take_bit 20 (ucast limit :: u64)) n"
        by cases (simp add: bit_simps; auto)+
    qed
  qed
  show "seg_access (gdt_word e) = acc"
    unfolding e_def gdt_gate_def gdt_word_def seg_access_def m gdt_entry.simps by (rule bit_word_eqI) (auto simp: bit_simps dest: bit_imp_le_length)
  show "seg_flags (gdt_word e) = ucast (drop_bit 4 gran)"
    unfolding e_def gdt_gate_def gdt_word_def seg_flags_def m gdt_entry.simps by (rule bit_word_eqI) (auto simp: bit_simps dest: bit_imp_le_length)
qed


text \<open>An interrupt gate is two words; the entry point is spread over both.\<close>

definition idt_words :: "idt_entry_struct \<Rightarrow> u64 \<times> u64" where
  "idt_words e =
     (ucast (off_low e) OR push_bit 16 (ucast (selector e)) OR push_bit 32 (ucast (gate_ist e)) OR push_bit 40 (ucast (gate_flags e))
        OR push_bit 48 (ucast (off_mid e)),
      ucast (off_high e) OR push_bit 32 (ucast (reserved e)))"

definition gate_offset :: "u64 \<times> u64 \<Rightarrow> u64" where
  "gate_offset d = take_bit 16 (fst d) OR push_bit 16 (drop_bit 48 (fst d)) OR push_bit 32 (take_bit 32 (snd d))"

definition gate_selector :: "u64 \<times> u64 \<Rightarrow> u16" where
  "gate_selector d = ucast (drop_bit 16 (fst d))"

definition gate_attr :: "u64 \<times> u64 \<Rightarrow> u8" where
  "gate_attr d = ucast (drop_bit 40 (fst d))"

lemma gate_fields:
  assumes "e = \<lparr>off_low = ucast (base AND 0xFFFF), selector = sel, gate_ist = 0, gate_flags = flags,
       off_mid = ucast (drop_bit 16 base AND 0xFFFF), off_high = ucast (drop_bit 32 base AND 0xFFFFFFFF), reserved = 0\<rparr>"
  shows "gate_offset (idt_words e) = base" "gate_selector (idt_words e) = sel" "gate_attr (idt_words e) = flags"
proof -
  have m: "(0xFFFF :: u64) = mask 16" "(0xFFFFFFFF :: u64) = mask 32" by (simp_all add: mask_eq_exp_minus_1)
  have lo: "take_bit 16 (fst (idt_words e)) = take_bit 16 base"
    unfolding assms idt_words_def m idt_entry_struct.simps by (rule bit_word_eqI) (auto simp: bit_simps dest: bit_imp_le_length)
  have mid: "drop_bit 48 (fst (idt_words e)) = take_bit 16 (drop_bit 16 base)"
    unfolding assms idt_words_def m idt_entry_struct.simps by (rule bit_word_eqI) (auto simp: bit_simps dest: bit_imp_le_length)
  have hi: "take_bit 32 (snd (idt_words e)) = drop_bit 32 base"
    unfolding assms idt_words_def m idt_entry_struct.simps by (rule bit_word_eqI) (auto simp: bit_simps dest: bit_imp_le_length)
  show "gate_offset (idt_words e) = base" unfolding gate_offset_def lo mid hi
  proof (rule bit_word_eqI)
    fix n assume n: "n < LENGTH(64)"
    consider "n < 16" | "16 \<le> n" "n < 32" | "32 \<le> n" by linarith
    then show "bit (take_bit 16 base OR push_bit 16 (take_bit 16 (drop_bit 16 base)) OR push_bit 32 (drop_bit 32 base)) n = bit base n"
      using n by cases (simp add: bit_simps; auto)+
  qed
  show "gate_selector (idt_words e) = sel"
    unfolding assms idt_words_def gate_selector_def m idt_entry_struct.simps by (rule bit_word_eqI) (auto simp: bit_simps dest: bit_imp_le_length)
  show "gate_attr (idt_words e) = flags"
    unfolding assms idt_words_def gate_attr_def m idt_entry_struct.simps by (rule bit_word_eqI) (auto simp: bit_simps dest: bit_imp_le_length)
qed


subsection \<open>The tables after initialisation\<close>

text \<open>Segment selectors index the table in units of 8 bytes.\<close>

lemma gdt_init_entries:
  fixes gdt_addr tss_addr :: u64
  assumes "length (gdt s) = 7"
  defines "w \<equiv> (\<lambda>i. gdt_word (gdt (gdt_init gdt_addr tss_addr s) ! i))"
  shows "w 0 = 0" "seg_access (w 1) = 0x9A" "seg_flags (w 1) = 2" "seg_access (w 2) = 0x92" "seg_access (w 3) = 0xF2" "seg_access (w 4) = 0xFA" "seg_flags (w 4) = 2"
    "seg_access (w 5) = 0x89" "seg_limit (w 5) = 103" "seg_base (w 5) OR push_bit 32 (take_bit 32 (w 6)) = tss_addr"
proof -
  have at: "gdt (gdt_init gdt_addr tss_addr s) ! 1 = gdt_gate 0 0 GDT_KERNEL_CODE_ACCESS GDT_LONG_MODE"
    "gdt (gdt_init gdt_addr tss_addr s) ! 2 = gdt_gate 0 0 GDT_KERNEL_DATA_ACCESS 0"
    "gdt (gdt_init gdt_addr tss_addr s) ! 3 = gdt_gate 0 0 GDT_USER_DATA_ACCESS 0"
    "gdt (gdt_init gdt_addr tss_addr s) ! 4 = gdt_gate 0 0 GDT_USER_CODE_ACCESS GDT_LONG_MODE"
    "gdt (gdt_init gdt_addr tss_addr s) ! 5 = gdt_gate tss_addr 103 GDT_TSS_ACCESS 0"
    using assms(1) by (simp_all add: gdt_init_def gdt_flush_def tss_load_def set_tss_high_def gdt_set_gate_def Let_def)
  note f = seg_fields
  have acc: "GDT_KERNEL_CODE_ACCESS = 0x9A" "GDT_KERNEL_DATA_ACCESS = 0x92" "GDT_USER_DATA_ACCESS = 0xF2" "GDT_USER_CODE_ACCESS = 0xFA" "GDT_TSS_ACCESS = 0x89"
    by code_simp+
  show "w 0 = 0" using assms(1)
    by (simp add: w_def gdt_init_def gdt_flush_def tss_load_def set_tss_high_def gdt_set_gate_def gdt_gate_def gdt_word_def Let_def)
  show "seg_access (w 1) = 0x9A" "seg_access (w 2) = 0x92" "seg_access (w 3) = 0xF2" "seg_access (w 4) = 0xFA" "seg_access (w 5) = 0x89"
    unfolding w_def at f acc by (rule refl)+
  show "seg_flags (w 1) = 2" "seg_flags (w 4) = 2"
    unfolding w_def at f by code_simp+
  show "seg_limit (w 5) = 103"
    unfolding w_def at f by code_simp
  have b: "seg_base (w 5) = take_bit 32 tss_addr"
    unfolding w_def at f by (rule refl)
  have six: "gdt (gdt_init gdt_addr tss_addr s) ! 6 = \<lparr>limit_low = ucast (ucast (drop_bit 32 tss_addr) :: u32), base_low = ucast (drop_bit 16 (ucast (drop_bit 32 tss_addr) :: u32)),
      base_middle = 0, access = 0, granularity = 0, base_high = 0\<rparr>"
    using assms(1) by (simp add: gdt_init_def gdt_flush_def tss_load_def set_tss_high_def gdt_set_gate_def Let_def)
  have h: "take_bit 32 (w 6) = drop_bit 32 tss_addr"
  proof (rule bit_word_eqI)
    fix n assume n: "n < LENGTH(64)"
    consider "n < 16" | "16 \<le> n" "n < 32" | "32 \<le> n" by linarith
    then show "bit (take_bit 32 (w 6)) n = bit (drop_bit 32 tss_addr) n"
      using n unfolding w_def six gdt_word_def gdt_entry.simps
      by cases (simp add: bit_simps; auto dest: bit_imp_le_length)+
  qed
  show "seg_base (w 5) OR push_bit 32 (take_bit 32 (w 6)) = tss_addr" unfolding b h
  proof (rule bit_word_eqI)
    fix n assume "n < LENGTH(64)"
    then show "bit (take_bit 32 tss_addr OR push_bit 32 (drop_bit 32 tss_addr)) n = bit tss_addr n" by (cases "n < 32") (simp_all add: bit_simps)
  qed
qed


definition example_gdt :: gdt_state where
  "example_gdt = \<lparr>gdt = replicate 7 \<lparr>limit_low = 1, base_low = 2, base_middle = 3, access = 4, granularity = 5, base_high = 6\<rparr>,
     gdtp_limit = 0, gdtp_base = 0, tss = \<lparr>rsp0 = 0, rsp1 = 0, rsp2 = 0, ist = [], iomap_base = 0\<rparr>, gdtr = (0, 0), segment_registers = [],
     code_segment = 0, task_register = 0\<rparr>"


text \<open>
  C39: after \<^verbatim>\<open>idt_init\<close> the gates 0, 14, 32, 33 and 128 lead to their entry points in the kernel code
  segment, gate 128 open to ring 3 and the others to ring 0 only; every other entry is left as it
  was, so that in a zeroed table it is not present.
\<close>

theorem idt_init_gates:
  assumes "length (idt_entries s) = 256" and "e = (\<lambda>i. idt_entries (idt_init table_addr isr s) ! i)" and "i < 256"
  shows "if i \<in> {0, 14, 32, 33, 128}
    then gate_offset (idt_words (e i)) = isr i \<and> gate_selector (idt_words (e i)) = 8 \<and> gate_attr (idt_words (e i)) = (if i = 128 then 0xEE else 0x8E)
    else e i = idt_entries s ! i"
proof (cases "i \<in> {0, 14, 32, 33, 128}")
  case True
  have "e i = \<lparr>off_low = ucast (isr i AND 0xFFFF), selector = 8, gate_ist = 0, gate_flags = (if i = 128 then 0xEE else 0x8E),
       off_mid = ucast (drop_bit 16 (isr i) AND 0xFFFF), off_high = ucast (drop_bit 32 (isr i) AND 0xFFFFFFFF), reserved = 0\<rparr>"
    using True assms(1) by (auto simp: assms(2) idt_init_def pic_remap_def idt_set_gate_def Let_def)
  then show ?thesis using True gate_fields by simp
next
  case False
  then show ?thesis by (simp add: assms(2) idt_init_def pic_remap_def idt_set_gate_def Let_def)
qed

definition example_idt :: idt_state where
  "example_idt = \<lparr>idt_entries = replicate 256 \<lparr>off_low = 0, selector = 0, gate_ist = 0, gate_flags = 0, off_mid = 0, off_high = 0, reserved = 0\<rparr>,
     idt_limit = 0, idt_base = 0, idtr = (0, 0), interrupts_on = False, port_writes = []\<rparr>"

theorem idt_init_gates_witness:
  "gate_offset (idt_words (idt_entries (idt_init 0xFFFFFFFF80003000 (\<lambda>i. 0xFFFFFFFF80100000 + of_nat i) example_idt) ! 128)) = 0xFFFFFFFF80100080
   \<and> gate_flags (idt_entries (idt_init 0xFFFFFFFF80003000 (\<lambda>i. 0xFFFFFFFF80100000 + of_nat i) example_idt) ! 13) = 0"
proof -
  have l: "length (idt_entries example_idt) = 256" by (simp add: example_idt_def)
  note g = idt_init_gates [OF l refl, of _ "0xFFFFFFFF80003000" "\<lambda>i. 0xFFFFFFFF80100000 + of_nat i"]
  show ?thesis using g [of 128] g [of 13] by (simp add: example_idt_def)
qed

end
