(* ===== verification/X86.thy ===== *)
theory X86
  imports Ulib Kmem
begin

text \<open>
  The wrappers of single instructions and the string routines in assembly of \<^verbatim>\<open>arch/x86_64.h\<close> and \<^verbatim>\<open>drivers/io.h\<close>, on a
  processor state of their own. The components of the kernel keep only the part of this state they use
  (the loaded page table, the interrupt flag, the bytes sent to ports).
\<close>

subsection \<open>The processor\<close>

text \<open>
  \<open>dev_in p n\<close> is the \<open>n\<close>-th value that the device at port \<open>p\<close> delivers, \<open>dev_reads p\<close> how many were read, and \<open>dev_out\<close> lists port,
  width in bytes and value of what was written. \<open>trapped_bp\<close> counts breakpoint traps, \<open>halted\<close> is set by \<^verbatim>\<open>hlt\<close>.
\<close>

record cpu =
  x_mem :: mem
  x_rax :: u64
  x_rsp :: u64
  x_rbp :: u64
  x_rip :: u64
  rflags :: u64
  seg_cs :: u16
  seg_ss :: u16
  seg_data :: "u16 list"
  task_reg :: u16
  idt_reg :: u64
  gdt_reg :: u64
  creg0 :: u64
  creg2 :: u64
  creg3 :: u64
  dregs :: "nat \<Rightarrow> u64"
  msrs :: "u32 \<Rightarrow> u64"
  dev_in :: "u16 \<Rightarrow> nat \<Rightarrow> u32"
  dev_reads :: "u16 \<Rightarrow> nat"
  dev_out :: "(u16 \<times> nat \<times> u32) list"
  trapped_bp :: nat
  halted :: bool
  flushed :: "u64 list"

subsection \<open>Ports\<close>

definition port_in :: "u16 \<Rightarrow> cpu \<Rightarrow> u32 \<times> cpu" where
  "port_in port c = (dev_in c port (dev_reads c port), c\<lparr>dev_reads := (dev_reads c)(port := dev_reads c port + 1)\<rparr>)"

definition inb :: "u16 \<Rightarrow> cpu \<Rightarrow> u8 \<times> cpu" where
  "inb port c = (case port_in port c of (v, c') \<Rightarrow> (ucast v, c'))"

definition inw :: "u16 \<Rightarrow> cpu \<Rightarrow> u16 \<times> cpu" where
  "inw port c = (case port_in port c of (v, c') \<Rightarrow> (ucast v, c'))"

definition inl :: "u16 \<Rightarrow> cpu \<Rightarrow> u32 \<times> cpu" where
  "inl port c = port_in port c"

definition port_out :: "u16 \<Rightarrow> nat \<Rightarrow> u32 \<Rightarrow> cpu \<Rightarrow> cpu" where
  "port_out port width v c = c\<lparr>dev_out := dev_out c @ [(port, width, v)]\<rparr>"

definition outb :: "u16 \<Rightarrow> u8 \<Rightarrow> cpu \<Rightarrow> cpu" where
  "outb port data c = port_out port 1 (ucast data) c"

definition outw :: "u16 \<Rightarrow> u16 \<Rightarrow> cpu \<Rightarrow> cpu" where
  "outw port data c = port_out port 2 (ucast data) c"

definition outl :: "u16 \<Rightarrow> u32 \<Rightarrow> cpu \<Rightarrow> cpu" where
  "outl port data c = port_out port 4 data c"

text \<open>
  \<^verbatim>\<open>insl\<close> and \<^verbatim>\<open>outsl\<close>: the count is the register \<^verbatim>\<open>ecx\<close>, so that a negative \<^verbatim>\<open>cnt\<close> counts as a large one; the port is the lower half
  of \<^verbatim>\<open>edx\<close>. The direction flag is cleared first.
\<close>

definition dword_at :: "mem \<Rightarrow> u64 \<Rightarrow> u32" where
  "dword_at m a = ucast (m a) OR push_bit 8 (ucast (m (a + 1))) OR push_bit 16 (ucast (m (a + 2))) OR push_bit 24 (ucast (m (a + 3)))"

definition dword_bytes :: "u32 \<Rightarrow> u8 list" where
  "dword_bytes v = map (\<lambda>i. ucast (drop_bit (8 * i) v)) [0..<4]"

fun insl_loop :: "u16 \<Rightarrow> nat \<Rightarrow> u64 \<Rightarrow> cpu \<Rightarrow> cpu" where
  "insl_loop port 0 addr c = c"
| "insl_loop port (Suc n) addr c =
     (case port_in port c of (v, c') \<Rightarrow> insl_loop port n (addr + 4) (c'\<lparr>x_mem := write_bytes (x_mem c') addr (dword_bytes v)\<rparr>))"

definition insl :: "u32 \<Rightarrow> u64 \<Rightarrow> u32 \<Rightarrow> cpu \<Rightarrow> cpu" where
  "insl port addr cnt c = insl_loop (ucast port) (unat cnt) addr (c\<lparr>rflags := rflags c AND NOT 0x400\<rparr>)"

fun outsl_loop :: "u16 \<Rightarrow> nat \<Rightarrow> u64 \<Rightarrow> cpu \<Rightarrow> cpu" where
  "outsl_loop port 0 addr c = c"
| "outsl_loop port (Suc n) addr c = outsl_loop port n (addr + 4) (port_out port 4 (dword_at (x_mem c) addr) c)"

definition outsl :: "u32 \<Rightarrow> u64 \<Rightarrow> u32 \<Rightarrow> cpu \<Rightarrow> cpu" where
  "outsl port addr cnt c = outsl_loop (ucast port) (unat cnt) addr (c\<lparr>rflags := rflags c AND NOT 0x400\<rparr>)"

subsection \<open>Registers\<close>

definition read_rbp :: "cpu \<Rightarrow> u64" where "read_rbp c = x_rbp c"
definition breakpoint :: "cpu \<Rightarrow> cpu" where "breakpoint c = c\<lparr>trapped_bp := trapped_bp c + 1\<rparr>"
definition hlt :: "cpu \<Rightarrow> cpu" where "hlt c = c\<lparr>halted := True\<rparr>"

definition has_dr :: "nat \<Rightarrow> bool" where
  "has_dr n \<longleftrightarrow> n = 0 \<or> n = 1 \<or> n = 2 \<or> n = 3 \<or> n = 6 \<or> n = 7"

definition read_dr :: "nat \<Rightarrow> cpu \<Rightarrow> u64" where
  "read_dr regnum c = (if has_dr regnum then dregs c regnum else 0)"

definition write_dr :: "nat \<Rightarrow> u64 \<Rightarrow> cpu \<Rightarrow> cpu" where
  "write_dr regnum value c = (if has_dr regnum then c\<lparr>dregs := (dregs c)(regnum := value)\<rparr> else c)"

definition lidt :: "u64 \<Rightarrow> cpu \<Rightarrow> cpu" where "lidt pd c = c\<lparr>idt_reg := pd\<rparr>"
definition lgdt :: "u64 \<Rightarrow> cpu \<Rightarrow> cpu" where "lgdt pd c = c\<lparr>gdt_reg := pd\<rparr>"
definition ltr :: "u16 \<Rightarrow> cpu \<Rightarrow> cpu" where "ltr sel c = c\<lparr>task_reg := sel\<rparr>"
definition sti :: "cpu \<Rightarrow> cpu" where "sti c = c\<lparr>rflags := rflags c OR 0x200\<rparr>"
definition cli :: "cpu \<Rightarrow> cpu" where "cli c = c\<lparr>rflags := rflags c AND NOT 0x200\<rparr>"
definition lcr0 :: "u64 \<Rightarrow> cpu \<Rightarrow> cpu" where "lcr0 v c = c\<lparr>creg0 := v\<rparr>"
definition lcr3 :: "u64 \<Rightarrow> cpu \<Rightarrow> cpu" where "lcr3 v c = c\<lparr>creg3 := v\<rparr>"
definition rcr0 :: "cpu \<Rightarrow> u64" where "rcr0 c = creg0 c"
definition rcr2 :: "cpu \<Rightarrow> u64" where "rcr2 c = creg2 c"
definition rcr3 :: "cpu \<Rightarrow> u64" where "rcr3 c = creg3 c"
definition invlpg :: "u64 \<Rightarrow> cpu \<Rightarrow> cpu" where "invlpg a c = c\<lparr>flushed := flushed c @ [a]\<rparr>"

text \<open>The flags go through the stack.\<close>

definition push :: "u64 \<Rightarrow> cpu \<Rightarrow> cpu" where
  "push v c = c\<lparr>x_rsp := x_rsp c - 8, x_mem := write64 (x_mem c) (x_rsp c - 8) v\<rparr>"

definition pop :: "cpu \<Rightarrow> u64 \<times> cpu" where
  "pop c = (read64 (x_mem c) (x_rsp c), c\<lparr>x_rsp := x_rsp c + 8\<rparr>)"

definition read_rflags :: "cpu \<Rightarrow> u64 \<times> cpu" where
  "read_rflags c = pop (push (rflags c) c)"

definition write_rflags :: "u64 \<Rightarrow> cpu \<Rightarrow> cpu" where
  "write_rflags v c = (case pop (push v c) of (f, c') \<Rightarrow> c'\<lparr>rflags := f\<rparr>)"

text \<open>The value of a model-specific register passes through \<^verbatim>\<open>edx:eax\<close> in two halves.\<close>

definition rdmsr :: "u32 \<Rightarrow> cpu \<Rightarrow> u64" where
  "rdmsr msr c = (let low = ucast (msrs c msr) :: u32; high = ucast (drop_bit 32 (msrs c msr)) :: u32
    in push_bit 32 (ucast high) OR ucast low)"

definition wrmsr :: "u32 \<Rightarrow> u64 \<Rightarrow> cpu \<Rightarrow> cpu" where
  "wrmsr msr value c = (let low = ucast (value AND 0xFFFFFFFF) :: u32; high = ucast (drop_bit 32 value) :: u32
    in c\<lparr>msrs := (msrs c)(msr := push_bit 32 (ucast high) OR ucast low)\<rparr>)"

text \<open>\<^verbatim>\<open>iretq\<close> takes the instruction pointer, \<^verbatim>\<open>cs\<close>, the flags, the stack pointer and \<^verbatim>\<open>ss\<close> from the stack.\<close>

definition iretq :: "cpu \<Rightarrow> cpu" where
  "iretq c = (let m = x_mem c; sp = x_rsp c
    in c\<lparr>x_rip := read64 m sp, seg_cs := ucast (read64 m (sp + 8)), rflags := read64 m (sp + 16),
         x_rsp := read64 m (sp + 24), seg_ss := ucast (read64 m (sp + 32))\<rparr>)"

definition enter_user_mode :: "u64 \<Rightarrow> u64 \<Rightarrow> cpu \<Rightarrow> cpu" where
  "enter_user_mode entry_point user_stack c =
     (let c1 = (cli c)\<lparr>seg_data := [0x1B, 0x1B, 0x1B, 0x1B]\<rparr>;
          c2 = push user_stack (push 0x1B c1);
          (f, c3) = pop (push (rflags c2) c2);
          c4 = c3\<lparr>x_rax := f OR 0x200\<rparr>
      in iretq (push entry_point (push 0x23 (push (x_rax c4) c4))))"

subsection \<open>String routines\<close>

text \<open>
  \<^verbatim>\<open>rep stosb\<close>, \<^verbatim>\<open>rep movsb\<close> and \<^verbatim>\<open>rep movsq\<close> with the count in \<^verbatim>\<open>rcx\<close>; \<open>df\<close> is the direction flag, which the compiler keeps clear.
  The results are the memory and the two index registers.
\<close>

function rep_stosb :: "mem \<Rightarrow> u64 \<Rightarrow> u8 \<Rightarrow> u64 \<Rightarrow> mem" where
  "rep_stosb m rdi al rcx = (if rcx = 0 then m else rep_stosb (m(rdi := al)) (rdi + 1) al (rcx - 1))"
  by pat_completeness auto
termination
  by (relation "measure (\<lambda>(m, p, v, n). unat n)") simp_all

function rep_movsb :: "bool \<Rightarrow> mem \<Rightarrow> u64 \<Rightarrow> u64 \<Rightarrow> u64 \<Rightarrow> mem \<times> u64 \<times> u64" where
  "rep_movsb df m rdi rsi rcx =
     (if rcx = 0 then (m, rdi, rsi)
      else let k = (if df then -1 else 1) in rep_movsb df (m(rdi := m rsi)) (rdi + k) (rsi + k) (rcx - 1))"
  by pat_completeness auto
termination
  by (relation "measure (\<lambda>(df, m, d, s, n). unat n)") simp_all

function rep_movsq :: "mem \<Rightarrow> u64 \<Rightarrow> u64 \<Rightarrow> u64 \<Rightarrow> mem \<times> u64 \<times> u64" where
  "rep_movsq m rdi rsi rcx =
     (if rcx = 0 then (m, rdi, rsi) else rep_movsq (write64 m rdi (read64 m rsi)) (rdi + 8) (rsi + 8) (rcx - 1))"
  by pat_completeness auto
termination
  by (relation "measure (\<lambda>(m, d, s, n). unat n)") simp_all

declare rep_stosb.simps [simp del] rep_movsb.simps [simp del] rep_movsq.simps [simp del]

text \<open>
  \<^verbatim>\<open>__strcmp\<close>: the borrow of the last comparison gives \<open>-1\<close> or \<open>1\<close>. Neither this loop nor the one of \<^verbatim>\<open>__strcpy\<close> need end.
\<close>

partial_function (option) asm_strcmp :: "mem \<Rightarrow> u64 \<Rightarrow> u64 \<Rightarrow> int option" where
  "asm_strcmp m rsi rdi =
     (if m rsi \<noteq> m rdi then Some (if m rsi < m rdi then - 1 else 1)
      else if m rsi \<noteq> 0 then asm_strcmp m (rsi + 1) (rdi + 1) else Some 0)"

partial_function (option) asm_strcpy :: "mem \<Rightarrow> u64 \<Rightarrow> u64 \<Rightarrow> mem option" where
  "asm_strcpy m rdi rsi =
     (let al = m rsi; m' = m(rdi := al) in if al \<noteq> 0 then asm_strcpy m' (rdi + 1) (rsi + 1) else Some m')"

definition asm_memset :: "mem \<Rightarrow> u64 \<Rightarrow> u8 \<Rightarrow> u64 \<Rightarrow> mem" where
  "asm_memset m s c n = rep_stosb m s c n"

definition asm_memcpy :: "mem \<Rightarrow> u64 \<Rightarrow> u64 \<Rightarrow> u64 \<Rightarrow> mem" where
  "asm_memcpy m dst src n =
     (case rep_movsq m dst src (n div 8) of (m', rdi, rsi) \<Rightarrow>
        let rcx = n AND 7 in if rcx = 0 then m' else fst (rep_movsb False m' rdi rsi rcx))"

definition asm_memmove :: "mem \<Rightarrow> u64 \<Rightarrow> u64 \<Rightarrow> u64 \<Rightarrow> mem" where
  "asm_memmove m dst src n =
     (if dst < src then asm_memcpy m dst src n
      else fst (rep_movsb True m (n - 1 + dst) (n - 1 + src) n))"

subsection \<open>Comparison with the routines in C\<close>

lemma rep_stosb_eq: "rep_stosb m p v n = memset m p v n"
proof (induction m p v n rule: rep_stosb.induct)
  case (1 m p v n)
  then show ?case by (subst rep_stosb.simps, subst memset.simps) (simp del: fun_upd_apply)
qed

lemma rep_movsb_forward: "rep_movsb False m d s n = (memcpy m d s n, d + n, s + n)"
proof (induction False m d s n rule: rep_movsb.induct)
  case (1 m d s n)
  then show ?case by (subst rep_movsb.simps, subst memcpy.simps) (simp add: Let_def)
qed

lemma rep_movsb_backward: "fst (rep_movsb True m d s n) = u_memmove_back m d s n"
proof (induction True m d s n rule: rep_movsb.induct)
  case (1 m d s n)
  then show ?case by (subst rep_movsb.simps, subst u_memmove_back.simps) (simp add: Let_def)
qed

lemma memcpy_append:
  assumes "unat a + unat b < 2 ^ 64"
  shows "memcpy m d s (a + b) = memcpy (memcpy m d s a) (d + a) (s + a) b"
  using assms
proof (induction m d s a rule: memcpy.induct)
  case (1 m d s a)
  show ?case
  proof (cases "a = 0")
    case True
    then show ?thesis by (simp add: memcpy.simps [of m d s 0])
  next
    case False
    then have u: "unat (a - 1) = unat a - 1" "0 < unat a" by (simp_all add: unat_minus_one unat_gt_0)
    have "a + b \<noteq> 0"
    proof
      assume "a + b = 0"
      then have "unat (a + b) = 0" by simp
      then show False using "1.prems" u(2) by (simp add: unat_add_no_overflow)
    qed
    then have "memcpy m d s (a + b) = memcpy (m(d := m s)) (d + 1) (s + 1) (a - 1 + b)"
      by (subst memcpy.simps) (simp add: algebra_simps)
    also have "\<dots> = memcpy (memcpy (m(d := m s)) (d + 1) (s + 1) (a - 1)) (d + 1 + (a - 1)) (s + 1 + (a - 1)) b"
      using u "1.prems" by (intro "1.IH" [OF False]) linarith
    also have "\<dots> = memcpy (memcpy m d s a) (d + a) (s + a) b"
      using False by (simp add: memcpy.simps [of m d s a])
    finally show ?thesis .
  qed
qed

lemma below_8: "(k :: u64) < 8 \<Longrightarrow> k \<in> {0, 1, 2, 3, 4, 5, 6, 7}"
  by (simp add: word_unat_eq_iff word_less_nat_alt) linarith

lemma read64_byte:
  "ucast (read64 m s) = m s" "ucast (drop_bit 8 (read64 m s)) = m (s + 1)" "ucast (drop_bit 16 (read64 m s)) = m (s + 2)"
  "ucast (drop_bit 24 (read64 m s)) = m (s + 3)" "ucast (drop_bit 32 (read64 m s)) = m (s + 4)" "ucast (drop_bit 40 (read64 m s)) = m (s + 5)"
  "ucast (drop_bit 48 (read64 m s)) = m (s + 6)" "ucast (drop_bit 56 (read64 m s)) = m (s + 7)"
  by (rule bit_word_eqI; auto simp: read64_def bit_simps dest: bit_imp_le_length)+

lemma movsq_is_memcpy:
  assumes "d = s \<or> 8 \<le> d - s"
  shows "write64 m d (read64 m s) = memcpy m d s 8"
proof (rule ext)
  fix x
  have eq: "memcpy m d s 8 x = (if x - d < 8 then m (s + (x - d)) else m x)" using memcpy_eq [OF assms] by simp
  show "write64 m d (read64 m s) x = memcpy m d s 8 x"
  proof (cases "x - d < 8")
    case False
    then have "8 \<le> x - d" by simp
    then show ?thesis unfolding eq using False by (simp only: write64_other if_False)
  next
    case True
    have x: "x = d + (x - d)" by simp
    have "x - d \<in> {0, 1, 2, 3, 4, 5, 6, 7}" using True by (rule below_8)
    then have "write64 m d (read64 m s) (d + (x - d)) = m (s + (x - d))"
      by (elim insertE emptyE; simp add: write64_def read64_byte)
    then show ?thesis unfolding eq using True by simp
  qed
qed

lemma rep_movsq_eq:
  assumes "d = s \<or> 8 * k \<le> d - s" "8 * unat k < 2 ^ 64"
  shows "rep_movsq m d s k = (memcpy m d s (8 * k), d + 8 * k, s + 8 * k)"
  using assms
proof (induction m d s k rule: rep_movsq.induct)
  case (1 m d s k)
  show ?case
  proof (cases "k = 0")
    case True
    then show ?thesis by (subst rep_movsq.simps) (simp add: memcpy.simps [of m d s 0])
  next
    case False
    have u: "unat (k - 1) = unat k - 1" "0 < unat k" using False by (simp_all add: unat_minus_one unat_gt_0)
    have k8: "unat (8 * k) = 8 * unat k" using "1.prems"(2) by (simp add: unat_mult_no_overflow)
    have k8': "unat (8 * (k - 1)) = 8 * (unat k - 1)" using "1.prems"(2) u by (subst unat_mult_no_overflow) simp_all
    have d: "d = s \<or> 8 \<le> d - s" "d + 8 = s + 8 \<or> 8 * (k - 1) \<le> d + 8 - (s + 8)" "8 * unat (k - 1) < 2 ^ 64"
      using "1.prems" u k8 k8' by (auto simp: word_le_nat_alt)
    have "rep_movsq m d s k = rep_movsq (memcpy m d s 8) (d + 8) (s + 8) (k - 1)"
      using False movsq_is_memcpy [OF d(1), of m] by (subst rep_movsq.simps) simp
    also have "\<dots> = (memcpy (memcpy m d s 8) (d + 8) (s + 8) (8 * (k - 1)), d + 8 + 8 * (k - 1), s + 8 + 8 * (k - 1))"
      using "1.IH" [OF False] d(2,3) movsq_is_memcpy [OF d(1), of m] by simp
    also have "memcpy (memcpy m d s 8) (d + 8) (s + 8) (8 * (k - 1)) = memcpy m d s (8 + 8 * (k - 1))"
      using "1.prems"(2) u(2) k8' by (intro memcpy_append [symmetric]) simp
    finally show ?thesis by (simp add: algebra_simps)
  qed
qed

lemma asm_memcpy_eq:
  assumes "d = s \<or> n \<le> d - s"
  shows "asm_memcpy m d s n = memcpy m d s n"
proof -
  have q: "8 * unat (n div 8) \<le> unat n" by (simp add: unat_div)
  have r: "n AND 7 = n mod 8" using take_bit_eq_mask [of 3 n] by (simp add: mask_eq_exp_minus_1 take_bit_eq_mod)
  have q8: "unat (8 * (n div 8)) = 8 * unat (n div 8)" using q unat_lt_2p64 [of n] by (subst unat_mult_no_overflow) simp_all
  have m: "rep_movsq m d s (n div 8) = (memcpy m d s (8 * (n div 8)), d + 8 * (n div 8), s + 8 * (n div 8))"
    using assms q q8 unat_lt_2p64 [of n] by (intro rep_movsq_eq) (auto simp: word_le_nat_alt)
  have "unat (8 * (n div 8)) + unat (n mod 8) < 2 ^ 64"
    using q8 unat_lt_2p64 [of n] by (simp add: unat_div unat_mod)
  from memcpy_append [OF this, of m d s] show ?thesis
    by (simp add: asm_memcpy_def m r rep_movsb_forward memcpy.simps [of _ _ _ 0] mult_div_mod_eq Let_def)
qed

text \<open>The move in assembly, eight bytes at a time when it goes forward, is the one of the user library in C.\<close>

lemma asm_memmove_eq:
  assumes "unat src + unat n \<le> 2 ^ 64"
  shows "asm_memmove m dest src n = u_memmove m dest src n"
proof (cases "dest < src")
  case True
  then have "n \<le> dest - src" using assms by (simp add: word_le_nat_alt word_less_nat_alt unat_sub_if')
  then show ?thesis using True by (simp add: asm_memmove_def u_memmove_def asm_memcpy_eq u_memcpy_eq)
next
  case False
  then show ?thesis by (simp add: asm_memmove_def u_memmove_def rep_movsb_backward add.commute)
qed

lemma asm_strcpy_eq: "asm_strcpy m d s = strcpy m d s"
proof -
  have 1: "strcpy m d s = Some y" if "asm_strcpy m d s = Some y" for y
    by (rule asm_strcpy.raw_induct [OF _ that, where P = "\<lambda>m d s y. strcpy m d s = Some y"])
       (subst strcpy.simps, auto simp: Let_def simp del: fun_upd_apply split: if_splits)
  have 2: "asm_strcpy m d s = Some y" if "strcpy m d s = Some y" for y
    by (rule strcpy.raw_induct [OF _ that, where P = "\<lambda>m d s y. asm_strcpy m d s = Some y"])
       (subst asm_strcpy.simps, auto simp: Let_def simp del: fun_upd_apply split: if_splits)
  show ?thesis using 1 2 by (cases "asm_strcpy m d s"; cases "strcpy m d s") auto
qed

lemma asm_strcmp_sign: "cstr m a s \<Longrightarrow> cstr m b t \<Longrightarrow> asm_strcmp m a b = map_option sgn (strcmp m a b)"
proof (induction s arbitrary: a b t)
  case Nil
  then show ?case by (cases t) (simp_all add: asm_strcmp.simps [of m a b] strcmp.simps [of m a b] word_gt_0 uint_0_iff)
next
  case (Cons v s)
  show ?case
  proof (cases "m a = m b")
    case True
    then obtain t' where "cstr m (b + 1) t'" using Cons.prems by (cases t) auto
    with True Cons show ?thesis by (simp add: asm_strcmp.simps [of m a b] strcmp.simps [of m a b])
  next
    case False
    then show ?thesis
      by (auto simp: asm_strcmp.simps [of m a b] strcmp.simps [of m a b] word_less_def sgn_if word_uint_eq_iff)
  qed
qed

lemma wrmsr_rdmsr: "rdmsr msr (wrmsr msr v c) = v"
proof -
  have "v AND 0xFFFFFFFF = take_bit 32 v" by (simp add: take_bit_eq_mask mask_eq_exp_minus_1)
  then show ?thesis by (intro bit_word_eqI) (auto simp: rdmsr_def wrmsr_def Let_def bit_simps)
qed

lemma read64_write64_apart:
  assumes "8 \<le> b - a" "8 \<le> a - b"
  shows "read64 (write64 m a v) b = read64 m b"
proof (rule read64_cong)
  fix k :: u64 assume k: "k < 8"
  have "unat (a - b) = 2 ^ 64 - unat (b - a)" 
    using unat_sub_if' [of 0 "b - a"] assms(1) by (auto simp: word_le_nat_alt)
  then have "unat (b - a) \<le> 2 ^ 64 - 8" using assms unat_lt_2p64 [of "b - a"] by (simp add: word_le_nat_alt)
  then have "unat (b - a + k) = unat (b - a) + unat k" using k by (simp add: unat_add_no_overflow word_less_nat_alt)
  then have "8 \<le> b - a + k" using assms(1) by (simp add: word_le_nat_alt)
  then show "write64 m a v (b + k) = m (b + k)" by (intro write64_other) (simp add: algebra_simps)
qed

lemma enter_user_mode_state:
  assumes "c' = enter_user_mode entry_point user_stack c"
  shows "x_rip c' = entry_point" "x_rsp c' = user_stack" "seg_cs c' = 0x23" "seg_ss c' = 0x1B" "rflags c' = rflags c OR 0x200"
proof -
  have "rflags c AND NOT 0x200 OR 0x200 = rflags c OR 0x200" by (rule bit_word_eqI) (auto simp: bit_simps)
  then show "x_rip c' = entry_point" "x_rsp c' = user_stack" "seg_cs c' = 0x23" "seg_ss c' = 0x1B" "rflags c' = rflags c OR 0x200"
    by (simp_all add: assms enter_user_mode_def iretq_def push_def pop_def cli_def Let_def read64_write64_apart)
qed

subsection \<open>Properties\<close>

text \<open>
  C19: \<^verbatim>\<open>__memmove\<close>, which copies eight bytes at a time and the rest singly when the destination lies in front and byte
  by byte from the end otherwise, moves the block also when source and destination overlap, and changes nothing else: it is the same function
  as the byte loop \<^verbatim>\<open>memmove\<close> of the user library.
\<close>

theorem asm_memmove_moves:
  assumes "unat dest + unat n \<le> 2 ^ 64" "unat src + unat n \<le> 2 ^ 64"
  shows "asm_memmove m dest src n = (\<lambda>x. if x - dest < n then m (src + (x - dest)) else m x)
    \<and> asm_memmove m dest src n = u_memmove m dest src n"
  using asm_memmove_eq [OF assms(2)] u_memmove_eq [OF assms] by simp

theorem asm_memmove_moves_witness:
  "map (asm_memmove (mem_of 100 [1, 2, 3, 4, 5, 6, 7, 8, 9, 10, 11]) 102 100 9) [101, 102, 103, 109, 110, 111] = [2, 1, 2, 8, 9, 0]
   \<and> map (asm_memmove (mem_of 100 [1, 2, 3, 4, 5, 6, 7, 8, 9, 10, 11]) 100 102 9) [99, 100, 101, 107, 108, 109] = [0, 3, 4, 10, 11, 10]"
  using asm_memmove_moves [of 102 9 100] asm_memmove_moves [of 100 9 102] by simp

end
