(* ===== verification/Boot.thy ===== *)
theory Boot
  imports Shell Descriptors X86
begin

text \<open>
  Booting, \<^verbatim>\<open>main.c\<close>, with the report on the memory map, \<^verbatim>\<open>mm/debug_mm.c\<close>. What the boot loader has filled in is an
  argument. The result is \<open>None\<close> for a fault, and \<open>Stopped\<close> where the code stops the processor with \<^verbatim>\<open>hcf\<close> or
  waits for ever.
\<close>

subsection \<open>Messages\<close>

definition kprint_lit :: "string \<Rightarrow> console \<Rightarrow> console option" where
  "kprint_lit msg c = kprint (write_bytes (\<lambda>_. 0) 1 (str msg)) 1 c"

definition kprintln_lit :: "string \<Rightarrow> console \<Rightarrow> console option" where
  "kprintln_lit msg c = kprintln (write_bytes (\<lambda>_. 0) 1 (str msg)) 1 c"

definition kprint_number :: "u64 \<Rightarrow> u64 \<Rightarrow> console \<Rightarrow> console option" where
  "kprint_number v base c = kprint (itoa_uint64 (\<lambda>_. 0) v 1 base) 1 c"

definition memtype2str :: "u64 \<Rightarrow> string" where
  "memtype2str t =
     (if t = 0 then ''USABLE'' else if t = 1 then ''RESERVED'' else if t = 2 then ''ACPI_RECLAIMABLE'' else if t = 3 then ''ACPI_NVS''
      else if t = 4 then ''BAD_MEMORY'' else if t = 5 then ''BOOTLOADER_RECLAIMABLE'' else if t = 6 then ''EXECUTABLE_AND_MODULES''
      else if t = 7 then ''MEMMAP_FRAMEBUFFER'' else if t = 8 then ''ACPI_TABLES'' else ''UNKNOWN'')"

text \<open>The loop over the entries, with the sums of all, of the usable and of the other lengths.\<close>

fun debug_entries :: "u64 \<Rightarrow> limine_memmap_entry list \<Rightarrow> u64 \<times> u64 \<times> u64 \<Rightarrow> console \<Rightarrow> ((u64 \<times> u64 \<times> u64) \<times> console) option" where
  "debug_entries i [] sums c = Some (sums, c)"
| "debug_entries i (e # es) (totalmm, usablemm, unusablemm) c = do {
     c1 \<leftarrow> kprint_lit ''Entry '' c;
     c2 \<leftarrow> kprint_uint64 i c1;
     c3 \<leftarrow> kprint_lit '':'' c2;
     c4 \<leftarrow> kprint_lit '' base address at: '' c3;
     c5 \<leftarrow> kprint_number (me_base e) 16 c4;
     c6 \<leftarrow> kprint_lit '' size='' c5;
     c7 \<leftarrow> kprint_number (me_length e) 10 c6;
     c8 \<leftarrow> kprint_lit '' bytes'' c7;
     c9 \<leftarrow> kprint_lit '' type='' c8;
     c10 \<leftarrow> kprintln_lit (memtype2str (me_type e)) c9;
     debug_entries (i + 1) es
       (totalmm + me_length e,
        if me_type e = LIMINE_MEMMAP_USABLE then usablemm + me_length e else usablemm,
        if me_type e = LIMINE_MEMMAP_USABLE then unusablemm else unusablemm + me_length e) c10
   }"

definition debug_memmap :: "limine_memmap_entry list option \<Rightarrow> console \<Rightarrow> console option" where
  "debug_memmap mmap c = do {
     c1 \<leftarrow> kprintln_lit ''start debug memmap ... '' c;
     case mmap of
       None \<Rightarrow> kprintln_lit ''Memmap request failed!'' c1
     | Some es \<Rightarrow> do {
         c2 \<leftarrow> kprintln_lit ''=== LIMINE MEMORY MAP ==='' c1;
         ((totalmm, usablemm, unusablemm), c3) \<leftarrow> debug_entries 0 es (0, 0, 0) c2;
         c4 \<leftarrow> kprint_lit ''total memory: '' c3;
         c5 \<leftarrow> kprint_number totalmm 10 c4;
         c6 \<leftarrow> kprintln_lit '' bytes'' c5;
         c7 \<leftarrow> kprint_lit ''usable memory: '' c6;
         c8 \<leftarrow> kprint_number usablemm 10 c7;
         c9 \<leftarrow> kprintln_lit '' bytes'' c8;
         c10 \<leftarrow> kprint_lit ''unusable memory: '' c9;
         c11 \<leftarrow> kprint_number unusablemm 10 c10;
         c12 \<leftarrow> kprintln_lit '' bytes'' c11;
         kprintln_lit ''=== DEBUG MEMORY MAP FINISHED! ==='' c12
       }
   }"

text \<open>A step of the console inside the kernel.\<close>

definition on_console :: "(console \<Rightarrow> console option) \<Rightarrow> kernel \<Rightarrow> kernel option" where
  "on_console f s = map_option (\<lambda>c. s\<lparr>kbd := (kbd s)\<lparr>con := c\<rparr>\<rparr>) (f (con (kbd s)))"

subsection \<open>Memory\<close>

datatype 'a boot = Ready 'a | Stopped

text \<open>
  What the boot loader hands over: the revision check, the frame buffers, the memory map, the offset of
  the direct map, where the kernel was loaded (virtual and physical), and the modules as address and
  size. \<open>k_start\<close> and \<open>k_end\<close> are symbols of the linker script; \<open>imr_keyboard\<close> and \<open>imr_timer\<close> are what the two
  reads of the interrupt mask register return, \<open>idle_name\<close> and \<open>init_name\<close> are addresses of string constants.
\<close>

record limine =
  revision_ok :: bool
  framebuffers :: "limine_framebuffer list option"
  memmap :: "limine_memmap_entry list option"
  hhdm :: "u64 option"
  kernel_address :: "(u64 \<times> u64) option"
  modules :: "(u64 \<times> u64) list option"
  k_start :: u64
  k_end :: u64
  gdt_at :: u64
  tss_at :: u64
  idt_at :: u64
  stubs :: "nat \<Rightarrow> u64"
  imr_keyboard :: u8
  imr_timer :: u8
  idle_name :: u64
  init_name :: u64

text \<open>
  \<^verbatim>\<open>mm_init\<close>. With no memory map, \<^verbatim>\<open>pmm_init\<close> would read through a null pointer. The messages of the routines that
  are called are left out.
\<close>

definition mm_init :: "limine \<Rightarrow> kernel \<Rightarrow> kernel boot option" where
  "mm_init b s = do {
     s1 \<leftarrow> on_console (kprintln_lit ''Initializing Memory Management Subsystem...'') s;
     case hhdm b of
       None \<Rightarrow> Some Stopped
     | Some off \<Rightarrow> do {
         s2 \<leftarrow> on_console (debug_memmap (memmap b)) (s1\<lparr>HHDM_OFFSET := off\<rparr>);
         s3 \<leftarrow> kprintf_lit ''HHDM OFFSET: %lx\<newline>'' '''' [VA_u64 off] s2;
         mmap \<leftarrow> memmap b;
         s4 \<leftarrow> pmm_init off mmap s3;
         s5 \<leftarrow> paging_init mmap (k_start b) (k_end b) (kernel_address b) s4;
         (ksptr, s6) \<leftarrow> kstack_init (4 * PAGE_SIZE) (kheap_init 4 s5);
         if ksptr = 0 then Some Stopped
         else map_option Ready (kprintf_lit ''Switching stack to %lx\<newline>'' '''' [VA_u64 ksptr] (set_tss_stack ksptr s6))
       }
   }"

subsection \<open>The boot sequence\<close>

record machine =
  m_kernel :: kernel
  m_gdt :: gdt_state
  m_idt :: idt_state
  m_cpu :: cpu

definition enable_nx :: "machine \<Rightarrow> machine" where
  "enable_nx m = (let efer = rdmsr 0xC0000080 (m_cpu m) in m\<lparr>m_cpu := wrmsr 0xC0000080 (efer OR push_bit 11 1) (m_cpu m)\<rparr>)"

definition say :: "string \<Rightarrow> machine \<Rightarrow> machine option" where
  "say msg m = map_option (\<lambda>s. m\<lparr>m_kernel := s\<rparr>) (on_console (kprintln_lit msg) (m_kernel m))"

text \<open>
  The first half of \<^verbatim>\<open>kernel_init\<close>: console, descriptor tables, keyboard and \<^verbatim>\<open>NX\<close>. The stack pointer in the task
  state segment is kept with the kernel, where the scheduler sets it.
\<close>

definition start_keyboard :: "u8 \<Rightarrow> kernel \<Rightarrow> kernel" where
  "start_keyboard mask0 s =
     (case init_keyboard mask0 (kbd s) of (out, k) \<Rightarrow>
        (register_interrupt_handler 33 Keyboard_isr s)\<lparr>kbd := k, port_log := port_log s @ [(0x21, out)]\<rparr>)"

definition kernel_devices :: "limine \<Rightarrow> machine \<Rightarrow> machine boot option" where
  "kernel_devices b m =
     (if \<not> revision_ok b then Some Stopped
      else case framebuffers b of
        None \<Rightarrow> Some Stopped
      | Some [] \<Rightarrow> Some Stopped
      | Some (fb # fbs) \<Rightarrow> do {
          let s = m_kernel m;
          let m1 = m\<lparr>m_kernel := s\<lparr>kbd := (kbd s)\<lparr>con := console_init fb (con (kbd s))\<rparr>\<rparr>\<rparr>;
          m2 \<leftarrow> say ''Initializing GDT and IDT...'' m1;
          let g = gdt_init (gdt_at b) (tss_at b) (m_gdt m2);
          m3 \<leftarrow> say ''GDT initialized.'' (m2\<lparr>m_gdt := g, m_kernel := set_tss_stack (rsp0 (tss g)) (m_kernel m2)\<rparr>);
          m4 \<leftarrow> say ''IDT initialized.'' (m3\<lparr>m_idt := idt_init (idt_at b) (stubs b) (m_idt m3)\<rparr>);
          Some (Ready (enable_nx (m4\<lparr>m_kernel := start_keyboard (imr_keyboard b) (m_kernel m4)\<rparr>)))
        })"

text \<open>The last part: processes, clock and files. \<^verbatim>\<open>proc_init\<close> stops when it has no memory.\<close>

definition kernel_services :: "limine \<Rightarrow> kernel \<Rightarrow> kernel option" where
  "kernel_services b s = do {
     s1 \<leftarrow> proc_init (idle_name b) s;
     outs \<leftarrow> init_timer 20 (imr_timer b);
     let s2 = (register_interrupt_handler 32 Timer_isr s1)\<lparr>port_log := port_log s1 @ outs\<rparr>;
     ramfs_init 0 0 s2
   }"

definition kernel_init :: "limine \<Rightarrow> machine \<Rightarrow> machine boot option" where
  "kernel_init b m = do {
     r \<leftarrow> kernel_devices b m;
     case r of
       Stopped \<Rightarrow> Some Stopped
     | Ready m1 \<Rightarrow> do {
         q \<leftarrow> mm_init b (m_kernel m1);
         case q of
           Stopped \<Rightarrow> Some Stopped
         | Ready s \<Rightarrow> do {
             m2 \<leftarrow> say ''Switched to new kernel stack done!'' (m1\<lparr>m_kernel := s\<rparr>);
             s' \<leftarrow> kernel_services b (m_kernel m2);
             Some (Ready (m2\<lparr>m_kernel := s'\<rparr>))
           }
       }
   }"

text \<open>
  \<^verbatim>\<open>kmain\<close> up to the switch to the first process: the result is the state in which it runs. The modules
  are not checked: no response or no module is a fault.
\<close>

definition kmain :: "limine \<Rightarrow> machine \<Rightarrow> machine boot option" where
  "kmain b m = do {
     r \<leftarrow> kernel_init b m;
     case r of
       Stopped \<Rightarrow> Some Stopped
     | Ready m1 \<Rightarrow> do {
         ms \<leftarrow> modules b;
         case ms of
           [] \<Rightarrow> None
         | (addr, sz) # _ \<Rightarrow> do {
             s1 \<leftarrow> init_userproc (init_name b) addr sz (m_kernel m1);
             s2 \<leftarrow> schedule (s1\<lparr>if_flag := True\<rparr>);
             Some (Ready (m1\<lparr>m_kernel := s2\<rparr>))
           }
       }
   }"

subsection \<open>Debugging\<close>

text \<open>
  Never called: two threads that print and wait, and the listing of the processes. The format is put at address 1, the
  arguments of \<open>%s\<close> are addresses of kernel memory. The busy wait changes nothing.
\<close>

definition kprintf_mem :: "string \<Rightarrow> va_arg list \<Rightarrow> kernel \<Rightarrow> kernel option" where
  "kprintf_mem fmt args s = on_console (kprintf (write_bytes (kmem s) 1 (str fmt @ [0])) 1 args) s"

fun thread_loop :: "nat \<Rightarrow> string \<Rightarrow> kernel \<Rightarrow> kernel option" where
  "thread_loop 0 msg s = Some s"
| "thread_loop (Suc n) msg s = Option.bind (kprintf_mem msg [] s) (thread_loop n msg)"

definition thread_a :: "kernel \<Rightarrow> kernel option" where
  "thread_a = thread_loop 10000 ''A''"

definition thread_b :: "kernel \<Rightarrow> kernel option" where
  "thread_b = thread_loop 10000 ''B''"

definition state_number :: "proc_state \<Rightarrow> int" where
  "state_number st = (case st of PROC_RUNNING \<Rightarrow> 0 | PROC_READY \<Rightarrow> 1 | PROC_BLOCKED \<Rightarrow> 2 | PROC_ZOMBIE \<Rightarrow> 3)"

partial_function (option) debug_list :: "(u64 \<Rightarrow> kernel \<Rightarrow> kernel option) \<Rightarrow> u64 \<Rightarrow> u64 \<Rightarrow> kernel \<Rightarrow> kernel option" where
  "debug_list line node head s =
     (if node = head then Some s
      else Option.bind (line node s) (\<lambda>s1. debug_list line (l_next s1 node) head s1))"

definition debug_proc :: "kernel \<Rightarrow> kernel option" where
  "debug_proc s = do {
     s1 \<leftarrow> kprintf_mem ''Current Process PID: %d, Name: %s\<newline>'' [VA_int (pid (pcbs s (current_proc s))), VA_u64 (proc_name (current_proc s))] s;
     s2 \<leftarrow> on_console (kprintln_lit ''All Processes:\<newline>'') s1;
     s3 \<leftarrow> debug_list (\<lambda>node t. let p = node - 40 in
             kprintf_mem ''PID: %d, Name: %s, State: %d\<newline>''
               [VA_int (pid (pcbs t p)), VA_u64 (proc_name p), VA_int (state_number (pcb_state (pcbs t p)))] t)
           (l_next s2 (proc_list s2)) (proc_list s2) s2;
     s4 \<leftarrow> on_console (kprintln_lit ''Ready Queue:\<newline>'') s3;
     debug_list (\<lambda>node t. let p = node - 56 in kprintf_mem ''PID: %d, Name: %s\<newline>'' [VA_int (pid (pcbs t p)), VA_u64 (proc_name p)] t)
       (l_next s4 (ready_queue s4)) (ready_queue s4) s4
   }"

subsection \<open>Memory is set up\<close>

lemma pmm_set_more: "pmm.more (pmm_set_free pa n s) = pmm.more s" "pmm.more (pmm_set_busy pa n s) = pmm.more s"
proof -
  have "pmm.more (pmm_set_free_loop i n j s) = pmm.more s" for i n j and s :: "'a pmm_scheme"
  proof (induction i n j s rule: pmm_set_free_loop.induct)
    case (1 i n j s)
    then show ?case by (subst pmm_set_free_loop.simps) simp
  qed
  moreover have "pmm.more (pmm_set_busy_loop i n j s) = pmm.more s" for i n j and s :: "'a pmm_scheme"
  proof (induction i n j s rule: pmm_set_busy_loop.induct)
    case (1 i n j s)
    then show ?case by (subst pmm_set_busy_loop.simps) simp
  qed
  ultimately show "pmm.more (pmm_set_free pa n s) = pmm.more s" "pmm.more (pmm_set_busy pa n s) = pmm.more s"
    by (simp_all add: pmm_set_free_def pmm_set_busy_def Let_def)
qed

lemma pmm_init_more:
  assumes "pmm_init off mmap s = Some s'"
  shows "pmm.more s' = pmm.more s"
proof -
  have "pmm.more (free_usable es t) = pmm.more t" for es and t :: "'a pmm_scheme"
    by (induction es arbitrary: t) (simp_all add: Let_def pmm_set_more)
  then show ?thesis using assms by (auto simp: pmm_init_def Let_def pmm_set_more split: if_splits)
qed

lemma map_page_more: "paging.more (vmm_map_page r va pa fl s) = paging.more s"
  using page_op_map [of s] by (simp add: page_op_def)

lemma paging_init_ok:
  assumes "pmm_inv s" "hhdm_ok s" "free_frames s \<noteq> {}"
  shows "\<exists>s'. paging_init mmap ks ke (Some (kva, kpa)) s = Some s' \<and> kernel_ok s' (cr3 s') \<and> paging.more s' = paging.more s"
proof -
  have all: "paging.more (map_all fl ms t) = paging.more t" for fl ms and t :: "'a paging_scheme"
    by (induction ms arbitrary: t) (auto simp: map_page_more)
  obtain s' where s': "paging_init mmap ks ke (Some (kva, kpa)) s = Some s'" "kernel_ok s' (cr3 s')"
    using paging_init_spec [OF assms] unfolding kernel_ok_def by blast
  from paging_init_run [OF assms, of mmap ks ke kva kpa] obtain s2 fl ms r where "paging.more s2 = paging.more s"
    "paging_init mmap ks ke (Some (kva, kpa)) s = Some ((map_all fl ms s2)\<lparr>cr3 := r\<rparr>)" by metis
  then have "paging.more s' = paging.more s" using s'(1) all by auto
  then show ?thesis using s' by blast
qed

lemma kheap_init_ok:
  assumes "kernel_ok s r"
  shows "kernel_ok (kheap_init n s) r" "kstack_ptr (kheap_init n s) = kstack_ptr s" "cr3 (kheap_init n s) = cr3 s"
proof -
  have add: "kstack_ptr (kheap_add_page pa t) = kstack_ptr t" "cr3 (kheap_add_page pa t) = cr3 t" for pa and t :: "'a kheap_scheme"
  proof -
    let ?t = "vmm_map_page (kernel_pml4 t) (kheap_top t) pa (PTE_PRESENT OR PTE_RW) t"
    have "pages_same ?t (kheap_add_page pa t)" unfolding kheap_add_page_def Let_def
      by (rule pages_same_trans [OF pages_same_heap(2)], rule pages_same_trans [OF pages_same_heap(1)],
          rule pages_same_trans [OF pages_same_list(2)], rule pages_same_trans [OF pages_same_kfree], rule pages_same_heap(3))
    moreover have "page_op t ?t" by (rule page_op_map)
    ultimately show "cr3 (kheap_add_page pa t) = cr3 t" by (simp add: pages_same_def page_op_def)
    have l: "kstack_ptr (list_del x u) = kstack_ptr u" "kstack_ptr (list_add_before x h u) = kstack_ptr u" for x h and u :: "'a kheap_scheme"
      by (simp_all add: list_del_def list_add_before_def list_add_between_def Let_def)
    have "kstack_ptr (kfree p u) = kstack_ptr u" for p and u :: "'a kheap_scheme"
      by (simp add: kfree_def kfree_merge_next_def kfree_merge_prev_def Let_def l)
    with l show "kstack_ptr (kheap_add_page pa t) = kstack_ptr t" by (simp add: kheap_add_page_def Let_def)
  qed
  have loop: "kernel_ok (snd (kheap_expand_loop n i t)) r \<and> kstack_ptr (snd (kheap_expand_loop n i t)) = kstack_ptr t
    \<and> cr3 (snd (kheap_expand_loop n i t)) = cr3 t" if "kernel_ok t r" for i and t :: "'a kheap_scheme"
    using that
  proof (induction n i t rule: kheap_expand_loop.induct)
    case (1 n i t)
    obtain pa t1 where a: "pmm_alloc_page t = (pa, t1)" by fastforce
    have t1: "kstack_ptr t1 = kstack_ptr t" "cr3 t1 = cr3 t" "kernel_ok t1 r"
      using page_op_heap(3) [OF page_op_alloc [of t]] page_op_alloc [of t] kernel_ok_alloc(1) [OF "1.prems"]
      by (simp_all add: a page_op_def)
    show ?case using "1.prems" t1 "1.IH" [OF _ a [symmetric] _ kernel_ok_add_page(1) [OF t1(3)]]
      by (subst (1 2 3) kheap_expand_loop.simps) (simp add: a add)
  qed
  let ?s = "(list_init (kheap_list s) s)\<lparr>kheap_top := KERNEL_HEAP_BASE\<rparr>"
  have "pages_same s ?s" by (simp add: pages_same_def list_init_def)
  then have "kernel_ok ?s r" using assms kernel_ok_same by blast
  from loop [OF this, of 0] show "kernel_ok (kheap_init n s) r" "kstack_ptr (kheap_init n s) = kstack_ptr s" "cr3 (kheap_init n s) = cr3 s"
    by (simp_all add: kheap_init_def kheap_expand_def list_init_def)
qed

text \<open>Literals are printed; no message fails.\<close>

lemma kprint_prints: "cstr m p cs \<Longrightarrow> kprint m p c = Some (fold kprint_char cs c)"
  by (induction cs arbitrary: p c) (simp_all add: kprint.simps)

lemma write_bytes_cstr0:
  assumes "0 \<notin> set cs" "length cs < 2 ^ 64 - 1"
  shows "cstr (write_bytes (\<lambda>_. 0) p cs) p cs"
proof -
  have "write_bytes (\<lambda>_. 0) p cs = write_bytes (\<lambda>_. 0) p (cs @ [0])"
    using assms(2) by (intro ext, subst (1 2) write_bytes_eq) (auto simp: nth_append)
  then show ?thesis using cstr_write_bytes [of cs "\<lambda>_. 0" p] assms by simp
qed

lemma lit_prints:
  assumes "0 \<notin> set (str msg)" "length msg < 2 ^ 20"
  shows "kprint_lit msg c = Some (fold kprint_char (str msg) c)" "kprintln_lit msg c = Some (fold kprint_char (str msg @ [10]) c)"
  using kprint_prints [OF write_bytes_cstr0 [OF assms(1), of 1]] assms(2) by (simp_all add: kprint_lit_def kprintln_lit_def kprintln_def str_def)

lemma kprintf_skip:
  assumes "\<forall>b \<in> set cs. b \<noteq> 0 \<and> b \<noteq> 37" "\<forall>i < length cs. m (p + of_nat i) = cs ! i"
  shows "kprintf m p args c = kprintf m (p + of_nat (length cs)) args (fold kprint_char cs c)"
  using assms
proof (induction cs arbitrary: p c)
  case (Cons b cs)
  have m: "m p = b" "\<forall>i < length cs. m (p + 1 + of_nat i) = cs ! i"
    using Cons.prems(2) [rule_format, of 0] Cons.prems(2) [rule_format, of "Suc _"] by (auto simp: ac_simps)
  have "kprintf m p args c = kprintf m (p + 1) args (kprint_char b c)"
    using Cons.prems(1) m(1) by (subst kprintf.simps) (simp add: kprintf_step_def)
  then show ?case using Cons.IH [OF _ m(2), of "kprint_char b c"] Cons.prems(1) by (simp add: ac_simps)
qed simp

lemma kprintf_lit_lx:
  assumes "\<forall>b \<in> set (str pre). b \<noteq> 0 \<and> b \<noteq> 37" "length pre < 1000"
  shows "\<exists>c. kprintf_lit (pre @ ''%lx\<newline>'') '''' [VA_u64 v] s = Some (s\<lparr>kbd := (kbd s)\<lparr>con := c\<rparr>\<rparr>)"
proof -
  let ?t = "str pre @ [37, 108, 120, 10]"
  let ?m = "write_bytes (\<lambda>_. 0) 1 ?t" and ?p = "1 + of_nat (length pre) :: u64"
  have t: "str (pre @ ''%lx\<newline>'') = ?t" by (simp add: str_def)
  have len: "length (str pre) = length pre" by (simp add: str_def)
  have "(of_nat j :: u64) \<noteq> of_nat i" if "i < j" "j < 2000" for i j :: nat
    using that by (simp add: of_nat_inverse word_unat_eq_iff unat_of_nat)
  have at: "?m (1 + of_nat i) = (if i < length ?t then ?t ! i else 0)" if "i < 2000" for i
    using that assms(2) len by (subst write_bytes_eq) (auto simp: unat_of_nat)
  have n: "?m ?p = 37" "?m (?p + 1) = 108" "?m (?p + 2) = 120" "?m (?p + 3) = 10" "?m (?p + 4) = 0"
    using at [of "length pre"] at [of "length pre + 1"] at [of "length pre + 2"] at [of "length pre + 3"] at [of "length pre + 4"] assms(2) len
    by (simp_all add: nth_append ac_simps)
  have "kprintf ?m 1 [VA_u64 v] d = kprintf ?m ?p [VA_u64 v] (fold kprint_char (str pre) d)" for d
    using kprintf_skip [OF assms(1), of ?m 1 "[VA_u64 v]" d] at assms(2) len by (auto simp: nth_append)
  moreover have "\<exists>e. kprintf ?m ?p [VA_u64 v] d = Some e" for d
  proof -
    have "kprintf ?m ?p [VA_u64 v] d = kprintf ?m (?p + 3) [] (kprint_hex v d)"
      using n by (subst kprintf.simps) (simp add: kprintf_step_def)
    moreover have "kprintf ?m q [] e = kprintf ?m (q + 1) [] (kprint_char 10 e)" if "?m q = 10" for q e
      using that by (subst kprintf.simps) (simp add: kprintf_step_def)
    from this [OF n(4)] have "kprintf ?m (?p + 3) [] e = kprintf ?m (?p + 4) [] (kprint_char 10 e)" for e by simp
    moreover have "kprintf ?m (?p + 4) [] e = Some e" for e using n by (subst kprintf.simps) simp
    ultimately show ?thesis by simp
  qed
  ultimately have "\<exists>e. kprintf ?m 1 [VA_u64 v] d = Some e" for d by simp
  then obtain e where "kprintf ?m 1 [VA_u64 v] (con (kbd s)) = Some e" by blast
  then show ?thesis unfolding kprintf_lit_def t by (auto simp: str_def)
qed

lemma numbers_end:
  assumes "base = 10 \<or> base = 16"
  shows "\<exists>c'. kprint_number v base c = Some c'" "\<exists>c'. kprint_uint64 v c = Some c'"
proof -
  have b: "2 \<le> base" "base \<le> 16" using assms by auto
  show "\<exists>c'. kprint_number v base c = Some c'"
    using itoa_uint64_parse [OF b, of "\<lambda>_. 0" v 1] kprint_prints unfolding kprint_number_def by blast
  show "\<exists>c'. kprint_uint64 v c = Some c'"
    using itoa_uint64_parse [of 10 "\<lambda>_. 0" v 0] kprint_prints unfolding kprint_uint64_def by fastforce
qed

definition plain :: "string \<Rightarrow> bool" where
  "plain msg \<longleftrightarrow> (\<forall>b \<in> set (str msg). b \<noteq> 0) \<and> length msg < 1000"

lemma lit_ends:
  assumes "plain msg"
  shows "\<exists>c'. kprint_lit msg c = Some c'" "\<exists>c'. kprintln_lit msg c = Some c'"
proof -
  have "0 \<notin> set (str msg)" "length msg < 2 ^ 20" using assms by (auto simp: plain_def)
  from lit_prints [OF this] show "\<exists>c'. kprint_lit msg c = Some c'" "\<exists>c'. kprintln_lit msg c = Some c'" by simp_all
qed

lemma memtype_plain: "plain (memtype2str t)"
  by (simp add: memtype2str_def plain_def str_def)

lemma bind_ends: "\<exists>y. x = Some y \<Longrightarrow> (\<And>y. \<exists>z. f y = Some z) \<Longrightarrow> \<exists>z. Option.bind x f = Some z"
  by auto

lemma debug_entries_ends: "\<exists>r. debug_entries i es sums c = Some r"
proof (induction es arbitrary: i sums c)
  case (Cons e es)
  obtain a b d where "sums = (a, b, d)" by (cases sums) auto
  then show ?case
    by (simp only: debug_entries.simps)
       (intro bind_ends lit_ends numbers_end(1) numbers_end(2) [of 10] Cons.IH memtype_plain; simp add: plain_def str_def)
qed (simp only: debug_entries.simps, blast)

lemma debug_memmap_ends: "\<exists>c'. debug_memmap mmap c = Some c'"
  unfolding debug_memmap_def
  by (cases mmap)
     (simp_all only: option.case case_prod_unfold, (intro bind_ends lit_ends numbers_end(1) debug_entries_ends; simp add: plain_def str_def)+)

lemma page_table_pointer_kept: "cr3 (snd (pmm_alloc_page s)) = cr3 s" "cr3 (vmm_map_page t va pa fl s) = cr3 s"
  using page_op_alloc [of s] page_op_map [of s] by (simp_all add: page_op_def)

lemma kstack_map_loop_stops:
  assumes "kstack_map_loop v t s = Some y"
  shows "\<forall>r. kernel_ok s r \<longrightarrow> cr3 (snd y) = cr3 s \<and> (\<not> fst y \<longrightarrow> free_frames (snd y) = {})"
proof (rule kstack_map_loop.raw_induct [OF _ assms,
    where P = "\<lambda>v t s y. \<forall>r. kernel_ok s r \<longrightarrow> cr3 (snd y) = cr3 s \<and> (\<not> fst y \<longrightarrow> free_frames (snd y) = {})"], goal_cases)
  case (1 f v t s y)
  show ?case
  proof (cases "v < t \<and> fst (pmm_alloc_page s) \<noteq> 0")
    case True
    let ?s1 = "snd (pmm_alloc_page s)"
    let ?s2 = "vmm_map_page (kernel_pml4 ?s1) v (fst (pmm_alloc_page s)) (PTE_PRESENT OR PTE_RW) ?s1"
    have "f (v + PAGE_SIZE) t ?s2 = Some y" using 1(2) True by (simp add: case_prod_unfold)
    from 1(1) [OF this] show ?thesis using kernel_ok_map(1) [OF kernel_ok_alloc(1), of s _ v "fst (pmm_alloc_page s)"]
      by (auto simp: page_table_pointer_kept)
  next
    case False
    have "free_frames (snd (pmm_alloc_page s)) = {}" if "fst (pmm_alloc_page s) = 0" "kernel_ok s r" for r
      using that pm.alloc_zero_iff [of s] pm.alloc_none [of s] by (simp add: kernel_ok_def pt_inv_def)
    then show ?thesis using 1(2) False by (auto simp: case_prod_unfold page_table_pointer_kept split: if_splits)
  qed
qed

text \<open>The frames that \<^verbatim>\<open>pmm_init\<close> leaves free, and what \<^verbatim>\<open>mm_init\<close> calls between its messages.\<close>

definition boot_frames :: "limine_memmap_entry list \<Rightarrow> u64 set" where
  "boot_frames mmap =
     (let n = highest_pa mmap 0 div PAGE_SIZE; b = find_bitmap_pa mmap (bitmap_bytes n); k = bitmap_pages_for (bitmap_bytes n)
      in freed_frames mmap n - (if unat (pa2pgidx b) + unat k < unat n then page_range (pa2pgidx b) k else {}) - {0})"

definition memory_setup :: "limine \<Rightarrow> u64 \<Rightarrow> limine_memmap_entry list \<Rightarrow> kernel \<Rightarrow> (u64 \<times> kernel) option" where
  "memory_setup b off mmap s = do {
     s1 \<leftarrow> pmm_init off mmap s;
     s2 \<leftarrow> paging_init mmap (k_start b) (k_end b) (kernel_address b) s1;
     kstack_init (4 * PAGE_SIZE) (kheap_init 4 s2)
   }"

lemma kstack_init_boot:
  assumes "kernel_ok s r" "kstack_ptr s = 0xFFFFB00000000000"
  shows "\<exists>t s'. kstack_init (4 * PAGE_SIZE) s = Some (t, s') \<and> kernel_ok s' r \<and> kstack_ptr s' = 0xFFFFB00000005000 \<and> cr3 s' = cr3 s
    \<and> (t = 0 \<longrightarrow> free_frames s' = {}) \<and> (t \<noteq> 0 \<longrightarrow> t = 0xFFFFB00000005000)
    \<and> (free_frames s' \<noteq> {} \<longrightarrow> (\<forall>p \<in> set (pages_between 0xFFFFB00000001000 0xFFFFB00000005000). translate s' r p \<noteq> None))"
proof -
  from kstack_init_run [OF assms(1), of "4 * PAGE_SIZE"] assms(2) obtain t s' where
    k: "kstack_init (4 * PAGE_SIZE) s = Some (t, s')" "kernel_ok s' r" "kstack_ptr s' = 0xFFFFB00000005000"
    and st: "t \<noteq> 0 \<Longrightarrow> t = kstack_ptr s'"
      "t \<noteq> 0 \<Longrightarrow> free_frames s' \<noteq> {} \<Longrightarrow> p \<in> set (pages_between 0xFFFFB00000001000 0xFFFFB00000005000) \<Longrightarrow> translate s' r p \<noteq> None" for p
    by (force simp: paged_def)
  let ?s = "s\<lparr>kstack_ptr := 0xFFFFB00000005000\<rparr>"
  from k(1) assms(2) obtain ok where l: "kstack_map_loop 0xFFFFB00000001000 0xFFFFB00000005000 ?s = Some (ok, s')" "t = (if ok then 0xFFFFB00000005000 else 0)"
    by (auto simp: kstack_init_def)
  have "pages_same s ?s" by (simp add: pages_same_def)
  then have "kernel_ok ?s r" using assms(1) kernel_ok_same by blast
  with kstack_map_loop_stops [OF l(1)] have "cr3 s' = cr3 s" "\<not> ok \<longrightarrow> free_frames s' = {}" by auto
  with k st l(2) show ?thesis by (cases ok) auto
qed

lemma memory_setup_ends:
  assumes "memmap_ok mmap" "kernel_address b = Some (kva, kpa)" "free_pages s = 0" "last_free_index s = 0" "kstack_ptr s = 0xFFFFB00000000000"
    and off: "HHDM_OFFSET s = off" "paged off" "off \<noteq> 0" "unat off + 4096 * unat (highest_pa mmap 0 div PAGE_SIZE) \<le> 2 ^ 64"
      "unat (highest_pa mmap 0 div PAGE_SIZE) \<le> 2 ^ 40"
    and room: "find_bitmap_pa mmap (bitmap_bytes (highest_pa mmap 0 div PAGE_SIZE)) \<noteq> 0" "boot_frames mmap \<noteq> {}"
  shows "\<exists>t s'. memory_setup b off mmap s = Some (t, s') \<and> kernel_ok s' (cr3 s') \<and> kstack_ptr s' = 0xFFFFB00000005000
    \<and> (t = 0 \<longrightarrow> free_frames s' = {}) \<and> (t \<noteq> 0 \<longrightarrow> t = 0xFFFFB00000005000)
    \<and> (free_frames s' \<noteq> {} \<longrightarrow> (\<forall>p \<in> set (pages_between 0xFFFFB00000001000 0xFFFFB00000005000). translate s' (cr3 s') p \<noteq> None))"
proof -
  obtain s1 where s1: "pmm_init off mmap s = Some s1" using room(1) by (simp add: pmm_init_def Let_def)
  note pm1 = pmm_init_spec [OF assms(1,3,4) s1]
  have m1: "pmm.more s1 = pmm.more s" by (rule pmm_init_more [OF s1])
  have f1: "HHDM_OFFSET s1 = off" "kstack_ptr s1 = kstack_ptr s" using m1 off(1) by (cases s; cases s1; simp)+
  have "hhdm_ok s1" using off f1(1) pm1(2) by (simp add: hhdm_ok_def)
  moreover have "free_frames s1 \<noteq> {}" using room(2) pm1(3) by (simp add: boot_frames_def Let_def)
  ultimately obtain s2 where s2: "paging_init mmap (k_start b) (k_end b) (Some (kva, kpa)) s1 = Some s2" "kernel_ok s2 (cr3 s2)"
      "paging.more s2 = paging.more s1"
    using paging_init_ok [OF pm1(1)] by blast
  have k2: "kstack_ptr s2 = 0xFFFFB00000000000" using s2(3) f1(2) assms(5) by (cases s1; cases s2; simp)
  note h = kheap_init_ok [OF s2(2), of 4]
  from kstack_init_boot [OF h(1)] h(2,3) k2 s1 s2(1) assms(2) show ?thesis by (fastforce simp: memory_setup_def)
qed

lemma mm_init_setup:
  assumes "hhdm b = Some off" "memmap b = Some mmap"
  shows "\<exists>c d. mm_init b s = Option.bind (memory_setup b off mmap (s\<lparr>HHDM_OFFSET := off, kbd := (kbd s)\<lparr>con := c\<rparr>\<rparr>))
    (\<lambda>(t, s'). Some (if t = 0 then Stopped else Ready (s'\<lparr>tss_rsp0 := t, kbd := (kbd s')\<lparr>con := d t s'\<rparr>\<rparr>)))"
proof -
  have "plain ''Initializing Memory Management Subsystem...''" by (simp add: plain_def str_def)
  from lit_ends(2) [OF this] obtain c1 where c1: "kprintln_lit ''Initializing Memory Management Subsystem...'' (con (kbd s)) = Some c1" by blast
  obtain c2 where c2: "debug_memmap (Some mmap) c1 = Some c2" using debug_memmap_ends by blast
  let ?s2 = "s\<lparr>HHDM_OFFSET := off, kbd := (kbd s)\<lparr>con := c2\<rparr>\<rparr>"
  have "\<exists>c. kprintf_lit ''HHDM OFFSET: %lx\<newline>'' '''' [VA_u64 off] ?s2 = Some (?s2\<lparr>kbd := (kbd ?s2)\<lparr>con := c\<rparr>\<rparr>)"
    using kprintf_lit_lx [of "''HHDM OFFSET: ''" off ?s2] by (simp add: str_def)
  then obtain c where c: "kprintf_lit ''HHDM OFFSET: %lx\<newline>'' '''' [VA_u64 off] ?s2 = Some (s\<lparr>HHDM_OFFSET := off, kbd := (kbd s)\<lparr>con := c\<rparr>\<rparr>)"
    by auto
  have "\<exists>e. kprintf_lit ''Switching stack to %lx\<newline>'' '''' [VA_u64 t] s' = Some (s'\<lparr>kbd := (kbd s')\<lparr>con := e\<rparr>\<rparr>)" for t and s' :: kernel
    using kprintf_lit_lx [of "''Switching stack to ''" t s'] by (simp add: str_def)
  then obtain d where d: "kprintf_lit ''Switching stack to %lx\<newline>'' '''' [VA_u64 t] s' = Some (s'\<lparr>kbd := (kbd s')\<lparr>con := d t s'\<rparr>\<rparr>)" for t and s' :: kernel
    by metis
  show ?thesis
    by (intro exI [of _ c] exI [of _ "\<lambda>t s'. d t (s'\<lparr>tss_rsp0 := t\<rparr>)"])
       (simp add: mm_init_def on_console_def memory_setup_def assms c1 c2 c d set_tss_stack_def bind_assoc case_prod_unfold if_distrib cong: if_cong)
qed

subsection \<open>Properties\<close>


definition example_limine :: limine where
  "example_limine = \<lparr>revision_ok = True, framebuffers = None, memmap = Some example_mmap, hhdm = Some 0xFFFF800000000000,
     kernel_address = Some (0xFFFFFFFF80000000, 0x1000), modules = None, k_start = 0, k_end = 0x1000, gdt_at = 0, tss_at = 0, idt_at = 0,
     stubs = (\<lambda>_. 0), imr_keyboard = 0xFF, imr_timer = 0xFF, idle_name = 0, init_name = 0\<rparr>"


end
