(* ===== verification/Spec2Isabelle.thy ===== *)
theory Spec2Isabelle
  imports Typing Boot
begin

text \<open>
  A verification of SudoOS, a monolithic kernel for x86-64 with a small user library.

  \<^bold>\<open>The program.\<close> The kernel (\<^verbatim>\<open>kernel/src\<close>) is booted by Limine, which passes a map of physical memory. A bitmap
  allocator hands out 4 KiB frames (\<^verbatim>\<open>mm/pmm.c\<close>); four-level page tables are built in such frames
  (\<^verbatim>\<open>mm/paging.c\<close>); the kernel heap and the kernel stacks are mapped on demand (\<^verbatim>\<open>mm/pmm.c\<close>); every process has
  an address space of its own (\<^verbatim>\<open>mm/vmm.c\<close>). Processes (\<^verbatim>\<open>proc/proc.c\<close>) are scheduled round robin by the clock
  interrupt (\<^verbatim>\<open>proc/sche.c\<close>, \<^verbatim>\<open>arch/timer.c\<close>, \<^verbatim>\<open>arch/switch.S\<close>). A file system in memory (\<^verbatim>\<open>fs/ramfs.c\<close>), a text
  console on the frame buffer and a keyboard driver (\<^verbatim>\<open>drivers\<close>) serve the system calls that
  \<^verbatim>\<open>arch/interrupts.c\<close> dispatches. User programs call them through \<^verbatim>\<open>int 0x80\<close> and a C library (\<^verbatim>\<open>usr/lib\<close>).

  \<^bold>\<open>The state.\<close> One record that grows by extension, a layer for each component: \<open>links\<close> (the nodes of all
  linked lists), \<open>pmm\<close>, \<open>paging\<close> (byte memory \<open>kmem\<close> at kernel addresses, \<open>cr3\<close>), \<open>kheap\<close>, \<open>vmm\<close>, \<open>proc\<close>, \<open>ramfs\<close> and
  \<open>kernel\<close> (keyboard, console, interrupt table, port log). An operation of a layer is polymorphic in the
  layers above it, so it provably leaves them alone. Structures that the code keeps in memory (heap
  headers, address spaces, process control blocks, trap frames) are fields indexed by their address;
  page tables, files, names and user memory lie byte by byte in \<open>kmem\<close>. Unsigned C integers are words, so
  that all wrap-around is the code's; \<^verbatim>\<open>int\<close> is \<open>int\<close>.

  \<^bold>\<open>Errors and loops.\<close> \<open>None\<close> is what the C code does not define or never finishes: a \<^verbatim>\<open>NULL\<close> or unmapped address
  that is followed, signed overflow, a loop without end. Error results of the code are values. Loops
  are recursive functions with a measure; a loop that ends only on well-formed data (a zero byte, a
  list that comes back to its head) is a \<open>partial_function (option)\<close>, and that it ends is part of the
  theorems about it. There is no fuel.

  \<^bold>\<open>The theories.\<close>
  \<^item> \<open>Prelude\<close>: C integers as words, alignment, arithmetic on words read as natural numbers.
  \<^item> \<open>KList\<close> (\<^verbatim>\<open>lib/list.h\<close>): \<open>dll s h xs\<close> says that the nodes \<open>xs\<close> form the circular list with head \<open>h\<close>; the
    operations refine insertion and deletion on the sequence. The locale \<open>node_queue\<close> states the queue
    contract and is interpreted on the list operations.
  \<^item> \<open>Pmm\<close> (\<^verbatim>\<open>mm/pmm.c\<close>, frames): \<open>pmm_inv\<close> relates the bitmap to its counter; allocation is next fit and
    complete, release ignores bad addresses, initialisation frees exactly the usable frames. The locale
    \<open>frame_allocator\<close> is the contract of the layers above.
  \<^item> \<open>KString\<close> (\<^verbatim>\<open>lib/string.c\<close>): every routine on byte memory; number conversion, copying, comparison and
    splitting of C strings.
  \<^item> \<open>Kmem\<close>, \<open>Paging\<close> (\<^verbatim>\<open>mm/paging.c\<close>): page tables in byte memory. \<open>translate\<close> is the walk of the processor, \<open>pt_inv\<close>
    says that the tables form a tree in frames that are in use. Mapping, lookup, recursive release and
    the boot mappings are proved against \<open>translate\<close>.
  \<^item> \<open>Kheap\<close> (\<^verbatim>\<open>mm/pmm.c\<close>, heap and stacks): \<open>heap_inv\<close> is the layout of the block list. Allocation gives fresh
    disjoint blocks when the last block is free; the unguarded merge of \<open>kfree\<close> and what it breaks.
  \<^item> \<open>Vmm\<close> (\<^verbatim>\<open>mm/vmm.c\<close>): address spaces; the locale \<open>frame_mapper\<close> carries the loop that maps a range to fresh
    frames.
  \<^item> \<open>Sched\<close> (\<^verbatim>\<open>proc/sche.c\<close>, \<^verbatim>\<open>arch/timer.c\<close>, \<^verbatim>\<open>arch/switch.S\<close>): the scheduler as a step relation with its invariant,
    round-robin progress under the clock (locale \<open>time_slicing\<close>), the register switch, the timer.
  \<^item> \<open>Layers\<close>: frame lemmas, what each memory operation leaves alone.
  \<^item> \<open>Proc\<close> (\<^verbatim>\<open>proc/proc.c\<close>, \<^verbatim>\<open>lib/elf.h\<close>): processes, the ELF loader, \<^verbatim>\<open>fork\<close>.
  \<^item> \<open>Ramfs\<close> (\<^verbatim>\<open>fs/ramfs.c\<close>): \<open>ramfs_ok\<close> is the invariant of the node table and the descriptors; paths, reading back
    what was written, directories.
  \<^item> \<open>Console\<close>, \<open>Keyboard\<close> (\<^verbatim>\<open>drivers\<close>): the pixels show the text of the history; the ring buffer is a bounded
    queue (locale \<open>bounded_queue\<close>).
  \<^item> \<open>Descriptors\<close> (\<^verbatim>\<open>arch/gdt.c\<close>, \<^verbatim>\<open>arch/gdt.S\<close>, \<^verbatim>\<open>arch/idt.c\<close>): what the processor reads from the tables.
  \<^item> \<open>Syscall\<close> (\<^verbatim>\<open>arch/interrupts.c\<close>): interrupt dispatch and all system calls. \<open>Calls\<close>: every interrupt keeps
    the invariant of the file system; the program break.
  \<^item> \<open>Ulib\<close>, \<open>User\<close>, \<open>UserIO\<close> (\<^verbatim>\<open>usr/lib\<close>, \<^verbatim>\<open>arch/isr.S\<close>): the user library on the memory of a process; what \<^verbatim>\<open>printf\<close>
    formats reaches the console through trap, dispatcher and system call.
  \<^item> \<open>Shell\<close>, \<open>Typing\<close> (\<^verbatim>\<open>usr/shell.c\<close>, \<^verbatim>\<open>usr/usrmain.c\<close>): the shell and the first program. \<open>line_run\<close> is a line editor with
    echo and backspace; \<^verbatim>\<open>getline\<close>, on keyboard interrupts and system calls, refines it. The words of a
    line and the entries of \<^verbatim>\<open>args\<close>.
  \<^item> \<open>X86\<close> (\<^verbatim>\<open>arch/x86_64.h\<close>, \<^verbatim>\<open>drivers/io.h\<close>): the instruction wrappers on a processor state; the string routines in
    assembly are the ones in C.
  \<^item> \<open>Boot\<close> (\<^verbatim>\<open>main.c\<close>, \<^verbatim>\<open>mm/debug_mm.c\<close>): the boot sequence from the answers of the boot loader to the first process;
    setting up memory ends with consistent page tables in force whenever the memory map leaves a frame
    free, and stops the processor only when memory is used up.

  \<^bold>\<open>Parameters.\<close> Addresses that the linker or the boot loader chooses (entry points, tables, the kernel
  image), bytes read from ports, scan codes (for the shell a list of what arrives before each read), the
  places of string constants and local variables of user programs, and the uninitialised stack value that \<^verbatim>\<open>execve\<close> reads are
  arguments.

  \<^bold>\<open>Not modelled.\<close> The thread entry points in assembly, \<^verbatim>\<open>proc/entry.S\<close>, and the third-party header \<^verbatim>\<open>limine.h\<close>.
  The translation cache is not modelled: every access walks the tables. Most log
  messages of the memory and process code have no effect on the modelled state. What \<^verbatim>\<open>do_execve\<close>
  overwrites on its own stack through \<^verbatim>\<open>ramfs_fstat\<close> is not modelled.
\<close>

end
